(* ===== verification/Prelude.thy ===== *)
theory Prelude
  imports Main "HOL-Library.Word"
begin

text \<open>
  Shared vocabulary of the development: the machine types of Go, its fallible results, slices
  with a length and a capacity, and the generic lemmas about lists and words that the component
  theories use.

  \<^item> An \<open>int64\<close> and a \<open>uint64\<close> are both a \<^typ>\<open>64 word\<close>: addition, subtraction and
    multiplication wrap in the same way, and the conversions between the two types are the
    identity on the bits. Where the sign matters the model reads the word with \<open>sint\<close>.
  \<^item> A Go function that returns an error, or that panics, is a function into \<open>'a res\<close>:
    \<open>Inl (Err m)\<close> is an error with message \<open>m\<close> (format arguments are dropped), \<open>Inl Panic\<close> a
    run-time panic (an index out of range), and \<open>Inl Unsafe\<close> an unchecked write past the end of
    a slice through an \<open>unsafe.Pointer\<close>.
\<close>

unbundle bit_operations_syntax

type_synonym u8 = "8 word"
type_synonym u64 = "64 word"
type_synonym i64 = "64 word"

datatype go_err = Panic | Unsafe | Err string

type_synonym 'a res = "go_err + 'a"

definition rbind :: "'a res \<Rightarrow> ('a \<Rightarrow> 'b res) \<Rightarrow> 'b res" where
  "rbind m f = (case m of Inl e \<Rightarrow> Inl e | Inr x \<Rightarrow> f x)"

lemma rbind_simps [simp]:
  "rbind (Inl e) f = Inl e"
  "rbind (Inr x) f = f x"
  by (simp_all add: rbind_def)

lemma rbind_InrE:
  assumes "rbind m f = Inr y"
  obtains x where "m = Inr x" and "f x = Inr y"
  using assms by (cases m) auto

text \<open>Collections of facts the codec proofs and the catalogue proofs rewrite with.\<close>

named_theorems codec_simps
named_theorems catalog_simps

subsection \<open>Slices\<close>

text \<open>
  A slice is the part of its backing array that starts at the slice's pointer and ends at its
  capacity, and the length of the visible part. Re-slicing up to the capacity shows whatever the
  backing array holds there, as in Go.
\<close>

record 'a slice =
  sl_arr :: "'a list"
  sl_len :: nat

definition sl_wf :: "'a slice \<Rightarrow> bool" where
  "sl_wf s \<longleftrightarrow> sl_len s \<le> length (sl_arr s)"

definition sl_cap :: "'a slice \<Rightarrow> nat" where
  "sl_cap s = length (sl_arr s)"

definition sl_list :: "'a slice \<Rightarrow> 'a list" where
  "sl_list s = take (sl_len s) (sl_arr s)"

definition nil_slice :: "'a slice" where
  "nil_slice = \<lparr>sl_arr = [], sl_len = 0\<rparr>"

definition slice_of :: "'a list \<Rightarrow> 'a slice" where
  "slice_of xs = \<lparr>sl_arr = xs, sl_len = length xs\<rparr>"

text \<open>
  Slice expressions and \<open>append\<close>. \<open>s[:n]\<close> may extend up to the capacity and panics beyond it;
  \<open>append\<close> writes into the spare capacity when there is enough and reallocates otherwise (the
  capacity the runtime then picks is not observable in this code; the model takes the least one).
\<close>

definition sl_reslice :: "nat \<Rightarrow> 'a slice \<Rightarrow> 'a slice res" where
  "sl_reslice n s = (if n \<le> sl_cap s then Inr (s\<lparr>sl_len := n\<rparr>) else Inl Panic)"

definition sl_sub :: "nat \<Rightarrow> nat \<Rightarrow> 'a slice \<Rightarrow> 'a list res" where
  "sl_sub lo hi s = (if lo \<le> hi \<and> hi \<le> sl_cap s then Inr (drop lo (take hi (sl_arr s))) else Inl Panic)"

definition sl_set :: "nat \<Rightarrow> 'a \<Rightarrow> 'a slice \<Rightarrow> 'a slice res" where
  "sl_set i v s = (if i < sl_len s then Inr (s\<lparr>sl_arr := (sl_arr s)[i := v]\<rparr>) else Inl Panic)"

definition sl_append :: "'a slice \<Rightarrow> 'a list \<Rightarrow> 'a slice" where
  "sl_append s xs =
     (if sl_len s + length xs \<le> sl_cap s
      then \<lparr>sl_arr = take (sl_len s) (sl_arr s) @ xs @ drop (sl_len s + length xs) (sl_arr s),
            sl_len = sl_len s + length xs\<rparr>
      else slice_of (sl_list s @ xs))"

text \<open>
  \<open>if len(b) < sz && cap(b) >= sz { b = b[:sz] } else if len(b) < sz { b = append(b, make([]byte, sz-len(b))...) }\<close>:
  the idiom with which the batch encoders make room for \<open>sz\<close> bytes. The result is given as the
  visible elements, since the encoders write below the length only.
\<close>

definition grow_slice :: "nat \<Rightarrow> u8 slice \<Rightarrow> u8 list" where
  "grow_slice sz b =
     (if sl_len b < sz \<and> sl_cap b \<ge> sz then take sz (sl_arr b)
      else if sl_len b < sz then sl_list b @ replicate (sz - sl_len b) 0
      else sl_list b)"

lemma length_sl_list [simp]: "sl_wf s \<Longrightarrow> length (sl_list s) = sl_len s"
  by (simp add: sl_wf_def sl_list_def)

lemma length_grow_slice [simp]:
  "sl_wf b \<Longrightarrow> length (grow_slice sz b) = max sz (sl_len b)"
  by (auto simp: grow_slice_def sl_cap_def sl_wf_def sl_list_def)

lemma nil_slice_simps [simp]:
  "sl_wf nil_slice" "sl_len nil_slice = 0" "sl_list nil_slice = []"
  by (simp_all add: nil_slice_def sl_wf_def sl_list_def)

lemma slice_of_simps [simp]:
  "sl_wf (slice_of xs)" "sl_len (slice_of xs) = length xs" "sl_list (slice_of xs) = xs"
  by (simp_all add: slice_of_def sl_wf_def sl_list_def)

subsection \<open>Overwriting a range\<close>

text \<open>\<open>copy(b[i:], xs)\<close> where the source relies on the room being there; a panic otherwise.\<close>

definition blit :: "nat \<Rightarrow> 'a list \<Rightarrow> 'a list \<Rightarrow> 'a list res" where
  "blit i xs b =
     (if i + length xs \<le> length b then Inr (take i b @ xs @ drop (i + length xs) b) else Inl Panic)"

text \<open>
  \<open>n := copy(b[i:], s); i += n\<close> for one piece after the other: the pieces end up side by side from
  position \<open>i\<close> on, and the final index is returned with the buffer.
\<close>

fun blits :: "nat \<Rightarrow> 'a list list \<Rightarrow> 'a list \<Rightarrow> ('a list \<times> nat) res" where
  "blits i [] b = Inr (b, i)"
| "blits i (s # ss) b = rbind (blit i s b) (blits (i + length s) ss)"

lemma blits_fit:
  assumes "i + length (concat ss) \<le> length b"
  shows "blits i ss b =
    Inr (take i b @ concat ss @ drop (i + length (concat ss)) b, i + length (concat ss))"
  using assms
proof (induction ss arbitrary: i b)
  case (Cons s ss)
  define b' where "b' = take i b @ s @ drop (i + length s) b"
  have len: "length b' = length b" using Cons.prems by (simp add: b'_def)
  have "blits (i + length s) ss b' =
    Inr (take (i + length s) b' @ concat ss @ drop (i + length s + length (concat ss)) b',
         i + length s + length (concat ss))"
    using Cons.prems by (intro Cons.IH) (simp add: len)
  moreover have "take (i + length s) b' = take i b @ s"
    using Cons.prems by (simp add: b'_def)
  moreover have "drop (i + length s + length (concat ss)) b' = drop (i + length s + length (concat ss)) b"
    using Cons.prems by (simp add: b'_def ac_simps)
  ultimately show ?case
    using Cons.prems by (simp add: blit_def b'_def [symmetric] add.assoc)
qed simp

lemma blits_0:
  assumes "length (concat ss) \<le> length b"
  shows "blits 0 ss b = Inr (concat ss @ drop (length (concat ss)) b, length (concat ss))"
  using blits_fit [of 0 ss b] assms by simp

declare blits.simps [simp del]

subsection \<open>Lists\<close>

lemma take_Suc_update: "j < length xs \<Longrightarrow> take (Suc j) (xs[j := v]) = take j xs @ [v]"
  by (simp add: take_Suc_conv_app_nth)

subsection \<open>Words and bits\<close>

lemma less_exp_bit_bound:
  fixes w :: "'a::len word"
  assumes "w < 2 ^ n" and "bit w i"
  shows "i < n"
proof -
  have "take_bit n w = w"
    using less_mask_eq [OF assms(1)] by (simp add: take_bit_eq_mask)
  then show ?thesis
    using assms(2) by (metis bit_take_bit_iff)
qed

lemma unat_u64_less: "unat (x :: u64) < 2 ^ 64"
  using unsigned_less [of x, where 'a = nat] by simp

lemma unat_of_nat_u64: "n < 2 ^ 64 \<Longrightarrow> unat (of_nat n :: u64) = n"
  by (simp add: unsigned_of_nat take_bit_nat_eq_self)

lemma unat_of_nat_u8: "n < 2 ^ 8 \<Longrightarrow> unat (of_nat n :: u8) = n"
  by (simp add: unsigned_of_nat take_bit_nat_eq_self)

lemma take_bit_less_exp:
  fixes w :: "'a::len word"
  assumes "w < 2 ^ n"
  shows "take_bit n w = w"
  using less_mask_eq [OF assms] by (simp add: take_bit_eq_mask)

end
