(* ===== verification/GoBinary.thy ===== *)
theory GoBinary
  imports Prelude
begin

text \<open>
  The parts of Go's \<open>encoding/binary\<close> the codecs use: big-endian 64-bit words and unsigned
  varints. They are standard-library code, modelled from its documented behaviour.
  \<open>be_u64\<close> reads the first eight bytes and is applied under a length guard only;
  \<open>put_uvarint x\<close> is the byte string \<open>binary.PutUvarint\<close> writes, and \<open>uvarint\<close> returns the value
  and the number of bytes read (0 when the buffer is too short, negative on overflow).
\<close>

unbundle bit_operations_syntax

definition put_be_u64 :: "u64 \<Rightarrow> u8 list" where
  "put_be_u64 v =
     [ucast (drop_bit 56 v), ucast (drop_bit 48 v), ucast (drop_bit 40 v), ucast (drop_bit 32 v),
      ucast (drop_bit 24 v), ucast (drop_bit 16 v), ucast (drop_bit 8 v), ucast v]"

definition be_u64 :: "u8 list \<Rightarrow> u64" where
  "be_u64 bs = fold (\<lambda>b acc. push_bit 8 acc OR ucast b) (take 8 bs) 0"

function put_uvarint :: "u64 \<Rightarrow> u8 list" where
  "put_uvarint x =
     (if x \<ge> 0x80 then (ucast x OR 0x80) # put_uvarint (drop_bit 7 x) else [ucast x])"
  by pat_completeness auto
termination
proof (relation "measure unat")
  fix x :: u64
  assume "x \<ge> 0x80"
  then have "unat x \<ge> 128" by (simp add: word_le_nat_alt)
  then show "(drop_bit 7 x, x) \<in> measure unat"
    by (simp add: drop_bit_eq_div unat_div)
qed simp

declare put_uvarint.simps [simp del]

fun uvarint_loop :: "u8 list \<Rightarrow> nat \<Rightarrow> u64 \<Rightarrow> nat \<Rightarrow> u64 \<times> int" where
  "uvarint_loop [] i x s = (0, 0)"
| "uvarint_loop (b # bs) i x s =
     (if i = 10 then (0, - int (i + 1))
      else if b < 0x80 then
        (if i = 9 \<and> b > 1 then (0, - int (i + 1)) else (x OR push_bit s (ucast b), int (i + 1)))
      else uvarint_loop bs (i + 1) (x OR push_bit s (ucast (b AND 0x7f))) (s + 7))"

definition uvarint :: "u8 list \<Rightarrow> u64 \<times> int" where
  "uvarint buf = uvarint_loop buf 0 0 0"

subsection \<open>Big-endian words\<close>

lemma length_put_be_u64 [simp]: "length (put_be_u64 v) = 8"
  by (simp add: put_be_u64_def)

lemma be_step:
  "push_bit 8 (drop_bit (k + 8) v) OR ucast (ucast (drop_bit k v) :: u8) = drop_bit k (v :: u64)"
proof (rule bit_word_eqI)
  fix n :: nat
  assume "n < LENGTH(64)"
  then show "bit (push_bit 8 (drop_bit (k + 8) v) OR ucast (ucast (drop_bit k v) :: u8)) n
      = bit (drop_bit k v) n"
    by (cases "8 \<le> n") (auto simp: bit_simps)
qed

lemma be_top: "ucast (ucast (drop_bit 56 v) :: u8) = drop_bit 56 (v :: u64)"
  by (rule bit_word_eqI) (auto simp: bit_simps dest: bit_imp_le_length)

lemma be_u64_put [simp]: "be_u64 (put_be_u64 v @ bs) = v"
  using be_step [of 48 v] be_step [of 40 v] be_step [of 32 v] be_step [of 24 v]
    be_step [of 16 v] be_step [of 8 v] be_step [of 0 v]
  by (simp add: be_u64_def put_be_u64_def be_top)

lemma be_u64_put_self [simp]: "be_u64 (put_be_u64 v) = v"
  using be_u64_put [of v "[]"] by simp

lemma be_u64_8:
  "be_u64 [a, b, c, d, e, f, g, h] =
     push_bit 56 (ucast a) OR push_bit 48 (ucast b) OR push_bit 40 (ucast c) OR push_bit 32 (ucast d) OR
     push_bit 24 (ucast e) OR push_bit 16 (ucast f) OR push_bit 8 (ucast g) OR ucast h"
  by (simp add: be_u64_def push_bit_or push_bit_push_bit or.assoc)

lemma put_be_u64_be:
  assumes "length bs = 8"
  shows "put_be_u64 (be_u64 bs) = bs"
proof -
  from assms obtain a b c d e f g h where bs: "bs = [a, b, c, d, e, f, g, h]"
    by (auto simp: length_Suc_conv numeral_eq_Suc)
  have "ucast (drop_bit 56 (be_u64 bs)) = a" "ucast (drop_bit 48 (be_u64 bs)) = b"
    "ucast (drop_bit 40 (be_u64 bs)) = c" "ucast (drop_bit 32 (be_u64 bs)) = d"
    "ucast (drop_bit 24 (be_u64 bs)) = e" "ucast (drop_bit 16 (be_u64 bs)) = f"
    "ucast (drop_bit 8 (be_u64 bs)) = g" "ucast (be_u64 bs) = h"
    unfolding bs be_u64_8
    by (rule bit_word_eqI, auto simp: bit_simps dest: bit_imp_le_length)+
  then show ?thesis unfolding put_be_u64_def bs by simp
qed

text \<open>The big-endian image of a list of words, as the encoders write it.\<close>

definition be_words :: "u64 list \<Rightarrow> u8 list" where
  "be_words ws = concat (map put_be_u64 ws)"

lemma be_words_simps [simp]:
  "be_words [] = []"
  "be_words (w # ws) = put_be_u64 w @ be_words ws"
  "be_words (xs @ ys) = be_words xs @ be_words ys"
  by (simp_all add: be_words_def)

lemma length_be_words [simp]: "length (be_words ws) = 8 * length ws"
  by (induction ws) auto

lemma be_words_eq_Nil [simp]: "be_words ws = [] \<longleftrightarrow> ws = []"
  by (cases ws) (auto simp: put_be_u64_def)

lemma drop_be_words [simp]: "drop (8 * n) (be_words ws) = be_words (drop n ws)"
proof (induction n arbitrary: ws)
  case (Suc n)
  show ?case by (cases ws) (simp_all add: Suc.IH)
qed simp

text \<open>Every byte string whose length is a multiple of eight is such an image.\<close>

lemma be_u64_take: "be_u64 (take 8 bs) = be_u64 bs"
  by (simp add: be_u64_def)

lemma bytes_be_words:
  assumes "length b mod 8 = 0"
  shows "\<exists>ws. b = be_words ws"
  using assms
proof (induction "length b div 8" arbitrary: b)
  case 0
  then have "b = []" by auto
  then show ?case by (metis be_words_simps(1))
next
  case (Suc n)
  then have len: "8 \<le> length b" by (cases "length b < 8") auto
  have "n = length (drop 8 b) div 8" "length (drop 8 b) mod 8 = 0"
    using Suc.hyps(2) Suc.prems len by (auto simp: le_div_geq le_mod_geq)
  then have "\<exists>ws. drop 8 b = be_words ws"
    by (rule Suc.hyps(1))
  then obtain ws where "drop 8 b = be_words ws" ..
  moreover have "take 8 b = put_be_u64 (be_u64 b)"
    using put_be_u64_be [of "take 8 b"] len by (simp add: be_u64_take)
  ultimately have "b = be_words (be_u64 b # ws)"
    by (metis append_take_drop_id be_words_simps(2))
  then show ?case by blast
qed

subsection \<open>Varints\<close>

lemma put_uvarint_not_Nil [simp]: "put_uvarint x \<noteq> []"
  by (subst put_uvarint.simps) simp

lemma bit_0x80 [simp]: "bit (0x80 :: int) m \<longleftrightarrow> m = 7"
  using bit_exp_iff [of 7 m, where 'a = int] by (auto simp: possible_bit_def)

lemma or_split_7:
  fixes x :: u64
  shows "push_bit s (ucast ((ucast x OR 0x80 :: u8) AND 0x7f)) OR push_bit (s + 7) (drop_bit 7 x)
    = push_bit s x"
proof (rule bit_word_eqI)
  fix n :: nat
  assume "n < LENGTH(64)"
  have mask7: "(0x7f :: u8) = mask 7" by (simp add: mask_eq_exp_minus_1)
  show "bit (push_bit s (ucast ((ucast x OR 0x80 :: u8) AND 0x7f)) OR
      push_bit (s + 7) (drop_bit 7 x)) n = bit (push_bit s x) n"
  proof (cases "s + 7 \<le> n")
    case True
    then have "7 + (n - (s + 7)) = n - s" by simp
    then show ?thesis
      unfolding mask7 using \<open>n < LENGTH(64)\<close> True by (auto simp: bit_simps)
  next
    case False
    then show ?thesis
      unfolding mask7 using \<open>n < LENGTH(64)\<close> by (auto simp: bit_simps)
  qed
qed

lemma unat_ucast_up: "unat (ucast (b :: u8) :: u64) = unat b"
proof -
  have "unat b < 256" using unsigned_less [of b, where 'a = nat] by simp
  then have "take_bit 64 (unat b) = unat b"
    by (simp add: take_bit_nat_eq_self_iff)
  moreover have "unat (ucast b :: u64) = take_bit LENGTH(64) (unat b)"
    by (rule unsigned_ucast_eq)
  ultimately show ?thesis by simp
qed

lemma ucast_small_u8:
  fixes x :: u64
  assumes "x < 0x100"
  shows "ucast (ucast x :: u8) = x" and "unat (ucast x :: u8) = unat x"
proof -
  have "unat x < 256" using assms by (simp add: word_less_nat_alt)
  then have t: "take_bit 8 (unat x) = unat x"
    by (simp add: take_bit_nat_eq_self_iff)
  have "unat (ucast x :: u8) = take_bit LENGTH(8) (unat x)"
    by (rule unsigned_ucast_eq)
  then show u: "unat (ucast x :: u8) = unat x"
    using t by simp
  have "unat (ucast (ucast x :: u8) :: u64) = unat (ucast x :: u8)"
    by (rule unat_ucast_up)
  then show "ucast (ucast x :: u8) = x"
    using u by (simp add: word_unat_eq_iff)
qed

lemma uvarint_loop_put:
  assumes "i \<le> 9" and "unat x < 2 ^ (64 - 7 * i)"
  shows "uvarint_loop (put_uvarint x @ rest) i acc (7 * i)
    = (acc OR push_bit (7 * i) x, int (i + length (put_uvarint x)))"
  using assms
proof (induction x arbitrary: i acc rule: put_uvarint.induct)
  case (1 x)
  show ?case
  proof (cases "x \<ge> 0x80")
    case True
    then have x: "unat x \<ge> 128" by (simp add: word_le_nat_alt)
    have i: "i \<le> 8"
    proof (rule ccontr)
      assume "\<not> i \<le> 8"
      then have "i = 9" using "1.prems"(1) by simp
      with "1.prems"(2) x show False by simp
    qed
    have "unat x div 128 < 2 ^ (64 - 7 * i - 7)"
    proof -
      have "unat x < 2 ^ (64 - 7 * i - 7) * 128"
      proof -
        have "64 - 7 * i = (64 - 7 * i - 7) + 7" using i by simp
        then have "(2::nat) ^ (64 - 7 * i) = 2 ^ ((64 - 7 * i - 7) + 7)"
          by (rule arg_cong)
        also have "\<dots> = 2 ^ (64 - 7 * i - 7) * 128"
          by (simp only: power_add) simp
        finally have "(2::nat) ^ (64 - 7 * i) = 2 ^ (64 - 7 * i - 7) * 128" .
        then show ?thesis using "1.prems"(2) by simp
      qed
      then show ?thesis by (simp add: less_mult_imp_div_less)
    qed
    then have d: "unat (drop_bit 7 x) < 2 ^ (64 - 7 * (i + 1))"
      by (simp add: drop_bit_eq_div unat_div)
    have b: "\<not> (ucast x OR 0x80 :: u8) < 0x80"
      by (simp add: not_less le_word_or1)
    have "uvarint_loop (put_uvarint x @ rest) i acc (7 * i)
      = uvarint_loop (put_uvarint (drop_bit 7 x) @ rest) (i + 1)
          (acc OR push_bit (7 * i) (ucast ((ucast x OR 0x80 :: u8) AND 0x7f))) (7 * (i + 1))"
      using True i b by (subst put_uvarint.simps) (simp add: add.commute)
    also have "\<dots> = (acc OR push_bit (7 * i) x, int (i + 1 + length (put_uvarint (drop_bit 7 x))))"
      using "1.IH" [OF True, of "i + 1"] i d or_split_7 [of "7 * i" x]
      by (simp add: or.assoc add.commute)
    finally show ?thesis
      using True by (subst put_uvarint.simps [of x]) simp
  next
    case False
    then have x: "x < 0x80" by simp
    then have ux: "unat x < 128" by (simp add: word_less_nat_alt)
    have s: "x < 0x100" using ux by (simp add: word_less_nat_alt)
    have b: "(ucast x :: u8) < 0x80"
      using ux ucast_small_u8(2) [OF s] by (simp add: word_less_nat_alt)
    have "\<not> (i = 9 \<and> (ucast x :: u8) > 1)"
      using "1.prems"(2) ucast_small_u8(2) [OF s] by (auto simp: word_less_nat_alt)
    then show ?thesis
      using False b "1.prems"(1) ucast_small_u8(1) [OF s]
      by (subst put_uvarint.simps, subst (2) put_uvarint.simps) auto
  qed
qed

lemma uvarint_put:
  "uvarint (put_uvarint x @ rest) = (x, int (length (put_uvarint x)))"
proof -
  have "unat x < 2 ^ 64" by (rule unat_u64_less)
  then show ?thesis
    using uvarint_loop_put [of 0 x rest 0] by (simp add: uvarint_def)
qed

lemma length_put_uvarint_le:
  assumes "unat x < 2 ^ (7 * Suc n)"
  shows "length (put_uvarint x) \<le> Suc n"
  using assms
proof (induction n arbitrary: x)
  case 0
  then have "\<not> x \<ge> 0x80" by (simp add: word_le_nat_alt)
  then show ?case by (subst put_uvarint.simps) simp
next
  case (Suc n)
  have "unat x div 128 < 2 ^ (7 * Suc n)"
  proof -
    have "(2::nat) ^ (7 * Suc (Suc n)) = 2 ^ (7 * Suc n) * 128"
      by (simp add: power_add)
    then have "unat x < 2 ^ (7 * Suc n) * 128"
      using Suc.prems by simp
    then show ?thesis by (simp add: less_mult_imp_div_less)
  qed
  then have "length (put_uvarint (drop_bit 7 x)) \<le> Suc n"
    using Suc.IH by (simp add: drop_bit_eq_div unat_div)
  then show ?case by (subst put_uvarint.simps) simp
qed

lemma length_put_uvarint: "length (put_uvarint x) \<le> 10"
proof -
  have "unat x < 2 ^ 64" by (rule unat_u64_less)
  also have "(2::nat) ^ 64 \<le> 2 ^ (7 * Suc 9)" by simp
  finally show ?thesis using length_put_uvarint_le [of x 9] by simp
qed

lemma length_put_uvarint_pos: "0 < length (put_uvarint x)"
  by simp

end
