(* ===== verification/WordCodec.thy ===== *)
theory WordCodec
  imports GoBinary
begin

text \<open>
  The interface between the block encoders and the 64-bit word packing they rely on: an encoder
  from integers to packed words, a routine that counts the integers in the big-endian image of
  packed words, and a routine that decodes that image into a buffer. The integer and timestamp
  codecs use only these laws; \<open>Simple8b\<close> proves them for the code of
  \<open>src/backend/pkg/encoding/simple8b\<close>.
\<close>

locale word_codec =
  fixes encode_all :: "u64 list \<Rightarrow> u64 list res"
    and count_bytes :: "u8 list \<Rightarrow> nat res"
    and decode_bytes :: "u64 list \<Rightarrow> u8 list \<Rightarrow> (u64 list \<times> nat) res"
    and max_value :: u64
  assumes encode_total: "\<forall>v \<in> set vs. v \<le> max_value \<Longrightarrow> \<exists>ws. encode_all vs = Inr ws"
    and encode_bounded: "encode_all vs = Inr ws \<Longrightarrow> v \<in> set vs \<Longrightarrow> v \<le> max_value"
    and encode_length: "encode_all vs = Inr ws \<Longrightarrow> length ws \<le> length vs"
    and count_encoded: "encode_all vs = Inr ws \<Longrightarrow> count_bytes (be_words ws) = Inr (length vs)"
    and decode_encoded: "encode_all vs = Inr ws \<Longrightarrow> length dst = length vs \<Longrightarrow>
      decode_bytes dst (be_words ws) = Inr (vs, length vs)"
begin

lemma encode_inject:
  assumes "encode_all vs = Inr ws" and "encode_all vs' = Inr ws"
  shows "vs = vs'"
proof -
  have len: "length vs = length vs'"
    using count_encoded [OF assms(1)] count_encoded [OF assms(2)] by simp
  have "decode_bytes vs (be_words ws) = Inr (vs, length vs)"
    by (rule decode_encoded [OF assms(1) refl])
  moreover have "decode_bytes vs (be_words ws) = Inr (vs', length vs')"
    by (rule decode_encoded [OF assms(2) len])
  ultimately show ?thesis by simp
qed

lemma encode_total_iff: "(\<exists>ws. encode_all vs = Inr ws) \<longleftrightarrow> (\<forall>v \<in> set vs. v \<le> max_value)"
  using encode_total encode_bounded by blast

text \<open>What a block reader needs: the encoder succeeds and its words can be counted and read back.\<close>

lemma encode_read_back:
  assumes "\<forall>v \<in> set vs. v \<le> max_value"
  obtains ws where "encode_all vs = Inr ws" "length ws \<le> length vs"
    "count_bytes (be_words ws) = Inr (length vs)"
    "\<And>dst. length dst = length vs \<Longrightarrow> decode_bytes dst (be_words ws) = Inr (vs, length vs)"
  using encode_total [OF assms] encode_length count_encoded decode_encoded by blast

end

end
