(* ===== verification/Simple8b.thy ===== *)
theory Simple8b
  imports WordCodec
begin

text \<open>
  \<open>src/backend/pkg/encoding/simple8b/encoding.go\<close>: the 64-bit word-aligned integer packing under
  every compressed block of the storage engine. A word holds a 4-bit selector and up to 60 bits of
  payload; the selector fixes how many integers the word holds and how many bits each has.

  The file has the definitions in the source's order: the packing table and the 32 pack and
  unpack routines, \<open>canPack\<close>, \<open>Encode\<close>, \<open>EncodeAll\<close> (in place, over the array it reads),
  \<open>Decode\<close>, \<open>DecodeAll\<close> and \<open>DecodeBytesBigEndian\<close>, the counting and visiting
  functions, and the streaming \<open>Encoder\<close> and \<open>Decoder\<close> as records with one function per
  method. Writes through \<open>unsafe.Pointer\<close> past the end of the destination are the result
  \<open>Inl Unsafe\<close>. The lemmas relate every routine to a width-generic reference packing.
\<close>

unbundle bit_operations_syntax

subsection \<open>The pack and unpack routines\<close>

definition MaxValue :: u64 where
  "MaxValue = push_bit 60 1 - 1"

definition pack240 :: "u64 list \<Rightarrow> u64 res" where
  "pack240 src = Inr 0"

definition pack120 :: "u64 list \<Rightarrow> u64 res" where
  "pack120 src = Inr 0"

definition pack60 :: "u64 list \<Rightarrow> u64 res" where
  "pack60 src =
     (if length src < 60 then Inl Panic
      else Inr (
        push_bit 60 2 OR src ! 0 OR push_bit 1 (src ! 1) OR push_bit 2 (src ! 2) OR
        push_bit 3 (src ! 3) OR push_bit 4 (src ! 4) OR push_bit 5 (src ! 5) OR
        push_bit 6 (src ! 6) OR push_bit 7 (src ! 7) OR push_bit 8 (src ! 8) OR
        push_bit 9 (src ! 9) OR push_bit 10 (src ! 10) OR push_bit 11 (src ! 11) OR
        push_bit 12 (src ! 12) OR push_bit 13 (src ! 13) OR push_bit 14 (src ! 14) OR
        push_bit 15 (src ! 15) OR push_bit 16 (src ! 16) OR push_bit 17 (src ! 17) OR
        push_bit 18 (src ! 18) OR push_bit 19 (src ! 19) OR push_bit 20 (src ! 20) OR
        push_bit 21 (src ! 21) OR push_bit 22 (src ! 22) OR push_bit 23 (src ! 23) OR
        push_bit 24 (src ! 24) OR push_bit 25 (src ! 25) OR push_bit 26 (src ! 26) OR
        push_bit 27 (src ! 27) OR push_bit 28 (src ! 28) OR push_bit 29 (src ! 29) OR
        push_bit 30 (src ! 30) OR push_bit 31 (src ! 31) OR push_bit 32 (src ! 32) OR
        push_bit 33 (src ! 33) OR push_bit 34 (src ! 34) OR push_bit 35 (src ! 35) OR
        push_bit 36 (src ! 36) OR push_bit 37 (src ! 37) OR push_bit 38 (src ! 38) OR
        push_bit 39 (src ! 39) OR push_bit 40 (src ! 40) OR push_bit 41 (src ! 41) OR
        push_bit 42 (src ! 42) OR push_bit 43 (src ! 43) OR push_bit 44 (src ! 44) OR
        push_bit 45 (src ! 45) OR push_bit 46 (src ! 46) OR push_bit 47 (src ! 47) OR
        push_bit 48 (src ! 48) OR push_bit 49 (src ! 49) OR push_bit 50 (src ! 50) OR
        push_bit 51 (src ! 51) OR push_bit 52 (src ! 52) OR push_bit 53 (src ! 53) OR
        push_bit 54 (src ! 54) OR push_bit 55 (src ! 55) OR push_bit 56 (src ! 56) OR
        push_bit 57 (src ! 57) OR push_bit 58 (src ! 58) OR push_bit 59 (src ! 59)))"

definition pack30 :: "u64 list \<Rightarrow> u64 res" where
  "pack30 src =
     (if length src < 30 then Inl Panic
      else Inr (
        push_bit 60 3 OR src ! 0 OR push_bit 2 (src ! 1) OR push_bit 4 (src ! 2) OR
        push_bit 6 (src ! 3) OR push_bit 8 (src ! 4) OR push_bit 10 (src ! 5) OR
        push_bit 12 (src ! 6) OR push_bit 14 (src ! 7) OR push_bit 16 (src ! 8) OR
        push_bit 18 (src ! 9) OR push_bit 20 (src ! 10) OR push_bit 22 (src ! 11) OR
        push_bit 24 (src ! 12) OR push_bit 26 (src ! 13) OR push_bit 28 (src ! 14) OR
        push_bit 30 (src ! 15) OR push_bit 32 (src ! 16) OR push_bit 34 (src ! 17) OR
        push_bit 36 (src ! 18) OR push_bit 38 (src ! 19) OR push_bit 40 (src ! 20) OR
        push_bit 42 (src ! 21) OR push_bit 44 (src ! 22) OR push_bit 46 (src ! 23) OR
        push_bit 48 (src ! 24) OR push_bit 50 (src ! 25) OR push_bit 52 (src ! 26) OR
        push_bit 54 (src ! 27) OR push_bit 56 (src ! 28) OR push_bit 58 (src ! 29)))"

definition pack20 :: "u64 list \<Rightarrow> u64 res" where
  "pack20 src =
     (if length src < 20 then Inl Panic
      else Inr (
        push_bit 60 4 OR src ! 0 OR push_bit 3 (src ! 1) OR push_bit 6 (src ! 2) OR
        push_bit 9 (src ! 3) OR push_bit 12 (src ! 4) OR push_bit 15 (src ! 5) OR
        push_bit 18 (src ! 6) OR push_bit 21 (src ! 7) OR push_bit 24 (src ! 8) OR
        push_bit 27 (src ! 9) OR push_bit 30 (src ! 10) OR push_bit 33 (src ! 11) OR
        push_bit 36 (src ! 12) OR push_bit 39 (src ! 13) OR push_bit 42 (src ! 14) OR
        push_bit 45 (src ! 15) OR push_bit 48 (src ! 16) OR push_bit 51 (src ! 17) OR
        push_bit 54 (src ! 18) OR push_bit 57 (src ! 19)))"

definition pack15 :: "u64 list \<Rightarrow> u64 res" where
  "pack15 src =
     (if length src < 15 then Inl Panic
      else Inr (
        push_bit 60 5 OR src ! 0 OR push_bit 4 (src ! 1) OR push_bit 8 (src ! 2) OR
        push_bit 12 (src ! 3) OR push_bit 16 (src ! 4) OR push_bit 20 (src ! 5) OR
        push_bit 24 (src ! 6) OR push_bit 28 (src ! 7) OR push_bit 32 (src ! 8) OR
        push_bit 36 (src ! 9) OR push_bit 40 (src ! 10) OR push_bit 44 (src ! 11) OR
        push_bit 48 (src ! 12) OR push_bit 52 (src ! 13) OR push_bit 56 (src ! 14)))"

definition pack12 :: "u64 list \<Rightarrow> u64 res" where
  "pack12 src =
     (if length src < 12 then Inl Panic
      else Inr (
        push_bit 60 6 OR src ! 0 OR push_bit 5 (src ! 1) OR push_bit 10 (src ! 2) OR
        push_bit 15 (src ! 3) OR push_bit 20 (src ! 4) OR push_bit 25 (src ! 5) OR
        push_bit 30 (src ! 6) OR push_bit 35 (src ! 7) OR push_bit 40 (src ! 8) OR
        push_bit 45 (src ! 9) OR push_bit 50 (src ! 10) OR push_bit 55 (src ! 11)))"

definition pack10 :: "u64 list \<Rightarrow> u64 res" where
  "pack10 src =
     (if length src < 10 then Inl Panic
      else Inr (
        push_bit 60 7 OR src ! 0 OR push_bit 6 (src ! 1) OR push_bit 12 (src ! 2) OR
        push_bit 18 (src ! 3) OR push_bit 24 (src ! 4) OR push_bit 30 (src ! 5) OR
        push_bit 36 (src ! 6) OR push_bit 42 (src ! 7) OR push_bit 48 (src ! 8) OR
        push_bit 54 (src ! 9)))"

definition pack8 :: "u64 list \<Rightarrow> u64 res" where
  "pack8 src =
     (if length src < 8 then Inl Panic
      else Inr (
        push_bit 60 8 OR src ! 0 OR push_bit 7 (src ! 1) OR push_bit 14 (src ! 2) OR
        push_bit 21 (src ! 3) OR push_bit 28 (src ! 4) OR push_bit 35 (src ! 5) OR
        push_bit 42 (src ! 6) OR push_bit 49 (src ! 7)))"

definition pack7 :: "u64 list \<Rightarrow> u64 res" where
  "pack7 src =
     (if length src < 7 then Inl Panic
      else Inr (
        push_bit 60 9 OR src ! 0 OR push_bit 8 (src ! 1) OR push_bit 16 (src ! 2) OR
        push_bit 24 (src ! 3) OR push_bit 32 (src ! 4) OR push_bit 40 (src ! 5) OR
        push_bit 48 (src ! 6)))"

definition pack6 :: "u64 list \<Rightarrow> u64 res" where
  "pack6 src =
     (if length src < 6 then Inl Panic
      else Inr (
        push_bit 60 10 OR src ! 0 OR push_bit 10 (src ! 1) OR push_bit 20 (src ! 2) OR
        push_bit 30 (src ! 3) OR push_bit 40 (src ! 4) OR push_bit 50 (src ! 5)))"

definition pack5 :: "u64 list \<Rightarrow> u64 res" where
  "pack5 src =
     (if length src < 5 then Inl Panic
      else Inr (
        push_bit 60 11 OR src ! 0 OR push_bit 12 (src ! 1) OR push_bit 24 (src ! 2) OR
        push_bit 36 (src ! 3) OR push_bit 48 (src ! 4)))"

definition pack4 :: "u64 list \<Rightarrow> u64 res" where
  "pack4 src =
     (if length src < 4 then Inl Panic
      else Inr (
        push_bit 60 12 OR src ! 0 OR push_bit 15 (src ! 1) OR push_bit 30 (src ! 2) OR
        push_bit 45 (src ! 3)))"

definition pack3 :: "u64 list \<Rightarrow> u64 res" where
  "pack3 src =
     (if length src < 3 then Inl Panic
      else Inr (
        push_bit 60 13 OR src ! 0 OR push_bit 20 (src ! 1) OR push_bit 40 (src ! 2)))"

definition pack2 :: "u64 list \<Rightarrow> u64 res" where
  "pack2 src =
     (if length src < 2 then Inl Panic
      else Inr (
        push_bit 60 14 OR src ! 0 OR push_bit 30 (src ! 1)))"

definition pack1 :: "u64 list \<Rightarrow> u64 res" where
  "pack1 src =
     (if length src < 1 then Inl Panic
      else Inr (
        push_bit 60 15 OR src ! 0))"

definition unpack240 :: "u64 \<Rightarrow> u64 list \<Rightarrow> u64 list" where
  "unpack240 v dst = replicate 240 1 @ drop 240 dst"

definition unpack120 :: "u64 \<Rightarrow> u64 list \<Rightarrow> u64 list" where
  "unpack120 v dst = replicate 120 1 @ drop 120 dst"

definition unpack60 :: "u64 \<Rightarrow> u64 list \<Rightarrow> u64 list" where
  "unpack60 v dst =
     [
      v AND 1, drop_bit 1 v AND 1, drop_bit 2 v AND 1, drop_bit 3 v AND 1, drop_bit 4 v AND 1,
      drop_bit 5 v AND 1, drop_bit 6 v AND 1, drop_bit 7 v AND 1, drop_bit 8 v AND 1,
      drop_bit 9 v AND 1, drop_bit 10 v AND 1, drop_bit 11 v AND 1, drop_bit 12 v AND 1,
      drop_bit 13 v AND 1, drop_bit 14 v AND 1, drop_bit 15 v AND 1, drop_bit 16 v AND 1,
      drop_bit 17 v AND 1, drop_bit 18 v AND 1, drop_bit 19 v AND 1, drop_bit 20 v AND 1,
      drop_bit 21 v AND 1, drop_bit 22 v AND 1, drop_bit 23 v AND 1, drop_bit 24 v AND 1,
      drop_bit 25 v AND 1, drop_bit 26 v AND 1, drop_bit 27 v AND 1, drop_bit 28 v AND 1,
      drop_bit 29 v AND 1, drop_bit 30 v AND 1, drop_bit 31 v AND 1, drop_bit 32 v AND 1,
      drop_bit 33 v AND 1, drop_bit 34 v AND 1, drop_bit 35 v AND 1, drop_bit 36 v AND 1,
      drop_bit 37 v AND 1, drop_bit 38 v AND 1, drop_bit 39 v AND 1, drop_bit 40 v AND 1,
      drop_bit 41 v AND 1, drop_bit 42 v AND 1, drop_bit 43 v AND 1, drop_bit 44 v AND 1,
      drop_bit 45 v AND 1, drop_bit 46 v AND 1, drop_bit 47 v AND 1, drop_bit 48 v AND 1,
      drop_bit 49 v AND 1, drop_bit 50 v AND 1, drop_bit 51 v AND 1, drop_bit 52 v AND 1,
      drop_bit 53 v AND 1, drop_bit 54 v AND 1, drop_bit 55 v AND 1, drop_bit 56 v AND 1,
      drop_bit 57 v AND 1, drop_bit 58 v AND 1, drop_bit 59 v AND 1] @ drop 60 dst"

definition unpack30 :: "u64 \<Rightarrow> u64 list \<Rightarrow> u64 list" where
  "unpack30 v dst =
     [
      v AND 3, drop_bit 2 v AND 3, drop_bit 4 v AND 3, drop_bit 6 v AND 3, drop_bit 8 v AND 3,
      drop_bit 10 v AND 3, drop_bit 12 v AND 3, drop_bit 14 v AND 3, drop_bit 16 v AND 3,
      drop_bit 18 v AND 3, drop_bit 20 v AND 3, drop_bit 22 v AND 3, drop_bit 24 v AND 3,
      drop_bit 26 v AND 3, drop_bit 28 v AND 3, drop_bit 30 v AND 3, drop_bit 32 v AND 3,
      drop_bit 34 v AND 3, drop_bit 36 v AND 3, drop_bit 38 v AND 3, drop_bit 40 v AND 3,
      drop_bit 42 v AND 3, drop_bit 44 v AND 3, drop_bit 46 v AND 3, drop_bit 48 v AND 3,
      drop_bit 50 v AND 3, drop_bit 52 v AND 3, drop_bit 54 v AND 3, drop_bit 56 v AND 3,
      drop_bit 58 v AND 3] @ drop 30 dst"

definition unpack20 :: "u64 \<Rightarrow> u64 list \<Rightarrow> u64 list" where
  "unpack20 v dst =
     [
      v AND 7, drop_bit 3 v AND 7, drop_bit 6 v AND 7, drop_bit 9 v AND 7, drop_bit 12 v AND 7,
      drop_bit 15 v AND 7, drop_bit 18 v AND 7, drop_bit 21 v AND 7, drop_bit 24 v AND 7,
      drop_bit 27 v AND 7, drop_bit 30 v AND 7, drop_bit 33 v AND 7, drop_bit 36 v AND 7,
      drop_bit 39 v AND 7, drop_bit 42 v AND 7, drop_bit 45 v AND 7, drop_bit 48 v AND 7,
      drop_bit 51 v AND 7, drop_bit 54 v AND 7, drop_bit 57 v AND 7] @ drop 20 dst"

definition unpack15 :: "u64 \<Rightarrow> u64 list \<Rightarrow> u64 list" where
  "unpack15 v dst =
     [
      v AND 15, drop_bit 4 v AND 15, drop_bit 8 v AND 15, drop_bit 12 v AND 15,
      drop_bit 16 v AND 15, drop_bit 20 v AND 15, drop_bit 24 v AND 15, drop_bit 28 v AND 15,
      drop_bit 32 v AND 15, drop_bit 36 v AND 15, drop_bit 40 v AND 15, drop_bit 44 v AND 15,
      drop_bit 48 v AND 15, drop_bit 52 v AND 15, drop_bit 56 v AND 15] @ drop 15 dst"

definition unpack12 :: "u64 \<Rightarrow> u64 list \<Rightarrow> u64 list" where
  "unpack12 v dst =
     [
      v AND 31, drop_bit 5 v AND 31, drop_bit 10 v AND 31, drop_bit 15 v AND 31,
      drop_bit 20 v AND 31, drop_bit 25 v AND 31, drop_bit 30 v AND 31, drop_bit 35 v AND 31,
      drop_bit 40 v AND 31, drop_bit 45 v AND 31, drop_bit 50 v AND 31, drop_bit 55 v AND 31] @ drop 12 dst"

definition unpack10 :: "u64 \<Rightarrow> u64 list \<Rightarrow> u64 list" where
  "unpack10 v dst =
     [
      v AND 63, drop_bit 6 v AND 63, drop_bit 12 v AND 63, drop_bit 18 v AND 63,
      drop_bit 24 v AND 63, drop_bit 30 v AND 63, drop_bit 36 v AND 63, drop_bit 42 v AND 63,
      drop_bit 48 v AND 63, drop_bit 54 v AND 63] @ drop 10 dst"

definition unpack8 :: "u64 \<Rightarrow> u64 list \<Rightarrow> u64 list" where
  "unpack8 v dst =
     [
      v AND 127, drop_bit 7 v AND 127, drop_bit 14 v AND 127, drop_bit 21 v AND 127,
      drop_bit 28 v AND 127, drop_bit 35 v AND 127, drop_bit 42 v AND 127, drop_bit 49 v AND 127] @ drop 8 dst"

definition unpack7 :: "u64 \<Rightarrow> u64 list \<Rightarrow> u64 list" where
  "unpack7 v dst =
     [
      v AND 255, drop_bit 8 v AND 255, drop_bit 16 v AND 255, drop_bit 24 v AND 255,
      drop_bit 32 v AND 255, drop_bit 40 v AND 255, drop_bit 48 v AND 255] @ drop 7 dst"

definition unpack6 :: "u64 \<Rightarrow> u64 list \<Rightarrow> u64 list" where
  "unpack6 v dst =
     [
      v AND 1023, drop_bit 10 v AND 1023, drop_bit 20 v AND 1023, drop_bit 30 v AND 1023,
      drop_bit 40 v AND 1023, drop_bit 50 v AND 1023] @ drop 6 dst"

definition unpack5 :: "u64 \<Rightarrow> u64 list \<Rightarrow> u64 list" where
  "unpack5 v dst =
     [
      v AND 4095, drop_bit 12 v AND 4095, drop_bit 24 v AND 4095, drop_bit 36 v AND 4095,
      drop_bit 48 v AND 4095] @ drop 5 dst"

definition unpack4 :: "u64 \<Rightarrow> u64 list \<Rightarrow> u64 list" where
  "unpack4 v dst =
     [
      v AND 32767, drop_bit 15 v AND 32767, drop_bit 30 v AND 32767, drop_bit 45 v AND 32767] @ drop 4 dst"

definition unpack3 :: "u64 \<Rightarrow> u64 list \<Rightarrow> u64 list" where
  "unpack3 v dst =
     [
      v AND 1048575, drop_bit 20 v AND 1048575, drop_bit 40 v AND 1048575] @ drop 3 dst"

definition unpack2 :: "u64 \<Rightarrow> u64 list \<Rightarrow> u64 list" where
  "unpack2 v dst =
     [
      v AND 1073741823, drop_bit 30 v AND 1073741823] @ drop 2 dst"

definition unpack1 :: "u64 \<Rightarrow> u64 list \<Rightarrow> u64 list" where
  "unpack1 v dst =
     [
      v AND 1152921504606846975] @ drop 1 dst"

record packing =
  pk_n :: nat
  pk_bit :: nat
  pk_unpack :: "u64 \<Rightarrow> u64 list \<Rightarrow> u64 list"
  pk_pack :: "u64 list \<Rightarrow> u64 res"

definition selector :: "packing list" where
  "selector =
     [\<lparr>pk_n = 240, pk_bit = 0, pk_unpack = unpack240, pk_pack = pack240\<rparr>,
      \<lparr>pk_n = 120, pk_bit = 0, pk_unpack = unpack120, pk_pack = pack120\<rparr>,
      \<lparr>pk_n = 60, pk_bit = 1, pk_unpack = unpack60, pk_pack = pack60\<rparr>,
      \<lparr>pk_n = 30, pk_bit = 2, pk_unpack = unpack30, pk_pack = pack30\<rparr>,
      \<lparr>pk_n = 20, pk_bit = 3, pk_unpack = unpack20, pk_pack = pack20\<rparr>,
      \<lparr>pk_n = 15, pk_bit = 4, pk_unpack = unpack15, pk_pack = pack15\<rparr>,
      \<lparr>pk_n = 12, pk_bit = 5, pk_unpack = unpack12, pk_pack = pack12\<rparr>,
      \<lparr>pk_n = 10, pk_bit = 6, pk_unpack = unpack10, pk_pack = pack10\<rparr>,
      \<lparr>pk_n = 8, pk_bit = 7, pk_unpack = unpack8, pk_pack = pack8\<rparr>,
      \<lparr>pk_n = 7, pk_bit = 8, pk_unpack = unpack7, pk_pack = pack7\<rparr>,
      \<lparr>pk_n = 6, pk_bit = 10, pk_unpack = unpack6, pk_pack = pack6\<rparr>,
      \<lparr>pk_n = 5, pk_bit = 12, pk_unpack = unpack5, pk_pack = pack5\<rparr>,
      \<lparr>pk_n = 4, pk_bit = 15, pk_unpack = unpack4, pk_pack = pack4\<rparr>,
      \<lparr>pk_n = 3, pk_bit = 20, pk_unpack = unpack3, pk_pack = pack3\<rparr>,
      \<lparr>pk_n = 2, pk_bit = 30, pk_unpack = unpack2, pk_pack = pack2\<rparr>,
      \<lparr>pk_n = 1, pk_bit = 60, pk_unpack = unpack1, pk_pack = pack1\<rparr>]"

subsection \<open>Encoding\<close>

definition canPack :: "u64 list \<Rightarrow> nat \<Rightarrow> nat \<Rightarrow> bool" where
  "canPack src n bits =
     (if length src < n then False
      else if bits = 0 then list_all (\<lambda>v. v = 1) src
      else list_all (\<lambda>s. \<not> s > push_bit bits 1 - 1) (take n src))"

definition Encode :: "u64 list \<Rightarrow> (u64 \<times> nat) res" where
  "Encode src =
     (if canPack src 240 0 then Inr (0, 240)
      else if canPack src 120 0 then Inr (push_bit 60 1, 120)
      else if canPack src 60 1 then rbind (pack60 (take 60 src)) (\<lambda>v. Inr (v, 60))
      else if canPack src 30 2 then rbind (pack30 (take 30 src)) (\<lambda>v. Inr (v, 30))
      else if canPack src 20 3 then rbind (pack20 (take 20 src)) (\<lambda>v. Inr (v, 20))
      else if canPack src 15 4 then rbind (pack15 (take 15 src)) (\<lambda>v. Inr (v, 15))
      else if canPack src 12 5 then rbind (pack12 (take 12 src)) (\<lambda>v. Inr (v, 12))
      else if canPack src 10 6 then rbind (pack10 (take 10 src)) (\<lambda>v. Inr (v, 10))
      else if canPack src 8 7 then rbind (pack8 (take 8 src)) (\<lambda>v. Inr (v, 8))
      else if canPack src 7 8 then rbind (pack7 (take 7 src)) (\<lambda>v. Inr (v, 7))
      else if canPack src 6 10 then rbind (pack6 (take 6 src)) (\<lambda>v. Inr (v, 6))
      else if canPack src 5 12 then rbind (pack5 (take 5 src)) (\<lambda>v. Inr (v, 5))
      else if canPack src 4 15 then rbind (pack4 (take 4 src)) (\<lambda>v. Inr (v, 4))
      else if canPack src 3 20 then rbind (pack3 (take 3 src)) (\<lambda>v. Inr (v, 3))
      else if canPack src 2 30 then rbind (pack2 (take 2 src)) (\<lambda>v. Inr (v, 2))
      else if canPack src 1 60 then rbind (pack1 (take 1 src)) (\<lambda>v. Inr (v, 1))
      else if length src > 0 then Inl (Err ''value out of bounds'')
      else Inr (0, 0))"

text \<open>\<open>numBits\<close>: the number of values and the bits per value of selectors 2 to 15.\<close>

definition numBits :: "(u8 \<times> u8) list" where
  "numBits =
     [(60, 1), (30, 2), (20, 3), (15, 4), (12, 5), (10, 6), (8, 7), (7, 8), (6, 10), (5, 12),
      (4, 15), (3, 20), (2, 30), (1, 60)]"

text \<open>
  The body of \<open>EncodeAll\<close>, from the top. \<open>ones_run a k\<close> is the value \<open>k\<close> has after
  \<open>for k = range a { if a[k] != 1 { k--; break } }\<close>: the index of the last 1 of the leading run,
  or -1.
\<close>

fun ones_run :: "u64 list \<Rightarrow> int \<Rightarrow> int" where
  "ones_run [] k = k - 1"
| "ones_run (v # a) k = (if v \<noteq> 1 then k - 1 else ones_run a (k + 1))"

text \<open>The inner loop of \<open>CODES\<close>: \<open>None\<close> is \<open>continue CODES\<close>.\<close>

fun pack_code :: "nat \<Rightarrow> u8 \<Rightarrow> u64 \<Rightarrow> u64 list \<Rightarrow> nat \<Rightarrow> u64 \<Rightarrow> u64 option" where
  "pack_code intN bitN maxVal [] k val = Some val"
| "pack_code intN bitN maxVal (inV # remaining) k val =
     (if k < intN then
        (if inV \<ge> maxVal then None
         else pack_code intN bitN maxVal remaining (k + 1)
                (val OR push_bit (unat ((of_nat k * bitN) AND 0x3f)) inV))
      else Some val)"

fun try_codes :: "nat \<Rightarrow> (u8 \<times> u8) list \<Rightarrow> u64 list \<Rightarrow> (u64 \<times> nat) option" where
  "try_codes code [] remaining = None"
| "try_codes code ((n, bitN) # codes) remaining =
     (let intN = unat n
      in if intN > length remaining then try_codes (code + 1) codes remaining
         else (case pack_code intN bitN (push_bit (unat (bitN AND 0x3f)) 1) remaining 0
                      (push_bit 60 (of_nat (code + 2))) of
                 None \<Rightarrow> try_codes (code + 1) codes remaining
               | Some val \<Rightarrow> Some (val, intN)))"

text \<open>One turn of \<open>NEXTVALUE\<close>: the word written to \<open>dst[j]\<close> and the values consumed.\<close>

definition encode_next :: "u64 list \<Rightarrow> (u64 \<times> nat) option" where
  "encode_next remaining =
     (if length remaining \<ge> 120 then
        (let a = (if length remaining \<ge> 240 then take 240 remaining else take 120 remaining);
             k = ones_run a 0
         in if k = 239 then Some (0, 240)
            else if k \<ge> 119 then Some (push_bit 60 1, 120)
            else try_codes 0 numBits remaining)
      else try_codes 0 numBits remaining)"

lemma try_codes_pos:
  "try_codes code codes rem = Some (v, n) \<Longrightarrow> \<forall>c \<in> set codes. fst c \<noteq> 0 \<Longrightarrow> 0 < n"
proof (induction code codes rem rule: try_codes.induct)
  case (2 code n' bitN codes remaining)
  then show ?case
    by (auto simp: Let_def unat_gt_0 split: if_splits option.splits)
qed simp

lemma try_numBits_pos: "try_codes 0 numBits rem = Some (v, n) \<Longrightarrow> 0 < n"
  by (erule try_codes_pos) (simp add: numBits_def)

lemma encode_next_pos: "encode_next rem = Some (v, n) \<Longrightarrow> 0 < n"
  by (auto simp: encode_next_def Let_def split: if_splits dest: try_numBits_pos)

text \<open>
  \<open>dst := src\<close>: the words are written over the array they are read from. The loop state is that
  one array and the two indices.
\<close>

function encodeAll_loop :: "u64 list \<Rightarrow> nat \<Rightarrow> nat \<Rightarrow> u64 list res" where
  "encodeAll_loop arr i j =
     (if i < length arr then
        (case encode_next (drop i arr) of
           None \<Rightarrow> Inl (Err ''value out of bounds'')
         | Some (v, n) \<Rightarrow>
             (if j < length arr then encodeAll_loop (arr[j := v]) (i + n) (j + 1) else Inl Panic))
      else Inr (take j arr))"
  by pat_completeness auto
termination
  by (relation "measure (\<lambda>(arr, i, j). length arr - i)") (auto dest: encode_next_pos)

declare encodeAll_loop.simps [simp del]

definition EncodeAll :: "u64 list \<Rightarrow> u64 list res" where
  "EncodeAll src = encodeAll_loop src 0 0"

subsection \<open>Decoding\<close>

definition Decode :: "u64 list \<Rightarrow> u64 \<Rightarrow> (u64 list \<times> nat) res" where
  "Decode dst v =
     (let sel = unat (drop_bit 60 v)
      in if sel \<ge> 16 then Inl (Err ''invalid selector value'')
         else Inr (pk_unpack (selector ! sel) v dst, pk_n (selector ! sel)))"

text \<open>
  \<open>selector[sel].unpack(v, (*[240]uint64)(unsafe.Pointer(&dst[j])))\<close>: the index expression panics
  when \<open>j\<close> is out of range; the routine then writes \<open>n\<close> values from \<open>j\<close> on with no check
  against the slice.
\<close>

definition unpack_at :: "u64 list \<Rightarrow> nat \<Rightarrow> u64 \<Rightarrow> (u64 list \<times> nat) res" where
  "unpack_at dst j v =
     (let p = selector ! unat (drop_bit 60 v AND 0xf)
      in if j \<ge> length dst then Inl Panic
         else if j + pk_n p > length dst then Inl Unsafe
         else Inr (take j dst @ pk_unpack p v (drop j dst), j + pk_n p))"

fun decodeAll_loop :: "u64 list \<Rightarrow> nat \<Rightarrow> u64 list \<Rightarrow> (u64 list \<times> nat) res" where
  "decodeAll_loop dst j [] = Inr (dst, j)"
| "decodeAll_loop dst j (v # src) =
     rbind (unpack_at dst j v) (\<lambda>(dst', j'). decodeAll_loop dst' j' src)"

definition DecodeAll :: "u64 list \<Rightarrow> u64 list \<Rightarrow> (u64 list \<times> nat) res" where
  "DecodeAll dst src = decodeAll_loop dst 0 src"

function decodeBytes_loop :: "u64 list \<Rightarrow> nat \<Rightarrow> u8 list \<Rightarrow> (u64 list \<times> nat) res" where
  "decodeBytes_loop dst j src =
     (if src = [] then Inr (dst, j)
      else if length src < 8 then Inl Panic
      else rbind (unpack_at dst j (be_u64 src))
             (\<lambda>(dst', j'). decodeBytes_loop dst' j' (drop 8 src)))"
  by pat_completeness auto
termination
  by (relation "measure (\<lambda>(dst, j, src). length src)") auto

declare decodeBytes_loop.simps [simp del]

definition DecodeBytesBigEndian :: "u64 list \<Rightarrow> u8 list \<Rightarrow> (u64 list \<times> nat) res" where
  "DecodeBytesBigEndian dst src =
     (if length src mod 8 \<noteq> 0 then Inl (Err ''src length is not multiple of 8'')
      else decodeBytes_loop dst 0 src)"

subsection \<open>Counting and visiting\<close>

function countBytes_loop :: "u8 list \<Rightarrow> nat \<Rightarrow> nat res" where
  "countBytes_loop b count =
     (if length b \<ge> 8 then
        (let sel = unat (drop_bit 60 (be_u64 b))
         in if sel \<ge> 16 then Inl (Err ''invalid selector value'')
            else countBytes_loop (drop 8 b) (count + pk_n (selector ! sel)))
      else if length b > 0 then Inl (Err ''invalid slice len remaining'')
      else Inr count)"
  by pat_completeness auto
termination
  by (relation "measure (\<lambda>(b, count). length b)") auto

declare countBytes_loop.simps [simp del]

definition CountBytes :: "u8 list \<Rightarrow> nat res" where
  "CountBytes b = countBytes_loop b 0"

definition Count :: "u64 \<Rightarrow> nat res" where
  "Count v =
     (let sel = unat (drop_bit 60 v)
      in if sel \<ge> 16 then Inl (Err ''invalid selector value'') else Inr (pk_n (selector ! sel)))"

text \<open>
  \<open>mask := uint64(^(int64(^0) << bits))\<close>, and the loop of \<open>ForEach\<close> over the \<open>n\<close> values of one
  word. The callback may keep a state of its own; the flag says whether it asked to go on.
\<close>

definition word_mask :: "nat \<Rightarrow> u64" where
  "word_mask bits = NOT (push_bit bits (NOT 0))"

fun forEach_word :: "('s \<Rightarrow> u64 \<Rightarrow> bool \<times> 's) \<Rightarrow> 's \<Rightarrow> nat \<Rightarrow> nat \<Rightarrow> u64 \<Rightarrow> bool \<times> 's" where
  "forEach_word fn s 0 bits v = (True, s)"
| "forEach_word fn s (Suc n) bits v =
     (case fn s (v AND word_mask bits) of
        (go, s') \<Rightarrow> if go then forEach_word fn s' n bits (drop_bit bits v) else (False, s'))"

function ForEach :: "('s \<Rightarrow> u64 \<Rightarrow> bool \<times> 's) \<Rightarrow> 's \<Rightarrow> u8 list \<Rightarrow> 's res" where
  "ForEach fn s b =
     (if length b \<ge> 8 then
        (let v = be_u64 b; sel = unat (drop_bit 60 v)
         in if sel \<ge> 16 then Inl (Err ''invalid selector value'')
            else (case forEach_word fn s (pk_n (selector ! sel)) (pk_bit (selector ! sel)) v of
                    (go, s') \<Rightarrow> if go then ForEach fn s' (drop 8 b) else Inr s'))
      else Inr s)"
  by pat_completeness auto
termination
  by (relation "measure (\<lambda>(fn, s, b). length b)") auto

declare ForEach.simps [simp del]

fun countBetween_word :: "u64 \<Rightarrow> u64 \<Rightarrow> nat \<Rightarrow> nat \<Rightarrow> u64 \<Rightarrow> nat \<Rightarrow> nat" where
  "countBetween_word mn mx 0 bits v count = count"
| "countBetween_word mn mx (Suc n) bits v count =
     (let val = v AND word_mask bits
      in if val \<ge> mn \<and> val < mx then countBetween_word mn mx n bits (drop_bit bits v) (count + 1)
         else if val > mx then count
         else countBetween_word mn mx n bits (drop_bit bits v) count)"

function countBetween_loop :: "u64 \<Rightarrow> u64 \<Rightarrow> u8 list \<Rightarrow> nat \<Rightarrow> nat res" where
  "countBetween_loop mn mx b count =
     (if length b \<ge> 8 then
        (let v = be_u64 b; sel = unat (drop_bit 60 v)
         in if sel \<ge> 16 then Inl (Err ''invalid selector value'')
            else if push_bit (pk_bit (selector ! sel)) 1 - 1 < mn
            then countBetween_loop mn mx (drop 8 b) count
            else countBetween_loop mn mx (drop 8 b)
                   (countBetween_word mn mx (pk_n (selector ! sel)) (pk_bit (selector ! sel)) v count))
      else if length b > 0 then Inl (Err ''invalid slice len remaining'')
      else Inr count)"
  by pat_completeness auto
termination
  by (relation "measure (\<lambda>(mn, mx, b, count). length b)") auto

declare countBetween_loop.simps [simp del]

definition CountBytesBetween :: "u8 list \<Rightarrow> u64 \<Rightarrow> u64 \<Rightarrow> nat res" where
  "CountBytesBetween b mn mx = countBetween_loop mn mx b 0"

section \<open>Correctness\<close>

subsection \<open>A width-generic packing\<close>

text \<open>
  The reference packing: value \<open>i\<close> occupies the bits from \<open>i * bits\<close> on. Every pack routine is
  \<open>packn\<close> at its selector and width, every unpack routine is \<open>unpackn\<close>.
\<close>

fun pack_bits :: "nat \<Rightarrow> nat \<Rightarrow> u64 list \<Rightarrow> u64" where
  "pack_bits bits k [] = 0"
| "pack_bits bits k (v # vs) = push_bit (k * bits) v OR pack_bits bits (k + 1) vs"

definition packn :: "nat \<Rightarrow> nat \<Rightarrow> u64 list \<Rightarrow> u64" where
  "packn sel bits vs = push_bit 60 (of_nat sel) OR pack_bits bits 0 vs"

definition unpackn :: "nat \<Rightarrow> nat \<Rightarrow> u64 \<Rightarrow> u64 list" where
  "unpackn bits n v = map (\<lambda>i. drop_bit (i * bits) v AND mask bits) [0..<n]"

lemma length_unpackn [simp]: "length (unpackn bits n v) = n"
  by (simp add: unpackn_def)

lemma bit_pack_bits:
  assumes "0 < bits" and "\<forall>v \<in> set vs. v < 2 ^ bits"
  shows "bit (pack_bits bits k vs) j \<longleftrightarrow>
    j < 64 \<and> k \<le> j div bits \<and> j div bits < k + length vs \<and> bit (vs ! (j div bits - k)) (j mod bits)"
  using assms(2)
proof (induction vs arbitrary: k)
  case (Cons v vs)
  have IH: "bit (pack_bits bits (k + 1) vs) j \<longleftrightarrow> j < 64 \<and> k + 1 \<le> j div bits \<and>
      j div bits < k + 1 + length vs \<and> bit (vs ! (j div bits - (k + 1))) (j mod bits)"
    using Cons by simp
  have "bit (push_bit (k * bits) v) j \<longleftrightarrow> j < 64 \<and> j div bits = k \<and> bit v (j mod bits)"
  proof (cases "k * bits \<le> j \<and> j < k * bits + bits")
    case True
    then have "j div bits = k" "j mod bits = j - k * bits"
      using assms(1) by (auto simp: div_nat_eqI minus_div_mult_eq_mod [symmetric] mult.commute)
    then show ?thesis using True by (auto simp: bit_simps)
  next
    case False
    have "j div bits \<noteq> k"
      using False assms(1) by (metis add.commute div_mod_decomp div_times_less_eq_dividend
          dividend_less_div_times mult.commute)
    moreover have "\<not> bit (push_bit (k * bits) v) j"
      using False less_exp_bit_bound [of v bits "j - k * bits"] Cons.prems
      by (auto simp: bit_simps)
    ultimately show ?thesis by simp
  qed
  then show ?case
    using IH by (auto simp: bit_or_iff nth_Cons' Suc_diff_Suc)
qed simp

lemma unpackn_packn:
  assumes "0 < bits" and "length vs * bits \<le> 60" and "\<forall>v \<in> set vs. v < 2 ^ bits"
  shows "unpackn bits (length vs) (packn sel bits vs) = vs"
proof (rule nth_equalityI)
  fix i
  assume "i < length (unpackn bits (length vs) (packn sel bits vs))"
  then have i: "i < length vs" by simp
  have "take_bit bits (drop_bit (i * bits) (packn sel bits vs)) = vs ! i"
  proof (rule bit_word_eqI)
    fix m :: nat
    assume "m < LENGTH(64)"
    show "bit (take_bit bits (drop_bit (i * bits) (packn sel bits vs))) m = bit (vs ! i) m"
    proof (cases "m < bits")
      case True
      have "i * bits + m < (i + 1) * bits" using True by simp
      also have "\<dots> \<le> length vs * bits" using i by (intro mult_right_mono) auto
      finally have "i * bits + m < 60" using assms(2) by simp
      moreover have "(i * bits + m) div bits = i" "(i * bits + m) mod bits = m"
        using True assms(1) by auto
      ultimately show ?thesis
        using True i assms by (auto simp: packn_def bit_simps bit_pack_bits)
    next
      case False
      then have "\<not> bit (vs ! i) m"
        using less_exp_bit_bound assms(3) i by (metis nth_mem)
      then show ?thesis using False by (simp add: bit_simps)
    qed
  qed
  then show "unpackn bits (length vs) (packn sel bits vs) ! i = vs ! i"
    using i by (simp add: unpackn_def take_bit_eq_mask)
qed simp

lemma selector_packn:
  assumes "sel < 16" and "0 < bits" and "length vs * bits \<le> 60" and "\<forall>v \<in> set vs. v < 2 ^ bits"
  shows "drop_bit 60 (packn sel bits vs) = of_nat sel"
proof -
  have sel: "(of_nat sel :: u64) < 2 ^ 4"
    using assms(1) by (simp add: word_less_nat_alt unat_of_nat_u64)
  show ?thesis
  proof (rule bit_word_eqI)
    fix m :: nat
    assume "m < LENGTH(64)"
    have "\<not> bit (pack_bits bits 0 vs) (60 + m)"
    proof
      assume "bit (pack_bits bits 0 vs) (60 + m)"
      then have "(60 + m) div bits < length vs"
        using bit_pack_bits [OF assms(2,4)] by simp
      then have "60 + m < length vs * bits"
        using assms(2) by (simp add: div_less_iff_less_mult)
      with assms(3) show False by simp
    qed
    moreover have "bit (of_nat sel :: u64) m \<Longrightarrow> m < 4"
      by (rule less_exp_bit_bound [OF sel])
    ultimately show "bit (drop_bit 60 (packn sel bits vs)) m = bit (of_nat sel :: u64) m"
      by (auto simp: packn_def bit_simps)
  qed
qed

subsection \<open>The routines of the table\<close>

lemma upt_numeral_unroll:
  "[0..<numeral n] = 0 # [Suc 0..<numeral n]"
  "[Suc 0..<numeral n] = (if numeral n \<le> Suc 0 then [] else Suc 0 # [2..<numeral n])"
  "[0..<Suc 0] = [0]"
  by (simp_all add: upt_rec numeral_2_eq_2)

lemma pack_bits_nth:
  "pack_bits bits k src =
     foldr (\<lambda>i acc. push_bit ((k + i) * bits) (src ! i) OR acc) [0..<length src] 0"
proof (induction src arbitrary: k)
  case (Cons v src)
  have "[0..<length (v # src)] = 0 # map Suc [0..<length src]"
    by (simp only: length_Cons map_Suc_upt upt_conv_Cons zero_less_Suc)
  then show ?case
    by (simp add: Cons.IH foldr_map comp_def)
qed simp

lemmas unroll_simps = upt_numeral_unroll upt_rec_numeral push_bit_Suc

lemma pack_routines:
  "length src = 60 \<Longrightarrow> pack60 src = Inr (packn 2 1 src)"
  "length src = 30 \<Longrightarrow> pack30 src = Inr (packn 3 2 src)"
  "length src = 20 \<Longrightarrow> pack20 src = Inr (packn 4 3 src)"
  "length src = 15 \<Longrightarrow> pack15 src = Inr (packn 5 4 src)"
  "length src = 12 \<Longrightarrow> pack12 src = Inr (packn 6 5 src)"
  "length src = 10 \<Longrightarrow> pack10 src = Inr (packn 7 6 src)"
  "length src = 8 \<Longrightarrow> pack8 src = Inr (packn 8 7 src)"
  "length src = 7 \<Longrightarrow> pack7 src = Inr (packn 9 8 src)"
  "length src = 6 \<Longrightarrow> pack6 src = Inr (packn 10 10 src)"
  "length src = 5 \<Longrightarrow> pack5 src = Inr (packn 11 12 src)"
  "length src = 4 \<Longrightarrow> pack4 src = Inr (packn 12 15 src)"
  "length src = 3 \<Longrightarrow> pack3 src = Inr (packn 13 20 src)"
  "length src = 2 \<Longrightarrow> pack2 src = Inr (packn 14 30 src)"
  "length src = 1 \<Longrightarrow> pack1 src = Inr (packn 15 60 src)"
  by (simp_all add: pack60_def pack30_def pack20_def pack15_def pack12_def pack10_def pack8_def
      pack7_def pack6_def pack5_def pack4_def pack3_def pack2_def pack1_def packn_def
      pack_bits_nth unroll_simps)

lemma unpack_routines:
  "unpack60 v dst = unpackn 1 60 v @ drop 60 dst"
  "unpack30 v dst = unpackn 2 30 v @ drop 30 dst"
  "unpack20 v dst = unpackn 3 20 v @ drop 20 dst"
  "unpack15 v dst = unpackn 4 15 v @ drop 15 dst"
  "unpack12 v dst = unpackn 5 12 v @ drop 12 dst"
  "unpack10 v dst = unpackn 6 10 v @ drop 10 dst"
  "unpack8 v dst = unpackn 7 8 v @ drop 8 dst"
  "unpack7 v dst = unpackn 8 7 v @ drop 7 dst"
  "unpack6 v dst = unpackn 10 6 v @ drop 6 dst"
  "unpack5 v dst = unpackn 12 5 v @ drop 5 dst"
  "unpack4 v dst = unpackn 15 4 v @ drop 4 dst"
  "unpack3 v dst = unpackn 20 3 v @ drop 3 dst"
  "unpack2 v dst = unpackn 30 2 v @ drop 2 dst"
  "unpack1 v dst = unpackn 60 1 v @ drop 1 dst"
  by (simp_all add: unpack60_def unpack30_def unpack20_def unpack15_def unpack12_def unpack10_def
      unpack8_def unpack7_def unpack6_def unpack5_def unpack4_def unpack3_def unpack2_def
      unpack1_def unpackn_def unroll_simps mask_eq_exp_minus_1)

text \<open>The values a word stands for, and the facts of the packing table.\<close>

definition decode_word :: "u64 \<Rightarrow> u64 list" where
  "decode_word v = (let p = selector ! unat (drop_bit 60 v) in take (pk_n p) (pk_unpack p v []))"

definition decode_words :: "u64 list \<Rightarrow> u64 list" where
  "decode_words ws = concat (map decode_word ws)"

lemma decode_words_simps [simp]:
  "decode_words [] = []"
  "decode_words (w # ws) = decode_word w @ decode_words ws"
  "decode_words (xs @ ys) = decode_words xs @ decode_words ys"
  by (simp_all add: decode_words_def)

text \<open>
  The table, entry by entry: a routine returns the same \<open>n\<close> values whatever the destination
  holds, and from selector 2 on it is the generic one at the table's width and count.
\<close>

lemma length_selector [simp]: "length selector = 16"
  by (simp add: selector_def)

lemma selector_entries:
  "\<forall>p \<in> set selector. (\<forall>v dst. pk_unpack p v dst = take (pk_n p) (pk_unpack p v []) @ drop (pk_n p) dst)
     \<and> (\<forall>v. length (take (pk_n p) (pk_unpack p v [])) = pk_n p) \<and> 0 < pk_n p"
  by (simp add: selector_def unpack_routines unpack240_def unpack120_def)

lemma selector_entries_generic:
  "\<forall>p \<in> set (drop 2 selector).
     (\<forall>v dst. pk_unpack p v dst = unpackn (pk_bit p) (pk_n p) v @ drop (pk_n p) dst)
     \<and> pk_n p * pk_bit p \<le> 60 \<and> 0 < pk_bit p \<and> pk_bit p \<le> 60"
  by (simp add: selector_def unpack_routines)

lemma selector_unpack:
  assumes "sel < 16"
  shows "pk_unpack (selector ! sel) v dst
      = take (pk_n (selector ! sel)) (pk_unpack (selector ! sel) v []) @ drop (pk_n (selector ! sel)) dst"
    and "length (take (pk_n (selector ! sel)) (pk_unpack (selector ! sel) v [])) = pk_n (selector ! sel)"
    and "0 < pk_n (selector ! sel)"
proof -
  have "selector ! sel \<in> set selector" using assms by simp
  note g = bspec [OF selector_entries this]
  show "pk_unpack (selector ! sel) v dst
      = take (pk_n (selector ! sel)) (pk_unpack (selector ! sel) v []) @ drop (pk_n (selector ! sel)) dst"
    "length (take (pk_n (selector ! sel)) (pk_unpack (selector ! sel) v [])) = pk_n (selector ! sel)"
    "0 < pk_n (selector ! sel)"
    using g by blast+
qed

lemma selector_generic:
  assumes "2 \<le> sel" and "sel < 16"
  shows "pk_unpack (selector ! sel) v dst
      = unpackn (pk_bit (selector ! sel)) (pk_n (selector ! sel)) v @ drop (pk_n (selector ! sel)) dst"
    and "pk_n (selector ! sel) * pk_bit (selector ! sel) \<le> 60"
    and "0 < pk_bit (selector ! sel)" and "pk_bit (selector ! sel) \<le> 60"
proof -
  have "sel - 2 < length (drop 2 selector)" using assms by simp
  then have "drop 2 selector ! (sel - 2) \<in> set (drop 2 selector)" by (rule nth_mem)
  moreover have "drop 2 selector ! (sel - 2) = selector ! (2 + (sel - 2))"
    by (rule nth_drop) simp
  moreover have "2 + (sel - 2) = sel" using assms by simp
  ultimately have "selector ! sel \<in> set (drop 2 selector)" by metis
  note g = bspec [OF selector_entries_generic this]
  show "pk_unpack (selector ! sel) v dst
      = unpackn (pk_bit (selector ! sel)) (pk_n (selector ! sel)) v @ drop (pk_n (selector ! sel)) dst"
    "pk_n (selector ! sel) * pk_bit (selector ! sel) \<le> 60"
    "0 < pk_bit (selector ! sel)" "pk_bit (selector ! sel) \<le> 60"
    using g by blast+
qed

lemma sel_less_16: "unat (drop_bit 60 (v :: u64)) < 16"
proof -
  have "unat v < 2 ^ 64" by (rule unat_u64_less)
  then have "unat v div 2 ^ 60 < 16" by (simp add: less_mult_imp_div_less)
  then show ?thesis by (simp add: drop_bit_eq_div unat_div)
qed

lemma sel_and_0xf: "drop_bit 60 (v :: u64) AND 0xf = drop_bit 60 v"
proof -
  have "drop_bit 60 v < 2 ^ 4"
    using sel_less_16 [of v] by (simp add: word_less_nat_alt)
  moreover have "(0xf :: u64) = mask 4" by (simp add: mask_eq_exp_minus_1)
  ultimately show ?thesis using less_mask_eq by metis
qed

abbreviation word_packing :: "u64 \<Rightarrow> packing" where
  "word_packing v \<equiv> selector ! unat (drop_bit 60 v)"

lemma length_decode_word: "length (decode_word v) = pk_n (word_packing v)"
  unfolding decode_word_def Let_def by (rule selector_unpack(2) [OF sel_less_16])

lemma length_decode_word_pos: "0 < length (decode_word v)"
  unfolding length_decode_word by (rule selector_unpack(3) [OF sel_less_16])

lemma unpack_decode_word:
  "pk_unpack (word_packing v) v dst = decode_word v @ drop (length (decode_word v)) dst"
  unfolding length_decode_word unfolding decode_word_def Let_def
  by (rule selector_unpack(1) [OF sel_less_16])

lemma decode_word_generic:
  assumes "2 \<le> unat (drop_bit 60 v)"
  shows "decode_word v = unpackn (pk_bit (word_packing v)) (pk_n (word_packing v)) v"
  unfolding decode_word_def Let_def selector_generic(1) [OF assms sel_less_16] by simp

lemma decode_word_packn:
  assumes "2 \<le> sel" and "sel < 16" and "length vs = pk_n (selector ! sel)"
    and "bits = pk_bit (selector ! sel)" and "\<forall>v \<in> set vs. v < 2 ^ bits"
  shows "decode_word (packn sel bits vs) = vs"
proof -
  note g = selector_generic [OF assms(1,2)]
  have len: "length vs * bits \<le> 60" using g(2) assms(3,4) by simp
  have pos: "0 < bits" using g(3) assms(4) by simp
  have "drop_bit 60 (packn sel bits vs) = of_nat sel"
    by (rule selector_packn [OF assms(2) pos len assms(5)])
  then have "unat (drop_bit 60 (packn sel bits vs)) = sel"
    using assms(2) by (simp add: unat_of_nat_u64)
  then show ?thesis
    using decode_word_generic [of "packn sel bits vs"] assms unpackn_packn [OF pos len assms(5)]
    by simp
qed

lemma decode_word_runs:
  "decode_word 0 = replicate 240 1"
  "decode_word (push_bit 60 1) = replicate 120 1"
  by (simp_all add: decode_word_def selector_def unpack240_def unpack120_def)

lemma decode_word_le_MaxValue: "v \<in> set (decode_word w) \<Longrightarrow> v \<le> MaxValue"
proof -
  assume v: "v \<in> set (decode_word w)"
  show "v \<le> MaxValue"
  proof (cases "2 \<le> unat (drop_bit 60 w)")
    case True
    define b where "b = pk_bit (word_packing w)"
    have b: "b \<le> 60" using selector_generic(4) [OF True sel_less_16] by (simp add: b_def)
    from v obtain i where "v = drop_bit (i * b) w AND mask b"
      using decode_word_generic [OF True] by (auto simp: unpackn_def b_def)
    then have "v = take_bit b (drop_bit (i * b) w)" by (simp add: take_bit_eq_mask)
    then have "take_bit 60 v = v" using b by (simp add: min_def)
    then have "v \<le> mask 60" by (metis take_bit_eq_mask word_and_le1)
    then show ?thesis by (simp add: MaxValue_def mask_eq_exp_minus_1)
  next
    case False
    then consider "unat (drop_bit 60 w) = 0" | "unat (drop_bit 60 w) = Suc 0" by linarith
    then have "v = 1"
      using v by cases (auto simp: decode_word_def selector_def unpack240_def unpack120_def)
    then show ?thesis by (simp add: MaxValue_def word_le_nat_alt)
  qed
qed

subsection \<open>Encoding one word\<close>

lemma shift_amount:
  assumes "k * unat bitN < 64" and "k < 256"
  shows "unat ((of_nat k * bitN) AND 0x3f :: u8) = k * unat bitN"
proof -
  have k: "unat (of_nat k :: u8) = k" using assms(2) by (simp add: unat_of_nat_u8)
  have "unat (of_nat k * bitN :: u8) = k * unat bitN"
    using assms(1) k by (simp add: unat_word_ariths)
  moreover have "(of_nat k * bitN :: u8) < 2 ^ 6"
    using calculation assms(1) by (simp add: word_less_nat_alt)
  moreover have "(0x3f :: u8) = mask 6" by (simp add: mask_eq_exp_minus_1)
  ultimately show ?thesis using less_mask_eq by metis
qed

lemma pack_code_Some:
  assumes "pack_code intN bitN maxVal rem k val = Some w" and "intN * unat bitN \<le> 60"
    and "intN \<le> 60" and "k \<le> intN"
  shows "w = val OR pack_bits (unat bitN) k (take (intN - k) rem)
     \<and> (\<forall>v \<in> set (take (intN - k) rem). v < maxVal)"
  using assms
proof (induction intN bitN maxVal rem k val rule: pack_code.induct)
  case (2 intN bitN maxVal inV rem k val)
  show ?case
  proof (cases "k < intN")
    case True
    have "k * unat bitN \<le> intN * unat bitN" using True by (intro mult_right_mono) auto
    then have "k * unat bitN < 64" "k < 256" using "2.prems"(2,3) True by linarith+
    then have sh: "unat ((of_nat k * bitN) AND 0x3f :: u8) = k * unat bitN"
      by (rule shift_amount)
    have le: "\<not> maxVal \<le> inV" using "2.prems"(1) True by (auto split: if_splits)
    then have lt: "inV < maxVal" by simp
    have "intN - k = Suc (intN - (k + 1))" using True by simp
    then have tk: "take (intN - k) (inV # rem) = inV # take (intN - (k + 1)) rem" by simp
    have "pack_code intN bitN maxVal rem (k + 1) (val OR push_bit (k * unat bitN) inV) = Some w"
      using "2.prems"(1) True le sh by simp
    then have "w = (val OR push_bit (k * unat bitN) inV) OR
        pack_bits (unat bitN) (k + 1) (take (intN - (k + 1)) rem)
        \<and> (\<forall>v \<in> set (take (intN - (k + 1)) rem). v < maxVal)"
      using "2.IH" [OF True le] "2.prems"(2,3) True unfolding sh by simp
    then show ?thesis
      using lt unfolding tk by (simp add: or.assoc)
  qed (use "2.prems" in simp)
qed simp

lemma pack_code_None:
  "pack_code intN bitN maxVal rem k val = None \<Longrightarrow> \<exists>v \<in> set (take (intN - k) rem). v \<ge> maxVal"
proof (induction intN bitN maxVal rem k val rule: pack_code.induct)
  case (2 intN bitN maxVal inV rem k val)
  then have "k < intN" by (auto split: if_splits)
  then have "intN - k = Suc (intN - (k + 1))" by simp
  then have tk: "take (intN - k) (inV # rem) = inV # take (intN - (k + 1)) rem" by simp
  show ?case
    using 2 \<open>k < intN\<close> unfolding tk by (auto split: if_splits)
qed simp

lemma try_codes_Some:
  "try_codes code codes rem = Some (w, n) \<Longrightarrow>
     \<exists>i < length codes. n = unat (fst (codes ! i)) \<and> n \<le> length rem \<and>
       pack_code n (snd (codes ! i)) (push_bit (unat (snd (codes ! i) AND 0x3f)) 1) rem 0
         (push_bit 60 (of_nat (code + i + 2))) = Some w"
proof (induction code codes rem rule: try_codes.induct)
  case (2 code n' bitN codes rem)
  show ?case
  proof (cases "unat n' \<le> length rem \<and>
      pack_code (unat n') bitN (push_bit (unat (bitN AND 0x3f)) 1) rem 0
        (push_bit 60 (of_nat (code + 2))) = Some w \<and> n = unat n'")
    case True
    then show ?thesis by (intro exI [of _ 0]) simp
  next
    case False
    let ?val = "pack_code (unat n') bitN (push_bit (unat (bitN AND 0x3f)) 1) rem 0
        (push_bit 60 (of_nat (code + 2)))"
    have rest: "try_codes (code + 1) codes rem = Some (w, n)"
      and why: "length rem < unat n' \<or> \<not> length rem < unat n' \<and> ?val = None"
      using "2.prems" False by (auto simp: Let_def split: if_splits option.splits)
    from why have "\<exists>i < length codes. n = unat (fst (codes ! i)) \<and> n \<le> length rem \<and>
       pack_code n (snd (codes ! i)) (push_bit (unat (snd (codes ! i) AND 0x3f)) 1) rem 0
         (push_bit 60 (of_nat (code + 1 + i + 2))) = Some w"
      using "2.IH"(1) [OF refl _ rest] "2.IH"(2) [OF refl _ _ rest] by blast
    then obtain i where "i < length codes" "n = unat (fst (codes ! i))" "n \<le> length rem"
      "pack_code n (snd (codes ! i)) (push_bit (unat (snd (codes ! i) AND 0x3f)) 1) rem 0
         (push_bit 60 (of_nat (code + 1 + i + 2))) = Some w"
      by blast
    then show ?thesis by (intro exI [of _ "Suc i"]) simp
  qed
qed simp

lemma try_codes_None:
  "try_codes code codes rem = None \<Longrightarrow> (n, b) \<in> set codes \<Longrightarrow> unat n \<le> length rem \<Longrightarrow>
     \<exists>v \<in> set (take (unat n) rem). v \<ge> push_bit (unat (b AND 0x3f)) 1"
proof (induction code codes rem rule: try_codes.induct)
  case (2 code n' bitN codes rem)
  then show ?case
    by (fastforce simp: Let_def dest: pack_code_None split: if_splits option.splits)
qed simp

text \<open>\<open>numBits\<close> is the tail of the selector table.\<close>

lemma numBits_selector:
  assumes "i < length numBits"
  shows "unat (fst (numBits ! i)) = pk_n (selector ! (i + 2))"
    and "unat (snd (numBits ! i)) = pk_bit (selector ! (i + 2))"
    and "unat (snd (numBits ! i) AND 0x3f) = pk_bit (selector ! (i + 2))"
proof -
  have eqs: "map (\<lambda>c. unat (fst c)) numBits = map pk_n (drop 2 selector)"
    "map (\<lambda>c. unat (snd c)) numBits = map pk_bit (drop 2 selector)"
    "map (\<lambda>c. unat (snd c AND 0x3f)) numBits = map pk_bit (drop 2 selector)"
    by (simp_all add: numBits_def selector_def)
  have l: "i < length (drop 2 selector)" using assms by (simp add: numBits_def)
  have "2 \<le> length selector" by simp
  then have d: "drop 2 selector ! i = selector ! (i + 2)" using nth_drop [of 2 selector i] by (simp only: add.commute)
  show "unat (fst (numBits ! i)) = pk_n (selector ! (i + 2))"
    using arg_cong [OF eqs(1), of "\<lambda>xs. xs ! i"] unfolding nth_map [OF assms] nth_map [OF l] d .
  show "unat (snd (numBits ! i)) = pk_bit (selector ! (i + 2))"
    using arg_cong [OF eqs(2), of "\<lambda>xs. xs ! i"] unfolding nth_map [OF assms] nth_map [OF l] d .
  show "unat (snd (numBits ! i) AND 0x3f) = pk_bit (selector ! (i + 2))"
    using arg_cong [OF eqs(3), of "\<lambda>xs. xs ! i"] unfolding nth_map [OF assms] nth_map [OF l] d .
qed

lemma selector_n_le: "2 \<le> sel \<Longrightarrow> sel < 16 \<Longrightarrow> pk_n (selector ! sel) \<le> 60"
  using selector_generic(2,3) [of sel]
  by (metis One_nat_def Suc_leI le_trans mult.right_neutral mult_le_mono2)

lemma try_numBits_decode:
  assumes "try_codes 0 numBits rem = Some (w, n)"
  shows "n \<le> length rem" and "decode_word w = take n rem"
proof -
  obtain i where i: "i < length numBits" and n: "n = unat (fst (numBits ! i))" and le: "n \<le> length rem"
    and p: "pack_code n (snd (numBits ! i)) (push_bit (unat (snd (numBits ! i) AND 0x3f)) 1) rem 0
       (push_bit 60 (of_nat (0 + i + 2))) = Some w"
    using try_codes_Some [OF assms] by blast
  let ?b = "unat (snd (numBits ! i))"
  have sel: "2 \<le> i + 2" "i + 2 < 16" using i by (auto simp: numBits_def)
  note t = numBits_selector [OF i]
  note g = selector_generic [OF sel]
  have "n * ?b \<le> 60" and "n \<le> 60"
    using g(2) selector_n_le [OF sel] n t by auto
  then have "w = packn (i + 2) ?b (take n rem) \<and> (\<forall>v \<in> set (take n rem). v < 2 ^ ?b)"
    using pack_code_Some [OF p] t by (simp add: packn_def push_bit_eq_mult)
  moreover have "length (take n rem) = pk_n (selector ! (i + 2))" using le n t by simp
  ultimately show "decode_word w = take n rem"
    using decode_word_packn [OF sel] t(2) by blast
  show "n \<le> length rem" by (rule le)
qed

lemma ones_run_ge: "int m \<le> ones_run a k - k + 1 \<Longrightarrow> m \<le> length a \<Longrightarrow> take m a = replicate m 1"
proof (induction a k arbitrary: m rule: ones_run.induct)
  case (2 v a k)
  show ?case
  proof (cases m)
    case (Suc m')
    then have "v = 1" using "2.prems"(1) by (auto split: if_splits)
    moreover have "take m' a = replicate m' 1"
      using 2 Suc calculation by (auto split: if_splits)
    ultimately show ?thesis using Suc by simp
  qed simp
qed simp

lemma ones_run_bound: "ones_run a k < k + int (length a)"
  by (induction a k rule: ones_run.induct) auto

lemma encode_next_cases:
  assumes "encode_next rem = Some (w, n)"
  obtains (run240) a where "a = take 240 rem" "ones_run a 0 \<ge> 239" "w = 0" "n = 240"
  | (run120) m where "120 \<le> m" "m \<le> length rem" "ones_run (take m rem) 0 \<ge> 119"
      "w = push_bit 60 1" "n = 120"
  | (code) "try_codes 0 numBits rem = Some (w, n)"
proof (cases "length rem \<ge> 120")
  case False
  then show thesis using assms code by (simp add: encode_next_def)
next
  case True
  define m :: nat where "m = (if length rem \<ge> 240 then 240 else 120)"
  have m: "120 \<le> m" "m \<le> length rem" "m \<le> 240" using True by (auto simp: m_def)
  have "encode_next rem = (if ones_run (take m rem) 0 = 239 then Some (0, 240)
      else if ones_run (take m rem) 0 \<ge> 119 then Some (push_bit 60 1, 120)
      else try_codes 0 numBits rem)"
    using True by (simp add: encode_next_def m_def Let_def)
  then consider "ones_run (take m rem) 0 = 239" "w = 0" "n = 240"
    | "ones_run (take m rem) 0 \<ge> 119" "w = push_bit 60 1" "n = 120"
    | "try_codes 0 numBits rem = Some (w, n)"
    using assms by (metis option.inject prod.inject)
  then show thesis
  proof cases
    case 1
    then have "239 < length (take m rem)" using ones_run_bound [of "take m rem" 0] by linarith
    then have "m = 240" using m by simp
    then show thesis using run240 1 by simp
  next
    case 2
    then show thesis using run120 m by simp
  qed (rule code)
qed

lemma encode_next_decode:
  assumes "encode_next rem = Some (w, n)"
  shows "n \<le> length rem \<and> decode_word w = take n rem"
  using assms
proof (cases rule: encode_next_cases)
  case (run240 a)
  then have len: "239 < length a" using ones_run_bound [of a 0] by linarith
  then have run: "take 240 a = replicate 240 1"
    using run240 by (intro ones_run_ge [of _ _ 0]) simp_all
  have "240 \<le> length rem" using len run240(1) by simp
  then show ?thesis
    using run run240 decode_word_runs(1) by simp
next
  case (run120 m)
  then have "take 120 (take m rem) = replicate 120 1"
    by (intro ones_run_ge [of _ _ 0]) simp_all
  then show ?thesis
    using run120 decode_word_runs(2) by (simp add: min_def)
next
  case code
  then show ?thesis using try_numBits_decode by blast
qed

lemma encode_next_None:
  assumes "encode_next rem = None" and "rem \<noteq> []"
  shows "hd rem > MaxValue"
proof -
  have none: "try_codes 0 numBits rem = None"
    using assms(1) by (auto simp: encode_next_def Let_def split: if_splits)
  have "(1, 60) \<in> set numBits" by (simp add: numBits_def)
  moreover have "unat (1 :: u8) \<le> length rem" using assms(2) by (cases rem) auto
  ultimately obtain v where "v \<in> set (take 1 rem)" "v \<ge> push_bit (unat ((60 :: u8) AND 0x3f)) 1"
    using try_codes_None [OF none] by fastforce
  then have "hd rem \<ge> push_bit 60 1" using assms(2) by (cases rem) auto
  then show ?thesis by (simp add: MaxValue_def word_le_nat_alt word_less_nat_alt)
qed

subsection \<open>EncodeAll\<close>

text \<open>
  The same encoder with separate input and output. \<open>EncodeAll\<close> writes over its input; the two
  agree because the write index never passes the read index.
\<close>

function encode_list :: "u64 list \<Rightarrow> u64 list res" where
  "encode_list rem =
     (if rem = [] then Inr []
      else (case encode_next rem of
              None \<Rightarrow> Inl (Err ''value out of bounds'')
            | Some (v, n) \<Rightarrow> rbind (encode_list (drop n rem)) (\<lambda>ws. Inr (v # ws))))"
  by pat_completeness auto
termination
  by (relation "measure length") (auto dest: encode_next_pos)

declare encode_list.simps [simp del]

lemma encodeAll_loop_list:
  assumes "j \<le> i" and "i \<le> length arr"
  shows "encodeAll_loop arr i j
    = rbind (encode_list (drop i arr)) (\<lambda>ws. Inr (take j arr @ ws))"
  using assms
proof (induction arr i j rule: encodeAll_loop.induct)
  case (1 arr i j)
  show ?case
  proof (cases "i < length arr")
    case False
    then show ?thesis
      by (subst encodeAll_loop.simps, subst encode_list.simps) simp
  next
    case True
    then have ne: "drop i arr \<noteq> []" by simp
    show ?thesis
    proof (cases "encode_next (drop i arr)")
      case None
      then show ?thesis
        using True ne by (subst encodeAll_loop.simps, subst encode_list.simps) simp
    next
      case (Some r)
      obtain v n where r: "r = (v, n)" by (cases r)
      have n: "0 < n" "i + n \<le> length arr"
        using encode_next_pos [of "drop i arr" v n] encode_next_decode [of "drop i arr" v n] Some r True
        by auto
      have j: "j < length arr" using "1.prems" True by simp
      have "drop (i + n) (arr[j := v]) = drop n (drop i arr)"
        using n "1.prems"(1) by (simp add: add.commute)
      moreover have "encodeAll_loop (arr[j := v]) (i + n) (j + 1)
          = rbind (encode_list (drop (i + n) (arr[j := v]))) (\<lambda>ws. Inr (take (j + 1) (arr[j := v]) @ ws))"
        using "1.IH" [OF True Some r [symmetric] j] "1.prems"(1) n by simp
      ultimately show ?thesis
        using True j ne Some r
        by (subst encodeAll_loop.simps, subst encode_list.simps)
          (cases "encode_list (drop n (drop i arr))"; simp add: take_Suc_update)
    qed
  qed
qed

lemma EncodeAll_list: "EncodeAll src = encode_list src"
  using encodeAll_loop_list [of 0 0 src] by (cases "encode_list src") (simp_all add: EncodeAll_def)

lemma encode_list_decode:
  "encode_list src = Inr ws \<Longrightarrow> decode_words ws = src \<and> length ws \<le> length src"
proof (induction src arbitrary: ws rule: encode_list.induct)
  case (1 src)
  show ?case
  proof (cases "src = []")
    case True
    then show ?thesis using "1.prems" by (simp add: encode_list.simps)
  next
    case False
    with "1.prems" obtain v n ws' where
      next_eq: "encode_next src = Some (v, n)" and rest: "encode_list (drop n src) = Inr ws'"
      and ws: "ws = v # ws'"
      by (subst (asm) encode_list.simps) (auto split: option.splits elim!: rbind_InrE)
    note d = encode_next_decode [OF next_eq]
    have n: "0 < n" using encode_next_pos [OF next_eq] .
    have IH: "decode_words ws' = drop n src \<and> length ws' \<le> length (drop n src)"
      using "1.IH" [OF False next_eq refl rest] .
    then show ?thesis using d n ws by auto
  qed
qed

lemma encode_list_total:
  "\<forall>v \<in> set src. v \<le> MaxValue \<Longrightarrow> \<exists>ws. encode_list src = Inr ws"
proof (induction src rule: encode_list.induct)
  case (1 src)
  show ?case
  proof (cases "src = []")
    case True
    then show ?thesis by (simp add: encode_list.simps)
  next
    case False
    then have "hd src \<le> MaxValue" using "1.prems" by simp
    then obtain r where r: "encode_next src = Some r"
      using encode_next_None [of src] False by (cases "encode_next src") auto
    obtain v n where vn: "r = (v, n)" by (cases r)
    have "\<forall>v \<in> set (drop n src). v \<le> MaxValue"
      using "1.prems" by (auto dest: in_set_dropD)
    then obtain ws where "encode_list (drop n src) = Inr ws"
      using "1.IH" [OF False r vn [symmetric]] by blast
    then show ?thesis using False r vn by (subst encode_list.simps) simp
  qed
qed

lemma encode_list_error: "encode_list src = Inl e \<Longrightarrow> e = Err ''value out of bounds''"
proof (induction src rule: encode_list.induct)
  case (1 src)
  then show ?case
    by (subst (asm) (2) encode_list.simps)
      (auto split: if_splits option.splits simp: rbind_def split: sum.splits)
qed

subsection \<open>Decoding into a buffer\<close>

lemma unpack_at_ok:
  assumes "j + length (decode_word v) \<le> length dst"
  shows "unpack_at dst j v
    = Inr (take j dst @ decode_word v @ drop (j + length (decode_word v)) dst,
           j + length (decode_word v))"
proof -
  have "j < length dst" using assms length_decode_word_pos [of v] by linarith
  then show ?thesis
    using assms unpack_decode_word [of v "drop j dst"] length_decode_word [of v]
    by (simp add: unpack_at_def Let_def sel_and_0xf add.commute)
qed

lemma decodeAll_loop_ok:
  "j + length (decode_words ws) \<le> length dst \<Longrightarrow>
   decodeAll_loop dst j ws
     = Inr (take j dst @ decode_words ws @ drop (j + length (decode_words ws)) dst,
            j + length (decode_words ws))"
proof (induction ws arbitrary: dst j)
  case (Cons v ws)
  let ?d = "take j dst @ decode_word v @ drop (j + length (decode_word v)) dst"
  let ?j = "j + length (decode_word v)"
  have "unpack_at dst j v = Inr (?d, ?j)"
    using Cons.prems by (intro unpack_at_ok) simp
  moreover have "length ?d = length dst" using Cons.prems by simp
  moreover have "take ?j ?d = take j dst @ decode_word v" using Cons.prems by simp
  moreover have "drop (?j + length (decode_words ws)) ?d
      = drop (j + length (decode_words (v # ws))) dst"
    using Cons.prems by (simp add: add.commute add.left_commute)
  ultimately show ?case
    using Cons.IH [of ?j ?d] Cons.prems by (simp add: add.assoc)
qed simp

lemma decodeBytes_loop_words:
  "decodeBytes_loop dst j (be_words ws) = decodeAll_loop dst j ws"
proof (induction ws arbitrary: dst j)
  case Nil
  show ?case by (subst decodeBytes_loop.simps) simp
next
  case (Cons v ws)
  have "put_be_u64 v \<noteq> []" by (simp add: put_be_u64_def)
  then show ?case
    by (subst decodeBytes_loop.simps) (simp add: Cons.IH)
qed

lemma DecodeBytesBigEndian_words:
  assumes "length dst = length (decode_words ws)"
  shows "DecodeBytesBigEndian dst (be_words ws) = Inr (decode_words ws, length (decode_words ws))"
  using decodeAll_loop_ok [of 0 ws dst] assms
  by (simp add: DecodeBytesBigEndian_def decodeBytes_loop_words)

lemma countBytes_loop_words:
  "countBytes_loop (be_words ws) count = Inr (count + length (decode_words ws))"
proof (induction ws arbitrary: count)
  case Nil
  show ?case by (subst countBytes_loop.simps) simp
next
  case (Cons v ws)
  show ?case
    using sel_less_16 [of v]
    by (subst countBytes_loop.simps) (simp add: Let_def Cons.IH length_decode_word)
qed

lemma CountBytes_words: "CountBytes (be_words ws) = Inr (length (decode_words ws))"
  by (simp add: CountBytes_def countBytes_loop_words)

subsection \<open>Encode\<close>

lemma le_minus_one_less: "v \<le> p - 1 \<Longrightarrow> p \<noteq> 0 \<Longrightarrow> v < (p :: u64)"
  using unat_minus_one [of p] unat_gt_0 [of p] by (simp add: word_le_nat_alt word_less_nat_alt)

lemma canPack_le:
  assumes "canPack src n bits" and "bits \<noteq> 0" and "bits \<le> 60"
  shows "n \<le> length src" and "\<forall>v \<in> set (take n src). v < 2 ^ bits"
proof -
  show "n \<le> length src" using assms by (auto simp: canPack_def split: if_splits)
  show "\<forall>v \<in> set (take n src). v < 2 ^ bits"
  proof
    fix v
    assume "v \<in> set (take n src)"
    then have "v \<le> 2 ^ bits - 1"
      using assms by (auto simp: canPack_def list_all_iff push_bit_eq_mult not_less split: if_splits)
    moreover have "(2 :: u64) ^ bits \<noteq> 0" using assms(3) by simp
    ultimately show "v < 2 ^ bits" by (rule le_minus_one_less)
  qed
qed

text \<open>Entry \<open>sel\<close> of the table packs the leading values of \<open>src\<close>.\<close>

definition packs :: "nat \<Rightarrow> u64 list \<Rightarrow> u64 \<Rightarrow> nat \<Rightarrow> bool" where
  "packs sel src w n \<longleftrightarrow> 2 \<le> sel \<and> sel < 16 \<and> n = pk_n (selector ! sel) \<and>
     canPack src n (pk_bit (selector ! sel)) \<and> w = packn sel (pk_bit (selector ! sel)) (take n src)"

lemma packs_decode:
  assumes "packs sel src w n"
  shows "0 < n" and "n \<le> length src" and "decode_word w = take n src"
proof -
  let ?b = "pk_bit (selector ! sel)"
  have sel: "2 \<le> sel" "sel < 16" and n: "n = pk_n (selector ! sel)"
    and c: "canPack src n ?b" and w: "w = packn sel ?b (take n src)"
    using assms by (auto simp: packs_def)
  note g = selector_generic(3,4) [OF sel]
  show "0 < n" using selector_unpack(3) [OF sel(2)] n by simp
  show le: "n \<le> length src" using canPack_le(1) [OF c] g by simp
  have "\<forall>v \<in> set (take n src). v < 2 ^ ?b" using canPack_le(2) [OF c] g by simp
  then show "decode_word w = take n src"
    unfolding w using le n by (intro decode_word_packn [OF sel]) auto
qed

lemma canPack_length: "canPack src n bits \<Longrightarrow> length (take n src) = n"
  by (auto simp: canPack_def split: if_splits)

lemma pack_canPack:
  "canPack src 60 1 \<Longrightarrow> pack60 (take 60 src) = Inr (packn 2 1 (take 60 src))"
  "canPack src 30 2 \<Longrightarrow> pack30 (take 30 src) = Inr (packn 3 2 (take 30 src))"
  "canPack src 20 3 \<Longrightarrow> pack20 (take 20 src) = Inr (packn 4 3 (take 20 src))"
  "canPack src 15 4 \<Longrightarrow> pack15 (take 15 src) = Inr (packn 5 4 (take 15 src))"
  "canPack src 12 5 \<Longrightarrow> pack12 (take 12 src) = Inr (packn 6 5 (take 12 src))"
  "canPack src 10 6 \<Longrightarrow> pack10 (take 10 src) = Inr (packn 7 6 (take 10 src))"
  "canPack src 8 7 \<Longrightarrow> pack8 (take 8 src) = Inr (packn 8 7 (take 8 src))"
  "canPack src 7 8 \<Longrightarrow> pack7 (take 7 src) = Inr (packn 9 8 (take 7 src))"
  "canPack src 6 10 \<Longrightarrow> pack6 (take 6 src) = Inr (packn 10 10 (take 6 src))"
  "canPack src 5 12 \<Longrightarrow> pack5 (take 5 src) = Inr (packn 11 12 (take 5 src))"
  "canPack src 4 15 \<Longrightarrow> pack4 (take 4 src) = Inr (packn 12 15 (take 4 src))"
  "canPack src 3 20 \<Longrightarrow> pack3 (take 3 src) = Inr (packn 13 20 (take 3 src))"
  "canPack src 2 30 \<Longrightarrow> pack2 (take 2 src) = Inr (packn 14 30 (take 2 src))"
  "canPack src 1 60 \<Longrightarrow> pack1 (take 1 src) = Inr (packn 15 60 (take 1 src))"
  by (rule pack_routines, erule canPack_length)+

lemma selector_table:
  "pk_n (selector ! 2) = 60" "pk_bit (selector ! 2) = 1"
  "pk_n (selector ! 3) = 30" "pk_bit (selector ! 3) = 2"
  "pk_n (selector ! 4) = 20" "pk_bit (selector ! 4) = 3"
  "pk_n (selector ! 5) = 15" "pk_bit (selector ! 5) = 4"
  "pk_n (selector ! 6) = 12" "pk_bit (selector ! 6) = 5"
  "pk_n (selector ! 7) = 10" "pk_bit (selector ! 7) = 6"
  "pk_n (selector ! 8) = 8" "pk_bit (selector ! 8) = 7"
  "pk_n (selector ! 9) = 7" "pk_bit (selector ! 9) = 8"
  "pk_n (selector ! 10) = 6" "pk_bit (selector ! 10) = 10"
  "pk_n (selector ! 11) = 5" "pk_bit (selector ! 11) = 12"
  "pk_n (selector ! 12) = 4" "pk_bit (selector ! 12) = 15"
  "pk_n (selector ! 13) = 3" "pk_bit (selector ! 13) = 20"
  "pk_n (selector ! 14) = 2" "pk_bit (selector ! 14) = 30"
  "pk_n (selector ! 15) = 1" "pk_bit (selector ! 15) = 60"
  by (simp_all add: selector_def)

text \<open>\<open>Encode\<close> as a search through the table.\<close>

fun encode_table :: "nat list \<Rightarrow> u64 list \<Rightarrow> (u64 \<times> nat) res" where
  "encode_table [] src =
     (if length src > 0 then Inl (Err ''value out of bounds'') else Inr (0, 0))"
| "encode_table (sel # sels) src =
     (if canPack src (pk_n (selector ! sel)) (pk_bit (selector ! sel))
      then Inr (packn sel (pk_bit (selector ! sel)) (take (pk_n (selector ! sel)) src),
                pk_n (selector ! sel))
      else encode_table sels src)"

lemma Encode_table:
  "Encode src =
     (if canPack src 240 0 then Inr (0, 240)
      else if canPack src 120 0 then Inr (push_bit 60 1, 120)
      else encode_table [2, 3, 4, 5, 6, 7, 8, 9, 10, 11, 12, 13, 14, 15] src)"
  unfolding Encode_def encode_table.simps selector_table
  by (simp only: pack_canPack rbind_simps cong: if_cong)

lemma encode_table_Inr:
  "encode_table sels src = Inr (w, n) \<Longrightarrow> \<forall>sel \<in> set sels. 2 \<le> sel \<and> sel < 16 \<Longrightarrow>
     (\<exists>sel. packs sel src w n) \<or> src = [] \<and> w = 0 \<and> n = 0"
  by (induction sels) (auto simp: packs_def split: if_splits)

lemma encode_table_Inl:
  "encode_table sels src = Inl e \<Longrightarrow> src \<noteq> [] \<and> e = Err ''value out of bounds'' \<and>
     (\<forall>sel \<in> set sels. \<not> canPack src (pk_n (selector ! sel)) (pk_bit (selector ! sel)))"
  by (induction sels) (auto split: if_splits)

lemma canPack_run:
  assumes "canPack src n 0"
  shows "n \<le> length src" and "take n src = replicate n 1"
proof -
  show le: "n \<le> length src" using assms by (auto simp: canPack_def split: if_splits)
  have "\<forall>v \<in> set (take n src). v = 1"
    using assms by (auto simp: canPack_def list_all_iff split: if_splits dest: in_set_takeD)
  then have "take n src = replicate (length (take n src)) 1"
    by (intro replicate_eqI) auto
  then show "take n src = replicate n 1" using le by simp
qed

lemma Encode_decode:
  assumes "Encode src = Inr (w, n)" and "src \<noteq> []"
  shows "0 < n \<and> n \<le> length src \<and> decode_word w = take n src"
proof (cases "canPack src 240 0")
  case True
  then show ?thesis
    using assms canPack_run [OF True] by (simp add: Encode_table decode_word_runs)
next
  case not240: False
  show ?thesis
  proof (cases "canPack src 120 0")
    case True
    then show ?thesis
      using assms not240 canPack_run [OF True] decode_word_runs(2) by (simp add: Encode_table)
  next
    case False
    then have "encode_table [2, 3, 4, 5, 6, 7, 8, 9, 10, 11, 12, 13, 14, 15] src = Inr (w, n)"
      using assms(1) not240 by (simp only: Encode_table if_False)
    then have "\<exists>sel. packs sel src w n"
      using encode_table_Inr assms(2) by fastforce
    then show ?thesis using packs_decode by blast
  qed
qed

lemma Encode_total:
  assumes "src \<noteq> []" and "hd src \<le> MaxValue"
  shows "\<exists>r. Encode src = Inr r"
proof (cases "Encode src")
  case (Inl e)
  then have "encode_table [2, 3, 4, 5, 6, 7, 8, 9, 10, 11, 12, 13, 14, 15] src = Inl e"
    unfolding Encode_table by (simp split: if_splits del: encode_table.simps)
  from encode_table_Inl [OF this] have "\<not> canPack src (pk_n (selector ! 15)) (pk_bit (selector ! 15))"
    by simp
  then have "\<not> canPack src 1 60" unfolding selector_table .
  then show ?thesis
    using assms by (cases src) (auto simp: canPack_def MaxValue_def)
qed simp

subsection \<open>The packing interface, and arbitrary input\<close>

interpretation s8b: word_codec EncodeAll CountBytes DecodeBytesBigEndian MaxValue
proof unfold_locales
  fix vs :: "u64 list"
  assume "\<forall>v \<in> set vs. v \<le> MaxValue"
  then show "\<exists>ws. EncodeAll vs = Inr ws"
    unfolding EncodeAll_list by (rule encode_list_total)
next
  fix vs ws v
  assume "EncodeAll vs = Inr ws" "v \<in> set vs"
  then show "v \<le> MaxValue"
    using encode_list_decode [of vs ws] decode_word_le_MaxValue
    by (auto simp: EncodeAll_list decode_words_def)
next
  fix vs ws
  assume "EncodeAll vs = Inr ws"
  then show "length ws \<le> length vs"
    using encode_list_decode by (simp add: EncodeAll_list)
next
  fix vs ws
  assume "EncodeAll vs = Inr ws"
  then show "CountBytes (be_words ws) = Inr (length vs)"
    using encode_list_decode by (auto simp: EncodeAll_list CountBytes_words)
next
  fix vs ws dst :: "u64 list"
  assume "EncodeAll vs = Inr ws" "length dst = length vs"
  then show "DecodeBytesBigEndian dst (be_words ws) = Inr (vs, length vs)"
    using encode_list_decode [of vs ws] DecodeBytesBigEndian_words [of dst ws]
    by (simp add: EncodeAll_list)
qed

subsection \<open>Visiting\<close>

text \<open>
  What \<open>ForEach\<close> hands to its callback for one word: the mask of selectors 0 and 1 is empty, so a
  run of ones is visited as zeros.
\<close>

definition visited_word :: "u64 \<Rightarrow> u64 list" where
  "visited_word v =
     (if unat (drop_bit 60 v) < 2 then replicate (pk_n (word_packing v)) 0 else decode_word v)"

definition collect :: "u64 list \<Rightarrow> u64 \<Rightarrow> bool \<times> u64 list" where
  "collect s v = (True, s @ [v])"

lemma word_mask_mask: "bits < 64 \<Longrightarrow> word_mask bits = mask bits"
  by (rule bit_word_eqI) (auto simp: word_mask_def bit_simps)

lemma forEach_word_collect:
  "bits < 64 \<Longrightarrow> forEach_word collect s n bits v
     = (True, s @ map (\<lambda>i. drop_bit (i * bits) v AND mask bits) [0..<n])"
proof (induction n arbitrary: s v)
  case (Suc n)
  have "[0..<Suc n] = 0 # map Suc [0..<n]"
    by (simp only: map_Suc_upt upt_conv_Cons zero_less_Suc)
  then show ?case
    using Suc by (simp add: collect_def word_mask_mask comp_def add.commute)
qed simp

lemma selector_bit_less: "pk_bit (word_packing v) < 64"
proof -
  have "\<forall>p \<in> set selector. pk_bit p < 64" by (simp add: selector_def)
  then show ?thesis using sel_less_16 [of v] by simp
qed

lemma forEach_word_visited:
  "forEach_word collect s (pk_n (word_packing v)) (pk_bit (word_packing v)) v
     = (True, s @ visited_word v)"
proof (cases "unat (drop_bit 60 v) < 2")
  case True
  then have "pk_bit (word_packing v) = 0"
    by (auto simp: selector_def less_2_cases_iff)
  then show ?thesis
    using True forEach_word_collect [of 0 s "pk_n (word_packing v)" v]
    by (simp add: visited_word_def map_replicate_const)
next
  case False
  then have "decode_word v = unpackn (pk_bit (word_packing v)) (pk_n (word_packing v)) v"
    by (intro decode_word_generic) simp
  then show ?thesis
    using False forEach_word_collect [OF selector_bit_less [of v], of s "pk_n (word_packing v)" v]
    by (simp add: visited_word_def unpackn_def)
qed

lemma ForEach_collect:
  "ForEach collect s (be_words ws) = Inr (s @ concat (map visited_word ws))"
proof (induction ws arbitrary: s)
  case Nil
  show ?case by (subst ForEach.simps) simp
next
  case (Cons v ws)
  show ?case
    using sel_less_16 [of v]
    by (subst ForEach.simps) (simp add: Let_def forEach_word_visited Cons.IH)
qed

subsection \<open>Further facts\<close>

lemma selector_pack:
  assumes "2 \<le> sel" and "sel < 16" and "length vs = pk_n (selector ! sel)"
  shows "pk_pack (selector ! sel) vs = Inr (packn sel (pk_bit (selector ! sel)) vs)"
proof -
  have "sel \<in> set [2..<16]" using assms(1,2) by (simp only: set_upt atLeastLessThan_iff)
  moreover have "\<forall>s \<in> set [2..<16]. length vs = pk_n (selector ! s) \<longrightarrow>
      pk_pack (selector ! s) vs = Inr (packn s (pk_bit (selector ! s)) vs)"
    by (simp add: upt_rec_numeral selector_def pack_routines)
  ultimately show ?thesis using assms(3) by blast
qed

lemma Encode_error: "Encode src = Inl e \<Longrightarrow> e = Err ''value out of bounds''"
  using encode_table_Inl by (auto simp: Encode_table simp del: encode_table.simps split: if_splits)

lemma countBytes_loop_multiple: "countBytes_loop b count = Inr n \<Longrightarrow> length b mod 8 = 0"
proof (induction b count rule: countBytes_loop.induct)
  case (1 b count)
  show ?case
  proof (cases "length b \<ge> 8")
    case True
    then have "length (drop 8 b) mod 8 = 0"
      using 1 by (subst (asm) (2) countBytes_loop.simps) (auto simp: Let_def split: if_splits)
    then show ?thesis using True by (simp add: le_mod_geq)
  next
    case False
    then show ?thesis using "1.prems" by (subst (asm) countBytes_loop.simps) (auto split: if_splits)
  qed
qed

lemma CountBytes_multiple: "CountBytes b = Inr n \<Longrightarrow> length b mod 8 = 0"
  unfolding CountBytes_def by (rule countBytes_loop_multiple)

section \<open>Properties\<close>

text \<open>
  C20. \<open>EncodeAll\<close> followed by \<open>DecodeAll\<close> is the identity: whatever words the in-place encoder
  produces, decoding them into any buffer with enough room puts the original integers, all of them
  and in order, at the front of the buffer, leaves the rest of the buffer alone and returns their
  number. No write goes out of bounds.
\<close>

theorem EncodeAll_DecodeAll:
  assumes "EncodeAll src = Inr ws" and "length src \<le> length dst"
  shows "DecodeAll dst ws = Inr (src @ drop (length src) dst, length src)"
proof -
  have d: "decode_words ws = src"
    using encode_list_decode assms(1) by (simp add: EncodeAll_list)
  have "DecodeAll dst ws = Inr (take 0 dst @ decode_words ws @ drop (0 + length (decode_words ws)) dst,
      0 + length (decode_words ws))"
    unfolding DecodeAll_def using assms(2) d by (intro decodeAll_loop_ok) simp
  then show ?thesis using d by simp
qed

theorem EncodeAll_DecodeAll_witness:
  "EncodeAll [7, 300, 7] = Inr [packn 13 20 [7, 300, 7]] \<and>
   DecodeAll [0, 0, 0, 9] [packn 13 20 [7, 300, 7]] = Inr ([7, 300, 7, 9], 3)"
proof -
  have "EncodeAll [7, 300, 7] = Inr [packn 13 20 [7, 300, 7]]"
    by (simp add: EncodeAll_def encodeAll_loop.simps encode_next_def numBits_def packn_def)
  then show ?thesis
    using EncodeAll_DecodeAll [of "[7, 300, 7]" "[packn 13 20 [7, 300, 7]]" "[0, 0, 0, 9]"] by simp
qed

text \<open>
  \<open>EncodeAll\<close> succeeds exactly on the inputs whose values all fit in 60 bits. On every other
  input it returns \<open>ErrValueOutOfBounds\<close> (it never panics), and on success it never needs more
  words than there were integers, so the in-place output fits.
\<close>

theorem EncodeAll_outcome:
  "EncodeAll src = Inl (Err ''value out of bounds'') \<and> \<not> list_all (\<lambda>v. v \<le> MaxValue) src
   \<or> (\<exists>ws. EncodeAll src = Inr ws \<and> list_all (\<lambda>v. v \<le> MaxValue) src \<and> length ws \<le> length src)"
proof (cases "EncodeAll src")
  case (Inl e)
  then have "e = Err ''value out of bounds''"
    using encode_list_error by (simp add: EncodeAll_list)
  moreover have "\<not> (\<forall>v \<in> set src. v \<le> MaxValue)"
    using s8b.encode_total [of src] Inl by auto
  ultimately show ?thesis using Inl by (simp add: list_all_iff)
next
  case (Inr ws)
  then show ?thesis
    using s8b.encode_bounded [OF Inr] s8b.encode_length [OF Inr] by (auto simp: list_all_iff)
qed

text \<open>
  C13. Writing the words over the array being read is harmless: \<open>EncodeAll\<close>, whose output
  aliases its input, computes the same result as the encoder that keeps input and output apart.
\<close>

theorem EncodeAll_in_place: "EncodeAll src = encode_list src"
  by (rule EncodeAll_list)

text \<open>
  Every routine of the packing table from selector 2 on: packing the right number of values of
  the right width puts the selector in the top four bits, and the unpack routine of the same entry
  writes exactly those values to the front of the destination.
\<close>

theorem selector_pack_unpack:
  assumes "2 \<le> sel" and "sel < 16" and "length vs = pk_n (selector ! sel)"
    and "list_all (\<lambda>v. v < 2 ^ pk_bit (selector ! sel)) vs"
  shows "\<exists>w. pk_pack (selector ! sel) vs = Inr w \<and> drop_bit 60 w = of_nat sel \<and>
    pk_unpack (selector ! sel) w dst = vs @ drop (length vs) dst"
proof -
  let ?b = "pk_bit (selector ! sel)"
  have lt: "\<forall>v \<in> set vs. v < 2 ^ ?b" using assms(4) by (simp add: list_all_iff)
  note g = selector_generic [OF assms(1,2)]
  have len: "length vs * ?b \<le> 60" using g(2) assms(3) by simp
  have "pk_pack (selector ! sel) vs = Inr (packn sel ?b vs)"
    by (rule selector_pack [OF assms(1,2,3)])
  moreover have "drop_bit 60 (packn sel ?b vs) = of_nat sel"
    by (rule selector_packn [OF assms(2) g(3) len lt])
  moreover have "pk_unpack (selector ! sel) (packn sel ?b vs) dst = vs @ drop (length vs) dst"
    using unpackn_packn [OF g(3) len lt] assms(3) by (simp only: g(1))
  ultimately show ?thesis by blast
qed

theorem selector_pack_unpack_witness:
  "\<exists>w. pk_pack (selector ! 13) [1, 2, 1048575] = Inr w \<and> drop_bit 60 w = 13 \<and>
     pk_unpack (selector ! 13) w [0, 0, 0, 5] = [1, 2, 1048575, 5]"
  using selector_pack_unpack [of 13 "[1, 2, 1048575]" "[0, 0, 0, 5]"] by (simp add: selector_table)

text \<open>
  \<open>Encode\<close> packs a non-empty prefix: on a non-empty input it fails exactly when the first
  value does not fit in 60 bits, and otherwise returns a count between 1 and the length and a word
  that decodes to that many leading values.
\<close>

theorem Encode_prefix:
  assumes "src \<noteq> []"
  shows "(case Encode src of
            Inl e \<Rightarrow> e = Err ''value out of bounds'' \<and> hd src > MaxValue
          | Inr (w, n) \<Rightarrow> 0 < n \<and> n \<le> length src \<and> hd src \<le> MaxValue \<and>
              Decode buf w = Inr (take n src @ drop n buf, n))"
proof (cases "Encode src")
  case (Inl e)
  then have "e = Err ''value out of bounds''" "hd src > MaxValue"
    using Encode_error [OF Inl] Encode_total [OF assms] by (auto simp: not_le [symmetric])
  then show ?thesis using Inl by simp
next
  case (Inr r)
  obtain w n where r: "r = (w, n)" by (cases r)
  have d: "0 < n" "n \<le> length src" "decode_word w = take n src"
    using Encode_decode [of src w n] Inr r assms by auto
  then have "hd src \<in> set (decode_word w)" using assms by (cases src; cases n) auto
  then have "hd src \<le> MaxValue" by (rule decode_word_le_MaxValue)
  moreover have "Decode buf w = Inr (decode_word w @ drop (length (decode_word w)) buf, length (decode_word w))"
    using sel_less_16 [of w] by (simp add: Decode_def Let_def unpack_decode_word length_decode_word)
  ultimately show ?thesis using Inr r d by simp
qed

theorem Encode_prefix_witness:
  "(case Encode [5] of Inl e \<Rightarrow> e = Err ''value out of bounds'' \<and> hd [5 :: u64] > MaxValue
    | Inr (w, n) \<Rightarrow> 0 < n \<and> n \<le> length [5 :: u64] \<and> hd [5 :: u64] \<le> MaxValue \<and>
        Decode [8, 8] w = Inr (take n [5] @ drop n [8, 8], n))"
  using Encode_prefix [of "[5]" "[8, 8]"] by simp

text \<open>
  C21. Memory safety of the unsafe decoder on arbitrary, possibly corrupt, input: for any byte
  string that \<open>CountBytes\<close> accepts, decoding into a buffer of the size it reports fills the buffer
  exactly, without a panic and without a write past its end.
\<close>

theorem DecodeBytesBigEndian_safe:
  assumes "CountBytes b = Inr n" and "length dst = n"
  shows "\<exists>vs. DecodeBytesBigEndian dst b = Inr (vs, n) \<and> length vs = n"
proof -
  have "length b mod 8 = 0" by (rule CountBytes_multiple [OF assms(1)])
  from bytes_be_words [OF this] obtain ws where b: "b = be_words ws" ..
  then have "n = length (decode_words ws)" using assms(1) CountBytes_words [of ws] by simp
  then show ?thesis
    using DecodeBytesBigEndian_words [of dst ws] assms(2) b by simp
qed

theorem DecodeBytesBigEndian_safe_witness:
  "\<exists>vs. DecodeBytesBigEndian [0, 0] (put_be_u64 (push_bit 60 14)) = Inr (vs, 2) \<and> length vs = 2"
proof -
  have "decode_word (push_bit 60 14) = [0, 0]"
    by (simp add: decode_word_def selector_def unpack2_def)
  then have "CountBytes (put_be_u64 (push_bit 60 14)) = Inr 2"
    using CountBytes_words [of "[push_bit 60 14]"] by simp
  then show ?thesis by (rule DecodeBytesBigEndian_safe) simp
qed

text \<open>
  \<open>ForEach\<close> does not visit what was encoded: on words with selector 0 or 1, which stand for
  runs of 240 or 120 ones, the mask is empty and the callback is given zeros; on all other words it
  is given the encoded values. A collecting callback sees exactly this sequence.
\<close>

theorem ForEach_visits:
  "ForEach collect [] (be_words ws) = Inr (concat (map visited_word ws)) \<and>
   DecodeAll (replicate 240 0) [0] = Inr (replicate 240 1, 240) \<and>
   ForEach collect [] (be_words [0]) = Inr (replicate 240 0)"
proof (intro conjI)
  show "ForEach collect [] (be_words ws) = Inr (concat (map visited_word ws))"
    by (simp add: ForEach_collect)
  show "DecodeAll (replicate 240 0) [0] = Inr (replicate 240 1, 240)"
    using decodeAll_loop_ok [of 0 "[0]" "replicate 240 0"] by (simp add: DecodeAll_def decode_word_runs)
  have "visited_word 0 = replicate 240 0"
    by (simp add: visited_word_def selector_def)
  then show "ForEach collect [] (be_words [0]) = Inr (replicate 240 0)"
    by (simp only: ForEach_collect) simp
qed

end
