(* ===== verification/BatchCommon.thy ===== *)
theory BatchCommon
  imports Simple8b
begin

text \<open>
  What the integer and the timestamp batch codecs of \<open>src/backend/tsdb/engine/tsm1\<close> share: the
  backward loop that turns the source array into deltas in place and tracks the largest one, the
  test for a constant delta, resizing of the destination slice, and the prefix sums the decoders
  take. The delta loops differ in the function applied to each difference (\<open>ZigZagEncode\<close>, or
  nothing), which is a parameter here.
\<close>

unbundle bit_operations_syntax

subsection \<open>Writing pieces\<close>

lemma blits_taken:
  assumes "length (concat ss) \<le> length b"
  shows "rbind (blits 0 ss b) (\<lambda>(b', i). Inr (take i b')) = Inr (concat ss)"
  using assms by (simp add: blits_0)

lemma blits_taken_length:
  assumes "length (concat ss) \<le> length b" and "n = length (concat ss)"
  shows "rbind (blits 0 ss b) (\<lambda>(b', _). Inr (take n b')) = Inr (concat ss)"
  using assms by (simp add: blits_0)

lemma concat_map_put: "concat (map put_be_u64 ws) = be_words ws"
  by (simp add: be_words_def)

subsection \<open>Encoding to deltas in place\<close>

text \<open>
  \<open>for i := len(deltas) - 1; i > 0; i-- { deltas[i] = enc(deltas[i] - deltas[i-1]); if deltas[i] > max { max = deltas[i] } }\<close>,
  called with \<open>i = len(deltas) - 1\<close>.
\<close>

fun delta_loop :: "(u64 \<Rightarrow> u64) \<Rightarrow> nat \<Rightarrow> u64 list \<Rightarrow> u64 \<Rightarrow> u64 list \<times> u64" where
  "delta_loop enc 0 ds mx = (ds, mx)"
| "delta_loop enc (Suc i) ds mx =
     (let d = enc (ds ! Suc i - ds ! i)
      in delta_loop enc i (ds[Suc i := d]) (if d > mx then d else mx))"

text \<open>\<open>for i := 2; i < len(deltas); i++ { if deltas[1] != deltas[i] { rle = false; break } }\<close>.\<close>

definition same_deltas :: "u64 list \<Rightarrow> bool" where
  "same_deltas ds = list_all (\<lambda>d. ds ! 1 = d) (drop 2 ds)"

subsection \<open>The destination slice\<close>

text \<open>
  \<open>if cap(dst) < count { dst = make([]int64, count) } else { dst = dst[:count] }\<close>, for a count that
  is an \<open>int\<close> and for one that is a \<open>uint64\<close> read from the block. In the second form \<open>int(count)\<close> may be
  negative; the slice expression then panics. Memory is taken to be unlimited.
\<close>

definition resize_dst :: "nat \<Rightarrow> i64 slice \<Rightarrow> i64 list" where
  "resize_dst count dst = (if sl_cap dst < count then replicate count 0 else take count (sl_arr dst))"

definition resize_dst_u64 :: "u64 \<Rightarrow> i64 slice \<Rightarrow> i64 list res" where
  "resize_dst_u64 count dst =
     (if int (sl_cap dst) < sint count then Inr (replicate (unat count) 0)
      else if unat count \<le> sl_cap dst then Inr (take (unat count) (sl_arr dst))
      else Inl Panic)"

lemma length_resize_dst [simp]: "length (resize_dst count dst) = count"
  by (simp add: resize_dst_def sl_cap_def)

lemma sint_u64: "sint (w :: u64) = (if uint w < 2 ^ 63 then uint w else uint w - 2 ^ 64)"
proof -
  have w: "0 \<le> uint w" "uint w < 2 ^ 64" using uint_bounded [of w] by simp_all
  have eq: "sint w = (uint w + 2 ^ 63) mod 2 ^ 64 - 2 ^ 63"
    by (simp add: sint_uint signed_take_bit_eq_take_bit_shift take_bit_eq_mod)
  show ?thesis
  proof (cases "uint w < 2 ^ 63")
    case True
    then have "(uint w + 2 ^ 63) mod 2 ^ 64 = uint w + 2 ^ 63"
      using w by (intro mod_pos_pos_trivial) simp_all
    then show ?thesis using True eq by simp
  next
    case False
    then have "(uint w + 2 ^ 63) mod 2 ^ 64 = (uint w + 2 ^ 63 - 2 ^ 64) mod 2 ^ 64"
      by (intro mod_pos_geq) simp_all
    also have "\<dots> = uint w + 2 ^ 63 - 2 ^ 64"
      using w False by (intro mod_pos_pos_trivial) simp_all
    finally show ?thesis using False eq by simp
  qed
qed

lemma uint_less_exp_iff: "uint (w :: u64) < 2 ^ n \<longleftrightarrow> unat w < 2 ^ n"
proof -
  have "uint w = int (unat w)" "(2 :: int) ^ n = int (2 ^ n)" by simp_all
  then show ?thesis by (simp only: of_nat_less_iff)
qed

lemma sint_of_nat_u64:
  assumes "n < 2 ^ 63"
  shows "sint (of_nat n :: u64) = int n"
proof -
  have "unat (of_nat n :: u64) = n" using assms by (intro unat_of_nat_u64) simp
  then have "uint (of_nat n :: u64) < 2 ^ 63" "uint (of_nat n :: u64) = int n"
    using assms by (simp_all only: uint_less_exp_iff) (simp only: uint_nat)
  then show ?thesis by (simp only: sint_u64 if_True)
qed

text \<open>The \<open>uint64\<close> form succeeds exactly on counts below \<open>2^63\<close>, or on those the slice can hold.\<close>

lemma resize_dst_u64_cases:
  "resize_dst_u64 count dst =
     (if unat count < 2 ^ 63 \<or> unat count \<le> sl_cap dst then Inr (resize_dst (unat count) dst) else Inl Panic)"
proof (cases "unat count < 2 ^ 63")
  case True
  then have "sint count = int (unat count)"
    by (simp only: sint_u64 uint_less_exp_iff if_True) simp
  then have "int (sl_cap dst) < sint count \<longleftrightarrow> sl_cap dst < unat count"
    by (simp only: of_nat_less_iff)
  then show ?thesis
    using True by (simp add: resize_dst_u64_def resize_dst_def)
next
  case False
  have "sint count = uint count - 2 ^ 64"
    using False by (simp only: sint_u64 uint_less_exp_iff if_False)
  moreover have "uint count < 2 ^ 64" using uint_bounded [of count] by simp
  ultimately have "\<not> int (sl_cap dst) < sint count" by linarith
  then show ?thesis
    using False by (simp add: resize_dst_u64_def resize_dst_def)
qed

subsection \<open>Deltas as lists\<close>

text \<open>The differences of neighbours, the first one taken against \<open>p\<close>, and the prefix sums from \<open>p\<close>.\<close>

fun deltas_from :: "(u64 \<Rightarrow> u64) \<Rightarrow> u64 \<Rightarrow> u64 list \<Rightarrow> u64 list" where
  "deltas_from enc p [] = []"
| "deltas_from enc p (x # xs) = enc (x - p) # deltas_from enc x xs"

fun sums_from :: "(u64 \<Rightarrow> u64) \<Rightarrow> u64 \<Rightarrow> u64 list \<Rightarrow> u64 list" where
  "sums_from dec p [] = []"
| "sums_from dec p (d # ds) = (p + dec d) # sums_from dec (p + dec d) ds"

lemma length_deltas_from [simp]: "length (deltas_from enc p xs) = length xs"
  by (induction xs arbitrary: p) auto

lemma length_sums_from [simp]: "length (sums_from dec p ds) = length ds"
  by (induction ds arbitrary: p) auto

lemma sums_deltas:
  assumes "\<And>d. dec (enc d) = d"
  shows "sums_from dec p (deltas_from enc p xs) = xs"
  using assms by (induction xs arbitrary: p) auto

lemma deltas_from_snoc:
  "deltas_from enc p (xs @ [y]) = deltas_from enc p xs @ [enc (y - last (p # xs))]"
  by (induction xs arbitrary: p) auto

lemma deltas_from_take:
  assumes "i < length xs"
  shows "deltas_from enc p (take (Suc i) xs) =
    deltas_from enc p (take i xs) @ [enc (xs ! i - (p # xs) ! i)]"
proof -
  have "last (p # take i xs) = (p # xs) ! i"
    using assms by (cases i; cases xs) (auto simp: last_conv_nth)
  then show ?thesis
    using assms by (simp only: take_Suc_conv_app_nth deltas_from_snoc)
qed

text \<open>The in-place loop computes the list of deltas and its maximum.\<close>

lemma delta_loop_list:
  assumes "i \<le> length xs"
  shows "fst (delta_loop enc i ((x # take i xs) @ rest) mx) = x # deltas_from enc x (take i xs) @ rest \<and>
    (snd (delta_loop enc i ((x # take i xs) @ rest) mx) \<le> m \<longleftrightarrow>
      mx \<le> m \<and> (\<forall>d \<in> set (deltas_from enc x (take i xs)). d \<le> m))"
  using assms
proof (induction i arbitrary: rest mx)
  case (Suc i)
  let ?d = "enc (xs ! i - (x # xs) ! i)"
  let ?ds = "(x # take (Suc i) xs) @ rest"
  have nths: "?ds ! Suc i = xs ! i" "?ds ! i = (x # xs) ! i"
    using Suc.prems by (auto simp: nth_append nth_Cons')
  have upd: "?ds[Suc i := ?d] = (x # take i xs) @ ?d # rest"
    using Suc.prems by (simp add: take_Suc_conv_app_nth list_update_append)
  show ?case
    using Suc.prems Suc.IH [of "?d # rest" "if ?d > mx then ?d else mx"]
    by (simp only: delta_loop.simps Let_def nths upd) (auto simp: deltas_from_take)
qed simp

lemma delta_loop_whole:
  "fst (delta_loop enc (length xs) (x # xs) mx) = x # deltas_from enc x xs"
  "snd (delta_loop enc (length xs) (x # xs) mx) \<le> m \<longleftrightarrow>
     mx \<le> m \<and> (\<forall>d \<in> set (deltas_from enc x xs). d \<le> m)"
  using delta_loop_list [of "length xs" xs enc x "[]" mx m] by simp_all

lemma same_deltas_replicate:
  assumes "same_deltas (d0 # d # ds)"
  shows "d # ds = replicate (Suc (length ds)) d"
  using assms by (induction ds) (auto simp: same_deltas_def)

subsection \<open>Constant deltas\<close>

text \<open>\<open>acc := first; for i := range dst { dst[i] = acc; acc += delta }\<close>.\<close>

fun run_loop :: "u64 \<Rightarrow> u64 \<Rightarrow> i64 list \<Rightarrow> i64 list" where
  "run_loop acc delta [] = []"
| "run_loop acc delta (_ # dst) = acc # run_loop (acc + delta) delta dst"

lemma length_run_loop [simp]: "length (run_loop acc delta dst) = length dst"
  by (induction dst arbitrary: acc) auto

lemma run_loop_sums:
  "length dst = Suc n \<Longrightarrow> run_loop acc (dec d) dst = acc # sums_from dec acc (replicate n d)"
proof (induction n arbitrary: acc dst)
  case 0
  then show ?case by (cases dst) auto
next
  case (Suc n)
  then show ?case by (cases dst) auto
qed

lemma run_loop_zero: "run_loop acc 0 dst = replicate (length dst) acc"
  by (induction dst) auto

subsection \<open>Decoding into a slice of the counted size\<close>

lemma CountBytes_decode:
  assumes "CountBytes b = Inr n" and "length dst = n"
  shows "\<exists>vs. DecodeBytesBigEndian dst b = Inr (vs, n) \<and> length vs = n"
proof -
  have "length b mod 8 = 0" by (rule CountBytes_multiple [OF assms(1)])
  from bytes_be_words [OF this] obtain ws where b: "b = be_words ws" ..
  then have "n = length (decode_words ws)" using assms(1) CountBytes_words [of ws] by simp
  then show ?thesis
    using DecodeBytesBigEndian_words [of dst ws] assms(2) b by simp
qed

lemma countBytes_loop_error: "countBytes_loop b c = Inl e \<Longrightarrow> \<exists>m. e = Err m"
proof (induction b c rule: countBytes_loop.induct)
  case (1 b count)
  then show ?case
    by (subst (asm) countBytes_loop.simps) (auto simp: Let_def split: if_splits)
qed

lemma CountBytes_error: "CountBytes b = Inl e \<Longrightarrow> \<exists>m. e = Err m"
  by (auto simp: CountBytes_def dest: countBytes_loop_error)

lemma encoding_cases:
  fixes e :: u8
  obtains "e = 0" | "e = 1" | "e = 2" | "e > 2"
proof -
  have "unat e = 0 \<or> unat e = 1 \<or> unat e = 2 \<or> unat e > 2" by linarith
  moreover have "unat (1 :: u8) = 1" "unat (2 :: u8) = 2" "unat (0 :: u8) = 0" by simp_all
  ultimately show ?thesis
    using that by (metis word_unat_eq_iff word_less_nat_alt)
qed

subsection \<open>Overlong runs\<close>

text \<open>The run length an RLE block announces, when its header and its two varints can be read.\<close>

definition rle_repeat :: "u8 list \<Rightarrow> u64 option" where
  "rle_repeat b =
     (let (_, n) = uvarint (drop 9 b); (c, m) = uvarint (drop (9 + nat n) b)
      in if length b < 9 \<or> n \<le> 0 \<or> m \<le> 0 then None else Some c)"

text \<open>That count, plus \<open>extra\<close>, is not an \<open>int\<close>, and it is more than the destination can hold.\<close>

definition rle_overlong :: "u64 \<Rightarrow> u8 list \<Rightarrow> i64 slice \<Rightarrow> bool" where
  "rle_overlong extra b dst =
     (case rle_repeat b of None \<Rightarrow> False
      | Some c \<Rightarrow> 2 ^ 63 \<le> unat (c + extra) \<and> sl_cap dst < unat (c + extra))"

subsection \<open>The contract of a value codec\<close>

text \<open>
  What a block relies on: a list of encodable values is encoded into a fresh slice without an
  error, and its encoding is decoded to the same list, whatever slice it is decoded into.
\<close>

locale array_codec =
  fixes encode :: "'v list \<Rightarrow> u8 slice \<Rightarrow> u8 list res"
    and decode :: "u8 list \<Rightarrow> 'v slice \<Rightarrow> 'v list res"
    and encodable :: "'v list \<Rightarrow> bool"
  assumes read_back: "encodable src \<Longrightarrow>
    \<exists>blk. encode src nil_slice = Inr blk \<and> decode blk dst = Inr src"
begin

lemma encode_injective:
  assumes "encodable src" "encodable src'" "encode src nil_slice = encode src' nil_slice"
  shows "src = src'"
proof -
  obtain blk where "encode src nil_slice = Inr blk" "decode blk nil_slice = Inr src"
    using read_back [OF assms(1), of nil_slice] by blast
  moreover obtain blk' where "encode src' nil_slice = Inr blk'" "decode blk' nil_slice = Inr src'"
    using read_back [OF assms(2), of nil_slice] by blast
  ultimately show ?thesis using assms(3) by simp
qed

text \<open>The encoded bytes are fixed before the destination is known.\<close>

lemma encoded_reads:
  assumes "encodable src"
  obtains blk where "encode src nil_slice = Inr blk" "\<And>dst. decode blk dst = Inr src"
proof -
  obtain blk where blk: "encode src nil_slice = Inr blk"
    using read_back [OF assms] by blast
  have "decode blk dst = Inr src" for dst
    using read_back [OF assms, of dst] blk by auto
  then show ?thesis using that blk by blast
qed

end

text \<open>Lists short enough to have a Go length.\<close>

definition go_length :: "'a list \<Rightarrow> bool" where
  "go_length xs \<longleftrightarrow> length xs < 2 ^ 63"

end
