(* ===== verification/BatchInteger.thy ===== *)
theory BatchInteger
  imports BatchCommon
begin

text \<open>
  The batch integer codec, \<open>src/backend/tsdb/engine/tsm1/batch_integer.go\<close>, with the zig-zag
  transform of \<open>encoding.go\<close>. A block is a header byte with the encoding in its high four bits
  (0 uncompressed, 1 simple8b, 2 run length) and a payload. \<open>IntegerArrayEncodeAll\<close> takes the output
  slice \<open>b\<close>, whose contents and spare capacity it may reuse, and returns the bytes visible in the slice
  it returns. The source array, which the code uses as scratch space, is not returned.
\<close>

unbundle bit_operations_syntax

subsection \<open>Model\<close>

definition ZigZagEncode :: "i64 \<Rightarrow> u64" where
  "ZigZagEncode x = push_bit 1 x XOR signed_drop_bit 63 x"

definition ZigZagDecode :: "u64 \<Rightarrow> i64" where
  "ZigZagDecode v = drop_bit 1 v XOR signed_drop_bit 63 (push_bit 63 (v AND 1))"

definition intUncompressed :: u8 where "intUncompressed = 0"
definition intCompressedSimple :: u8 where "intCompressedSimple = 1"
definition intCompressedRLE :: u8 where "intCompressedRLE = 2"

lemmas int_encodings = intUncompressed_def intCompressedSimple_def intCompressedRLE_def

definition int_delta_loop :: "nat \<Rightarrow> u64 list \<Rightarrow> u64 \<Rightarrow> u64 list \<times> u64" where
  "int_delta_loop = delta_loop ZigZagEncode"

definition int_put_rle :: "u64 list \<Rightarrow> u8 slice \<Rightarrow> u8 list res" where
  "int_put_rle ds b =
     rbind (blits 0 [[push_bit 4 intCompressedRLE], put_be_u64 (ds ! 0), put_uvarint (ds ! 1),
                     put_uvarint (of_nat (length ds - 1))] (grow_slice 31 b))
       (\<lambda>(b', i). Inr (take i b'))"

definition int_put_uncompressed :: "u64 list \<Rightarrow> u8 slice \<Rightarrow> u8 list res" where
  "int_put_uncompressed ds b =
     (let sz = 1 + length ds * 8
      in rbind (blits 0 ([push_bit 4 intUncompressed] # map put_be_u64 ds) (grow_slice sz b))
           (\<lambda>(b', _). Inr (take sz b')))"

text \<open>Unlike the other two, this branch returns the whole of \<open>b\<close>.\<close>

definition int_put_simple :: "u64 list \<Rightarrow> u8 slice \<Rightarrow> u8 list res" where
  "int_put_simple ds b =
     rbind (EncodeAll (drop 1 ds)) (\<lambda>encoded.
       let sz = 1 + (length encoded + 1) * 8
       in rbind (blits 0 ([push_bit 4 intCompressedSimple] # put_be_u64 (ds ! 0) # map put_be_u64 encoded)
                   (grow_slice sz b))
            (\<lambda>(b', _). Inr b'))"

definition IntegerArrayEncodeAll :: "i64 list \<Rightarrow> u8 slice \<Rightarrow> u8 list res" where
  "IntegerArrayEncodeAll src b =
     (if src = [] then Inr []
      else
        let (ds, mx) = int_delta_loop (length src - 1) src 0;
            ds = ds[0 := ZigZagEncode (ds ! 0)]
        in if length ds > 2 \<and> same_deltas ds then int_put_rle ds b
           else if mx > MaxValue then int_put_uncompressed ds b
           else int_put_simple ds b)"

definition UnsignedArrayEncodeAll :: "u64 list \<Rightarrow> u8 slice \<Rightarrow> u8 list res" where
  "UnsignedArrayEncodeAll src b = IntegerArrayEncodeAll src b"

fun int_uncompressed_loop :: "u8 list \<Rightarrow> nat \<Rightarrow> i64 \<Rightarrow> i64 list \<Rightarrow> i64 list res" where
  "int_uncompressed_loop b i prev [] = Inr []"
| "int_uncompressed_loop b i prev (_ # dst) =
     (if length (drop (i * 8) b) < 8 then Inl Panic
      else let prev' = prev + ZigZagDecode (be_u64 (drop (i * 8) b))
           in rbind (int_uncompressed_loop b (i + 1) prev' dst) (\<lambda>rest. Inr (prev' # rest)))"

definition integerBatchDecodeAllUncompressed :: "u8 list \<Rightarrow> i64 slice \<Rightarrow> i64 list res" where
  "integerBatchDecodeAllUncompressed blk dst =
     (let b = drop 1 blk
      in if length b mod 8 \<noteq> 0 then Inl (Err ''IntegerArrayDecodeAll: expected multiple of 8 bytes'')
         else int_uncompressed_loop b 0 0 (resize_dst (length b div 8) dst))"

definition integerBatchDecodeAllSimple :: "u8 list \<Rightarrow> i64 slice \<Rightarrow> i64 list res" where
  "integerBatchDecodeAllSimple blk dst =
     (let b = drop 1 blk
      in if length b < 8
         then Inl (Err ''IntegerArrayDecodeAll: not enough data to decode packed value'')
         else rbind (CountBytes (drop 8 b)) (\<lambda>c.
           let count = c + 1;
               d = (resize_dst count dst)[0 := ZigZagDecode (be_u64 b)]
           in rbind (DecodeBytesBigEndian (drop 1 d) (drop 8 b)) (\<lambda>(buf, n).
             if n \<noteq> count - 1
             then Inl (Err ''IntegerArrayDecodeAll: unexpected number of values decoded'')
             else Inr (d ! 0 # sums_from ZigZagDecode (d ! 0) buf))))"

definition integerBatchDecodeAllRLE :: "u8 list \<Rightarrow> i64 slice \<Rightarrow> i64 list res" where
  "integerBatchDecodeAllRLE blk dst =
     (let b = drop 1 blk
      in if length b < 8
         then Inl (Err ''IntegerArrayDecodeAll: not enough data to decode RLE starting value'')
         else
           let first = ZigZagDecode (be_u64 b);
               (value, n) = uvarint (drop 8 b)
           in if n \<le> 0 then Inl (Err ''IntegerArrayDecodeAll: invalid RLE delta value'')
              else
                let delta = ZigZagDecode value;
                    (repeat, m) = uvarint (drop (8 + nat n) b)
                in if m \<le> 0 then Inl (Err ''IntegerArrayDecodeAll: invalid RLE repeat value'')
                   else rbind (resize_dst_u64 (repeat + 1) dst) (\<lambda>d.
                     Inr (if delta = 0 then map (\<lambda>_. first) d else run_loop first delta d)))"

definition integerBatchDecodeAllInvalid :: "u8 list \<Rightarrow> i64 slice \<Rightarrow> i64 list res" where
  "integerBatchDecodeAllInvalid blk dst = Inl (Err ''unknown encoding'')"

definition integerBatchDecoderFunc :: "(u8 list \<Rightarrow> i64 slice \<Rightarrow> i64 list res) list" where
  "integerBatchDecoderFunc =
     [integerBatchDecodeAllUncompressed, integerBatchDecodeAllSimple, integerBatchDecodeAllRLE,
      integerBatchDecodeAllInvalid]"

definition IntegerArrayDecodeAll :: "u8 list \<Rightarrow> i64 slice \<Rightarrow> i64 list res" where
  "IntegerArrayDecodeAll b dst =
     (if b = [] then Inr []
      else let encoding = drop_bit 4 (b ! 0);
               encoding = (if encoding > intCompressedRLE then 3 else encoding)
           in (integerBatchDecoderFunc ! unat (encoding AND 3)) b dst)"

definition UnsignedArrayDecodeAll :: "u8 list \<Rightarrow> u64 slice \<Rightarrow> u64 list res" where
  "UnsignedArrayDecodeAll b dst =
     (if b = [] then Inr []
      else let encoding = drop_bit 4 (b ! 0);
               encoding = (if encoding > intCompressedRLE then 3 else encoding)
           in (integerBatchDecoderFunc ! unat (encoding AND 3)) b dst)"

subsection \<open>Zig-zag\<close>

lemma bit_sign_fill: "bit (signed_drop_bit 63 (x :: i64)) n \<longleftrightarrow> n < 64 \<and> bit x 63"
  by (cases "n = 0") (auto simp: bit_signed_drop_bit_iff dest: bit_imp_le_length)

lemma bit_ZigZagEncode:
  "bit (ZigZagEncode x) n \<longleftrightarrow> n < 64 \<and> ((0 < n \<and> bit x (n - 1)) \<noteq> bit x 63)"
proof -
  have "bit (push_bit 1 x) n \<longleftrightarrow> 0 < n \<and> n < 64 \<and> bit x (n - 1)"
    by (simp only: bit_push_bit_iff possible_bit_word) auto
  moreover have "bit (signed_drop_bit 63 x) n \<longleftrightarrow> n < 64 \<and> bit x 63"
    by (simp only: bit_sign_fill)
  ultimately show ?thesis
    by (simp only: ZigZagEncode_def bit_xor_iff) blast
qed

lemma bit_ZigZagDecode:
  "bit (ZigZagDecode v) n \<longleftrightarrow> n < 64 \<and> (bit v (Suc n) \<noteq> bit v 0)"
proof -
  have "bit (push_bit 63 (v AND 1)) 63 \<longleftrightarrow> bit v 0"
    by (simp only: bit_push_bit_iff possible_bit_word bit_and_iff bit_1_iff) simp
  then have "bit (signed_drop_bit 63 (push_bit 63 (v AND 1))) n \<longleftrightarrow> n < 64 \<and> bit v 0"
    by (simp only: bit_sign_fill)
  moreover have "bit (drop_bit 1 v) n \<longleftrightarrow> n < 64 \<and> bit v (Suc n)"
    by (auto simp: bit_drop_bit_eq dest: bit_imp_le_length)
  ultimately show ?thesis
    by (simp only: ZigZagDecode_def bit_xor_iff) blast
qed

lemma ZigZag_inverse [simp]: "ZigZagDecode (ZigZagEncode x) = x"
proof (rule bit_word_eqI)
  fix n
  assume "n < LENGTH(64)"
  then show "bit (ZigZagDecode (ZigZagEncode x)) n = bit x n"
    by (cases "n = 63") (auto simp: bit_ZigZagEncode bit_ZigZagDecode)
qed

lemma ZigZag_inverse_encode [simp]: "ZigZagEncode (ZigZagDecode v) = v"
proof (rule bit_word_eqI)
  fix n
  assume "n < LENGTH(64)"
  moreover have "\<not> bit v 64" using bit_imp_le_length [of v 64] by auto
  ultimately show "bit (ZigZagEncode (ZigZagDecode v)) n = bit v n"
    by (cases n) (auto simp: bit_ZigZagEncode bit_ZigZagDecode)
qed

subsection \<open>The encoder by its cases\<close>

lemma IntegerArrayEncodeAll_cases:
  assumes "src \<noteq> []" and "ds = deltas_from ZigZagEncode 0 src"
  shows "IntegerArrayEncodeAll src b =
    (if length ds > 2 \<and> same_deltas ds then int_put_rle ds b
     else if \<not> (\<forall>d \<in> set (drop 1 ds). d \<le> MaxValue) then int_put_uncompressed ds b
     else int_put_simple ds b)"
proof -
  obtain x xs where src: "src = x # xs" using assms(1) by (cases src) auto
  obtain ds' mx where loop: "int_delta_loop (length xs) (x # xs) 0 = (ds', mx)" by fastforce
  have ds': "ds' = x # deltas_from ZigZagEncode x xs"
    using loop delta_loop_whole(1) [of ZigZagEncode xs x 0] by (simp add: int_delta_loop_def)
  have "mx \<le> MaxValue \<longleftrightarrow> (\<forall>d \<in> set (deltas_from ZigZagEncode x xs). d \<le> MaxValue)"
    using loop delta_loop_whole(2) [of ZigZagEncode xs x 0 MaxValue] by (simp add: int_delta_loop_def)
  then show ?thesis
    by (auto simp: IntegerArrayEncodeAll_def src loop ds' assms(2) Let_def not_le)
qed

lemma int_put_rle_bytes:
  assumes "sl_wf b"
  shows "int_put_rle ds b =
    Inr (0x20 # put_be_u64 (ds ! 0) @ put_uvarint (ds ! 1) @ put_uvarint (of_nat (length ds - 1)))"
proof -
  have "length (put_uvarint (ds ! 1)) \<le> 10" "length (put_uvarint (of_nat (length ds - 1))) \<le> 10"
    by (rule length_put_uvarint)+
  then show ?thesis
    using assms by (simp add: int_put_rle_def blits_taken int_encodings)
qed

lemma int_put_uncompressed_bytes:
  assumes "sl_wf b"
  shows "int_put_uncompressed ds b = Inr (0 # be_words ds)"
  using assms by (simp add: int_put_uncompressed_def blits_0 int_encodings concat_map_put)

lemma int_put_simple_bytes:
  assumes "sl_wf b" and "EncodeAll (drop 1 ds) = Inr encoded"
  shows "int_put_simple ds b =
    Inr (0x10 # put_be_u64 (ds ! 0) @ be_words encoded @ drop (9 + 8 * length encoded) (sl_list b))"
proof -
  let ?sz = "1 + (length encoded + 1) * 8"
  have "drop ?sz (grow_slice ?sz b) = drop ?sz (sl_list b)"
    using assms(1) by (auto simp: grow_slice_def sl_list_def sl_cap_def sl_wf_def)
  then show ?thesis
    using assms by (simp add: int_put_simple_def blits_0 int_encodings concat_map_put Let_def ac_simps)
qed

subsection \<open>The decoders on encoded blocks\<close>

lemma IntegerArrayDecodeAll_dispatch:
  "IntegerArrayDecodeAll (0 # bs) dst = integerBatchDecodeAllUncompressed (0 # bs) dst"
  "IntegerArrayDecodeAll (0x10 # bs) dst = integerBatchDecodeAllSimple (0x10 # bs) dst"
  "IntegerArrayDecodeAll (0x20 # bs) dst = integerBatchDecodeAllRLE (0x20 # bs) dst"
  by (simp_all add: IntegerArrayDecodeAll_def integerBatchDecoderFunc_def int_encodings)

lemma int_uncompressed_loop_words:
  assumes "i + length dst = length ws"
  shows "int_uncompressed_loop (be_words ws) i prev dst = Inr (sums_from ZigZagDecode prev (drop i ws))"
  using assms
proof (induction dst arbitrary: i prev)
  case (Cons d dst)
  then have i: "i < length ws" by simp
  have "drop (i * 8) (be_words ws) = be_words (drop i ws)"
    using drop_be_words [of i ws] by (simp only: mult.commute)
  then show ?case
    using Cons.IH [of "Suc i"] Cons.prems i Cons_nth_drop_Suc [OF i, symmetric]
    by (simp add: Let_def)
qed simp

lemma integer_uncompressed_read:
  "integerBatchDecodeAllUncompressed (h # be_words ws) dst = Inr (sums_from ZigZagDecode 0 ws)"
  using int_uncompressed_loop_words [of 0 "resize_dst (length ws) dst" ws 0]
  by (simp add: integerBatchDecodeAllUncompressed_def)

lemma integer_simple_words:
  "integerBatchDecodeAllSimple (h # put_be_u64 d @ be_words ws) dst =
    Inr (sums_from ZigZagDecode 0 (d # decode_words ws))"
  by (simp add: integerBatchDecodeAllSimple_def Let_def CountBytes_words DecodeBytesBigEndian_words)

lemma integer_simple_read:
  assumes "EncodeAll vs = Inr ws"
  shows "integerBatchDecodeAllSimple (h # put_be_u64 d @ be_words ws) dst =
    Inr (sums_from ZigZagDecode 0 (d # vs))"
  using s8b.count_encoded [OF assms] s8b.decode_encoded [OF assms]
  by (simp add: integerBatchDecodeAllSimple_def Let_def)

lemma integer_rle_read:
  assumes "Suc n < 2 ^ 63"
  shows "integerBatchDecodeAllRLE (h # put_be_u64 d0 @ put_uvarint d @ put_uvarint (of_nat n)) dst =
    Inr (sums_from ZigZagDecode 0 (d0 # replicate n d))"
proof -
  have count: "unat (of_nat n + 1 :: u64) = Suc n"
    using assms unat_of_nat_u64 [of "Suc n"] by (simp add: add.commute)
  let ?dst = "resize_dst (Suc n) dst"
  have "run_loop (ZigZagDecode d0) (ZigZagDecode d) ?dst = sums_from ZigZagDecode 0 (d0 # replicate n d)"
    using run_loop_sums [of ?dst n "ZigZagDecode d0" ZigZagDecode d] by simp
  moreover have "resize_dst_u64 (of_nat n + 1) dst = Inr ?dst"
    using assms by (simp only: resize_dst_u64_cases count simp_thms if_True)
  moreover have "map (\<lambda>_. ZigZagDecode d0) ?dst = run_loop (ZigZagDecode d0) 0 ?dst"
    by (simp add: run_loop_zero map_replicate_const)
  ultimately show ?thesis
    using uvarint_put [of "of_nat n" "[]"]
    by (cases "ZigZagDecode d = 0") (simp_all add: integerBatchDecodeAllRLE_def Let_def uvarint_put)
qed

lemma integer_rle_case:
  assumes "sl_wf b" "length ds > 2" "same_deltas ds" "length ds < 2 ^ 63"
  shows "\<exists>blk. int_put_rle ds b = Inr blk \<and> IntegerArrayDecodeAll blk dst = Inr (sums_from ZigZagDecode 0 ds)"
proof -
  obtain d0 d ds' where ds: "ds = d0 # d # ds'"
    using assms(2) by (cases ds; cases "tl ds") auto
  let ?n = "Suc (length ds')"
  have rep: "d # ds' = replicate ?n d" using same_deltas_replicate assms(3) ds by simp
  have "Suc ?n < 2 ^ 63" using assms(4) ds by (simp only: list.size add_Suc_right add_0_right)
  then have "IntegerArrayDecodeAll (0x20 # put_be_u64 d0 @ put_uvarint d @ put_uvarint (of_nat ?n)) dst
    = Inr (sums_from ZigZagDecode 0 (d0 # replicate ?n d))"
    by (simp only: IntegerArrayDecodeAll_dispatch integer_rle_read)
  also have "\<dots> = Inr (sums_from ZigZagDecode 0 ds)"
    by (simp only: rep [symmetric] ds)
  finally show ?thesis
    using int_put_rle_bytes [OF assms(1), of ds] ds by simp
qed

lemma integer_uncompressed_case:
  assumes "sl_wf b"
  shows "\<exists>blk. int_put_uncompressed ds b = Inr blk \<and>
    IntegerArrayDecodeAll blk dst = Inr (sums_from ZigZagDecode 0 ds)"
  by (simp only: int_put_uncompressed_bytes [OF assms] sum.inject ex_simps simp_thms
      IntegerArrayDecodeAll_dispatch integer_uncompressed_read)

lemma integer_simple_case:
  assumes "sl_wf b" "sl_len b \<le> 9" "ds \<noteq> []" "\<forall>d \<in> set (drop 1 ds). d \<le> MaxValue"
  shows "\<exists>blk. int_put_simple ds b = Inr blk \<and>
    IntegerArrayDecodeAll blk dst = Inr (sums_from ZigZagDecode 0 ds)"
proof -
  obtain ws where ws: "EncodeAll (drop 1 ds) = Inr ws" using s8b.encode_total [OF assms(4)] ..
  have "drop (9 + 8 * length ws) (sl_list b) = []" using assms by simp
  then have "int_put_simple ds b = Inr (0x10 # put_be_u64 (ds ! 0) @ be_words ws)"
    using int_put_simple_bytes [OF assms(1) ws] by simp
  moreover have "ds ! 0 # drop 1 ds = ds" using assms(3) by (cases ds) auto
  ultimately show ?thesis
    by (simp only: sum.inject ex_simps simp_thms IntegerArrayDecodeAll_dispatch integer_simple_read [OF ws])
qed

lemma integer_read_back:
  assumes "sl_wf b" "sl_len b \<le> 9" "length src < 2 ^ 63"
  shows "\<exists>blk. IntegerArrayEncodeAll src b = Inr blk \<and> IntegerArrayDecodeAll blk dst = Inr src"
proof (cases "src = []")
  case True
  then show ?thesis by (simp add: IntegerArrayEncodeAll_def IntegerArrayDecodeAll_def)
next
  case False
  define ds where "ds = deltas_from ZigZagEncode 0 src"
  have "ds \<noteq> []" "length ds < 2 ^ 63"
    using False assms(3) length_deltas_from [of ZigZagEncode 0 src, folded ds_def] by auto
  note facts = this integer_rle_case [OF assms(1) _ _ this(2), of dst]
    integer_uncompressed_case [OF assms(1), of ds dst] integer_simple_case [OF assms(1,2) this(1), of dst]
  have sums: "sums_from ZigZagDecode 0 ds = src"
    unfolding ds_def by (rule sums_deltas) simp
  show ?thesis
    unfolding IntegerArrayEncodeAll_cases [OF False ds_def, of b]
    using facts(3-5) sums by simp
qed

interpretation int_codec: array_codec IntegerArrayEncodeAll IntegerArrayDecodeAll go_length
  by unfold_locales (rule integer_read_back; simp add: go_length_def)

lemma unsigned_read_back:
  assumes "sl_wf b" "sl_len b \<le> 9" "length src < 2 ^ 63"
  shows "\<exists>blk. UnsignedArrayEncodeAll src b = Inr blk \<and> UnsignedArrayDecodeAll blk dst = Inr src"
  using integer_read_back [OF assms, of dst]
  by (simp add: UnsignedArrayEncodeAll_def UnsignedArrayDecodeAll_def IntegerArrayDecodeAll_def)

interpretation unsigned_codec: array_codec UnsignedArrayEncodeAll UnsignedArrayDecodeAll go_length
  by unfold_locales (rule unsigned_read_back; simp add: go_length_def)

subsection \<open>Arbitrary blocks\<close>

lemma integer_uncompressed_outcome:
  assumes "integerBatchDecodeAllUncompressed blk dst = Inl e"
  shows "\<exists>m. e = Err m"
proof (cases "length (drop 1 blk) mod 8 = 0")
  case True
  from bytes_be_words [OF this] obtain ws where ws: "drop 1 blk = be_words ws" ..
  then have "integerBatchDecodeAllUncompressed blk dst = integerBatchDecodeAllUncompressed (0 # be_words ws) dst"
    by (simp add: integerBatchDecodeAllUncompressed_def)
  then show ?thesis using assms by (simp add: integer_uncompressed_read)
next
  case False
  then show ?thesis using assms by (auto simp: integerBatchDecodeAllUncompressed_def)
qed

lemma integer_simple_outcome:
  assumes "integerBatchDecodeAllSimple blk dst = Inl e"
  shows "\<exists>m. e = Err m"
proof (cases "CountBytes (drop 8 (drop 1 blk))")
  case (Inl e')
  then show ?thesis
    using assms CountBytes_error [OF Inl]
    by (auto simp: integerBatchDecodeAllSimple_def Let_def split: if_splits)
next
  case (Inr n)
  let ?d = "(resize_dst (n + 1) dst)[0 := ZigZagDecode (be_u64 (drop 1 blk))]"
  obtain vs where "DecodeBytesBigEndian (drop 1 ?d) (drop 8 (drop 1 blk)) = Inr (vs, n)"
    using CountBytes_decode [OF Inr, of "drop 1 ?d"] by auto
  then show ?thesis
    using assms Inr by (auto simp: integerBatchDecodeAllSimple_def Let_def split: if_splits)
qed

lemma integer_rle_outcome:
  "(integerBatchDecodeAllRLE blk dst = Inl Panic \<longleftrightarrow> rle_overlong 1 blk dst) \<and>
   integerBatchDecodeAllRLE blk dst \<noteq> Inl Unsafe"
proof (cases "length blk < 9 \<or> snd (uvarint (drop 9 blk)) \<le> 0 \<or>
    snd (uvarint (drop (9 + nat (snd (uvarint (drop 9 blk)))) blk)) \<le> 0")
  case True
  then show ?thesis
    by (auto simp: integerBatchDecodeAllRLE_def rle_repeat_def rle_overlong_def Let_def drop_drop split: prod.splits if_splits)
next
  case False
  then obtain v n c m where v: "uvarint (drop 9 blk) = (v, n)" "uvarint (drop (9 + nat n) blk) = (c, m)"
      "\<not> length blk < 9" "\<not> n \<le> 0" "\<not> m \<le> 0"
    by (metis prod.collapse)
  moreover have "\<not> length (drop 1 blk) < 8" using v(3) by simp
  ultimately show ?thesis
    by (simp add: integerBatchDecodeAllRLE_def rle_repeat_def rle_overlong_def Let_def resize_dst_u64_cases
        not_le not_less)
qed

subsection \<open>Properties\<close>

text \<open>
  Integer blocks round trip. For every list of 64-bit integers and every output slice of
  length at most nine (the callers pass a nil slice) \<open>IntegerArrayEncodeAll\<close> succeeds, and
  \<open>IntegerArrayDecodeAll\<close> recovers the list whatever slice it decodes into. Deltas and sums wrap, so
  no bound on the values is needed.
\<close>

theorem IntegerArray_roundtrip:
  assumes "sl_wf b" "sl_len b \<le> 9" "length src < 2 ^ 63"
  shows "\<exists>blk. IntegerArrayEncodeAll src b = Inr blk \<and> IntegerArrayDecodeAll blk dst = Inr src"
  using assms by (rule integer_read_back)

theorem IntegerArray_roundtrip_witness:
  "\<exists>blk. IntegerArrayEncodeAll [3, - 7, 0x8000000000000000] nil_slice = Inr blk \<and>
     IntegerArrayDecodeAll blk nil_slice = Inr [3, - 7, 0x8000000000000000]"
  by (rule IntegerArray_roundtrip) simp_all

text \<open>
  Unsigned blocks round trip through the reinterpreted integer codec.
\<close>

theorem UnsignedArray_roundtrip:
  assumes "sl_wf b" "sl_len b \<le> 9" "length src < 2 ^ 63"
  shows "\<exists>blk. UnsignedArrayEncodeAll src b = Inr blk \<and> UnsignedArrayDecodeAll blk dst = Inr src"
  using assms by (rule unsigned_read_back)

theorem UnsignedArray_roundtrip_witness:
  "\<exists>blk. UnsignedArrayEncodeAll [1, 2, 3] nil_slice = Inr blk \<and>
     UnsignedArrayDecodeAll blk nil_slice = Inr [1, 2, 3]"
  by (rule UnsignedArray_roundtrip) simp_all


text \<open>
  The simple8b branch of \<open>IntegerArrayEncodeAll\<close> returns \<open>b\<close> and not \<open>b[:sz]\<close>: whatever a longer
  output slice held behind the encoded words stays in the returned block. Encoding the single
  value 5 into a slice of 17 zero bytes gives a block that decodes to 241 values.
\<close>

theorem IntegerArrayEncodeAll_keeps_tail:
  "IntegerArrayEncodeAll [5] (slice_of (replicate 17 0)) = Inr (0x10 # put_be_u64 10 @ replicate 8 0) \<and>
   IntegerArrayDecodeAll (0x10 # put_be_u64 10 @ replicate 8 0) nil_slice =
     Inr (5 # sums_from ZigZagDecode 5 (replicate 240 1))"
proof
  have enc0: "EncodeAll [] = Inr []" using s8b.encode_total [of "[]"] s8b.encode_length [of "[]"] by auto
  have zz: "ZigZagEncode 5 = 10" "ZigZagDecode 10 = 5" by (simp_all add: ZigZagEncode_def ZigZagDecode_def)
  have "IntegerArrayEncodeAll [5] (slice_of (replicate 17 0)) =
      int_put_simple [10] (slice_of (replicate 17 0))"
    by (simp add: IntegerArrayEncodeAll_def int_delta_loop_def zz)
  also have "\<dots> = Inr (0x10 # put_be_u64 10 @ replicate 8 0)"
    using int_put_simple_bytes [of "slice_of (replicate 17 0)" "[10]" "[]"] enc0 by simp
  finally show "IntegerArrayEncodeAll [5] (slice_of (replicate 17 0)) = Inr (0x10 # put_be_u64 10 @ replicate 8 0)" .
  have "replicate 8 0 = be_words [0]" by (simp add: put_be_u64_def numeral_eq_Suc)
  then show "IntegerArrayDecodeAll (0x10 # put_be_u64 10 @ replicate 8 0) nil_slice =
      Inr (5 # sums_from ZigZagDecode 5 (replicate 240 1))"
    using integer_simple_words [of "0x10" 10 "[0]" nil_slice]
    by (simp only: IntegerArrayDecodeAll_dispatch decode_words_simps decode_word_runs append_Nil2
        sums_from.simps zz add_0)
qed

end
