(* ===== verification/BatchTimestamp.thy ===== *)
theory BatchTimestamp
  imports BatchCommon
begin

text \<open>
  The batch timestamp codec, \<open>src/backend/tsdb/engine/tsm1/batch_timestamp.go\<close>. Deltas are not
  zig-zagged, and the largest power of ten up to \<open>10^12\<close> that divides all of them is divided out; its
  exponent is in the low four bits of the header byte. \<open>math.Log10\<close> is applied to the powers of ten
  from \<open>1\<close> to \<open>10^12\<close> only, where it is exact, and \<open>math.Pow10\<close> to exponents below 16: both are integer
  functions here.
\<close>

unbundle bit_operations_syntax

subsection \<open>Model\<close>

definition timeUncompressed :: u8 where "timeUncompressed = 0"
definition timeCompressedPackedSimple :: u8 where "timeCompressedPackedSimple = 1"
definition timeCompressedRLE :: u8 where "timeCompressedRLE = 2"

lemmas time_encodings = timeUncompressed_def timeCompressedPackedSimple_def timeCompressedRLE_def

definition time_delta_loop :: "nat \<Rightarrow> u64 list \<Rightarrow> u64 \<Rightarrow> u64 list \<times> u64" where
  "time_delta_loop = delta_loop (\<lambda>d. d)"

text \<open>\<open>for div > 1 && v%div != 0 { div /= 10 }\<close>, and the loop that does this for every delta.\<close>

function lower_div :: "u64 \<Rightarrow> u64 \<Rightarrow> u64" where
  "lower_div v dv = (if dv > 1 \<and> v mod dv \<noteq> 0 then lower_div v (dv div 10) else dv)"
  by pat_completeness auto
termination
proof (relation "measure (\<lambda>(v, dv). unat dv)")
  fix v dv :: u64
  assume "dv > 1 \<and> v mod dv \<noteq> 0"
  then have "unat dv > 1" by (simp add: word_less_nat_alt)
  then have "unat (dv div 10) < unat dv" by (simp add: unat_div)
  then show "((v, dv div 10), v, dv) \<in> measure (\<lambda>(v, dv). unat dv)" by simp
qed simp

declare lower_div.simps [simp del]

fun find_div :: "u64 list \<Rightarrow> u64 \<Rightarrow> u64" where
  "find_div [] dv = dv"
| "find_div (v # vs) dv = (if dv > 1 then find_div vs (lower_div v dv) else dv)"

definition pow10 :: "nat \<Rightarrow> u64" where
  "pow10 k = 10 ^ k"

function log10 :: "u64 \<Rightarrow> u8" where
  "log10 dv = (if dv \<ge> 10 then log10 (dv div 10) + 1 else 0)"
  by pat_completeness auto
termination
proof (relation "measure unat")
  fix dv :: u64
  assume "dv \<ge> 10"
  then have "unat dv \<ge> 10" by (simp add: word_le_nat_alt)
  then show "(dv div 10, dv) \<in> measure unat" by (simp add: unat_div)
qed simp

declare log10.simps [simp del]

definition time_put_rle :: "u64 list \<Rightarrow> u8 slice \<Rightarrow> u8 list res" where
  "time_put_rle ds b =
     (let dv = lower_div (ds ! 1) (pow10 12);
          header = push_bit 4 timeCompressedRLE;
          (header, delta) = (if dv > 1 then (header OR log10 dv, ds ! 1 div dv) else (header, ds ! 1))
      in rbind (blits 0 [[header], put_be_u64 (ds ! 0), put_uvarint delta, put_uvarint (of_nat (length ds))]
                  (grow_slice 31 b))
           (\<lambda>(b', i). Inr (take i b')))"

definition time_put_uncompressed :: "u64 list \<Rightarrow> u8 slice \<Rightarrow> u8 list res" where
  "time_put_uncompressed ds b =
     (let sz = 1 + length ds * 8
      in rbind (blits 0 ([push_bit 4 timeUncompressed] # map put_be_u64 ds) (grow_slice sz b))
           (\<lambda>(b', _). Inr (take sz b')))"

definition time_put_simple :: "u64 list \<Rightarrow> u8 slice \<Rightarrow> u8 list res" where
  "time_put_simple ds b =
     (let dv = find_div (drop 1 ds) (pow10 12);
          gaps = (if dv > 1 then map (\<lambda>d. d div dv) (drop 1 ds) else drop 1 ds)
      in rbind (EncodeAll gaps) (\<lambda>encoded.
           let sz = 1 + (length encoded + 1) * 8
           in rbind (blits 0 ([push_bit 4 timeCompressedPackedSimple OR log10 dv] # put_be_u64 (ds ! 0)
                       # map put_be_u64 encoded) (grow_slice sz b))
                (\<lambda>(b', _). Inr (take sz b'))))"

definition TimeArrayEncodeAll :: "i64 list \<Rightarrow> u8 slice \<Rightarrow> u8 list res" where
  "TimeArrayEncodeAll src b =
     (if src = [] then Inr []
      else
        let (ds, mx) = (if length src > 1 then time_delta_loop (length src - 1) src 0 else (src, 0))
        in if length ds > 1 \<and> same_deltas ds then time_put_rle ds b
           else if mx > MaxValue then time_put_uncompressed ds b
           else time_put_simple ds b)"

fun time_uncompressed_loop :: "u8 list \<Rightarrow> nat \<Rightarrow> u64 \<Rightarrow> i64 list \<Rightarrow> i64 list res" where
  "time_uncompressed_loop b i prev [] = Inr []"
| "time_uncompressed_loop b i prev (_ # dst) =
     (if length (drop (i * 8) b) < 8 then Inl Panic
      else let prev' = prev + be_u64 (drop (i * 8) b)
           in rbind (time_uncompressed_loop b (i + 1) prev' dst) (\<lambda>rest. Inr (prev' # rest)))"

definition timeBatchDecodeAllUncompressed :: "u8 list \<Rightarrow> i64 slice \<Rightarrow> i64 list res" where
  "timeBatchDecodeAllUncompressed blk dst =
     (let b = drop 1 blk
      in if length b mod 8 \<noteq> 0 then Inl (Err ''TimeArrayDecodeAll: expected multiple of 8 bytes'')
         else time_uncompressed_loop b 0 0 (resize_dst (length b div 8) dst))"

definition timeBatchDecodeAllSimple :: "u8 list \<Rightarrow> i64 slice \<Rightarrow> i64 list res" where
  "timeBatchDecodeAllSimple b dst =
     (if length b < 9
      then Inl (Err ''TimeArrayDecodeAll: not enough data to decode packed timestamps'')
      else
        let dv = pow10 (unat (b ! 0 AND 0xF))
        in rbind (CountBytes (drop 9 b)) (\<lambda>c.
             let count = c + 1;
                 buf = (resize_dst count dst)[0 := be_u64 (drop 1 b)]
             in rbind (DecodeBytesBigEndian (drop 1 buf) (drop 9 b)) (\<lambda>(gaps, n).
                  if n \<noteq> count - 1
                  then Inl (Err ''TimeArrayDecodeAll: unexpected number of values decoded'')
                  else Inr (buf ! 0 #
                    (if dv > 1 then sums_from (\<lambda>g. g * dv) (buf ! 0) gaps
                     else sums_from (\<lambda>g. g) (buf ! 0) gaps)))))"

definition timeBatchDecodeAllRLE :: "u8 list \<Rightarrow> i64 slice \<Rightarrow> i64 list res" where
  "timeBatchDecodeAllRLE b dst =
     (if length b < 9
      then Inl (Err ''TimeArrayDecodeAll: not enough data to decode RLE starting value'')
      else
        let md = pow10 (unat (b ! 0 AND 0xF));
            first = be_u64 (drop 1 b);
            (delta, n) = uvarint (drop 9 b)
        in if n \<le> 0 then Inl (Err ''TimeArrayDecodeAll: invalid run length in decodeRLE'')
           else
             let (count, m) = uvarint (drop (9 + nat n) b)
             in if m \<le> 0 then Inl (Err ''TimeDecoder: invalid repeat value in decodeRLE'')
                else rbind (resize_dst_u64 count dst) (\<lambda>d. Inr (run_loop first (delta * md) d)))"

definition timeBatchDecodeAllInvalid :: "u8 list \<Rightarrow> i64 slice \<Rightarrow> i64 list res" where
  "timeBatchDecodeAllInvalid b dst = Inl (Err ''unknown encoding'')"

definition timeBatchDecoderFunc :: "(u8 list \<Rightarrow> i64 slice \<Rightarrow> i64 list res) list" where
  "timeBatchDecoderFunc =
     [timeBatchDecodeAllUncompressed, timeBatchDecodeAllSimple, timeBatchDecodeAllRLE,
      timeBatchDecodeAllInvalid]"

definition TimeArrayDecodeAll :: "u8 list \<Rightarrow> i64 slice \<Rightarrow> i64 list res" where
  "TimeArrayDecodeAll b dst =
     (if b = [] then Inr []
      else let encoding = drop_bit 4 (b ! 0);
               encoding = (if encoding > timeCompressedRLE then 3 else encoding)
           in (timeBatchDecoderFunc ! unat (encoding AND 3)) b dst)"

subsection \<open>Powers of ten\<close>

lemma unat_pow10:
  assumes "k \<le> 15"
  shows "unat (pow10 k) = 10 ^ k"
proof -
  have "(10 :: nat) ^ k \<le> 10 ^ 15" using assms by (intro power_increasing) simp_all
  then have "(10 :: nat) ^ k < 2 ^ 64" by simp
  moreover have "pow10 k = of_nat (10 ^ k)" by (simp add: pow10_def)
  ultimately show ?thesis by (simp only: unat_of_nat_u64)
qed

lemma pow10_div: "Suc k \<le> 15 \<Longrightarrow> pow10 (Suc k) div 10 = pow10 k"
  by (simp add: word_unat_eq_iff unat_div unat_pow10)

lemma pow10_gt_1: "k \<le> 15 \<Longrightarrow> pow10 k > 1 \<longleftrightarrow> k > 0"
  by (cases k) (simp_all add: word_less_nat_alt unat_pow10 Suc_lessI)

lemma pow10_0 [simp]: "pow10 0 = 1"
  by (simp add: pow10_def)

lemma pow10_dvd_mono:
  assumes "v mod pow10 k = 0" and "j \<le> k" and "k \<le> 15"
  shows "v mod pow10 j = 0"
proof -
  have "unat v mod 10 ^ k = 0"
    using assms(1,3) unat_pow10 [of k] unat_mod [of v "pow10 k"] by simp
  then have "10 ^ k dvd unat v" by (simp add: dvd_eq_mod_eq_0)
  then have "10 ^ j dvd unat v" using assms(2) le_imp_power_dvd dvd_trans by blast
  then show ?thesis
    using assms(2,3) by (simp add: word_unat_eq_iff unat_mod unat_pow10 dvd_eq_mod_eq_0)
qed

lemma lower_div_steps:
  "lower_div v (pow10 0) = pow10 0"
  "v mod pow10 k = 0 \<Longrightarrow> lower_div v (pow10 k) = pow10 k"
  "v mod pow10 (Suc k) \<noteq> 0 \<Longrightarrow> Suc k \<le> 15 \<Longrightarrow> lower_div v (pow10 (Suc k)) = lower_div v (pow10 k)"
  using pow10_gt_1 [of "Suc k"] pow10_div [of k]
  by (subst lower_div.simps; simp)+

lemma lower_div_pow10:
  assumes "k \<le> 15"
  obtains j where "j \<le> k" "lower_div v (pow10 k) = pow10 j" "v mod pow10 j = 0"
  using assms
proof (induction k arbitrary: thesis)
  case 0
  show ?case by (rule "0.prems"(1) [OF le_refl lower_div_steps(1)]) simp
next
  case (Suc k)
  show ?case
  proof (cases "v mod pow10 (Suc k) = 0")
    case True
    show ?thesis by (rule Suc.prems(1) [OF le_refl lower_div_steps(2) [OF True] True])
  next
    case False
    obtain j where j: "j \<le> k" "lower_div v (pow10 k) = pow10 j" "v mod pow10 j = 0"
      using Suc.IH [OF _ Suc_leD [OF Suc.prems(2)]] .
    show ?thesis
      by (rule Suc.prems(1) [OF le_SucI [OF j(1)] _ j(3)])
        (simp only: lower_div_steps(3) [OF False Suc.prems(2)] j(2))
  qed
qed

lemma find_div_pow10:
  assumes "k \<le> 15"
  obtains j where "j \<le> k" "find_div vs (pow10 k) = pow10 j" "\<forall>v \<in> set vs. v mod pow10 j = 0"
  using assms
proof (induction vs arbitrary: k thesis)
  case Nil
  show ?case by (rule Nil.prems(1) [of k]) simp_all
next
  case (Cons v vs)
  show ?case
  proof (cases "k = 0")
    case True
    then show ?thesis by (intro Cons.prems(1) [of 0]) simp_all
  next
    case False
    obtain i where i: "i \<le> k" "lower_div v (pow10 k) = pow10 i" "v mod pow10 i = 0"
      using lower_div_pow10 [OF Cons.prems(2)] .
    have i15: "i \<le> 15" using i(1) Cons.prems(2) by simp
    obtain j where j: "j \<le> i" "find_div vs (pow10 i) = pow10 j" "\<forall>v \<in> set vs. v mod pow10 j = 0"
      using Cons.IH [OF _ i15] .
    have "v mod pow10 j = 0" by (rule pow10_dvd_mono [OF i(3) j(1) i15])
    moreover have "find_div (v # vs) (pow10 k) = pow10 j"
      using False i(2) j(2) pow10_gt_1 [OF Cons.prems(2)] by simp
    ultimately show ?thesis
      using le_trans [OF j(1) i(1)] j(3) by (intro Cons.prems(1) [of j]) (simp_all only: set_simps ball_simps simp_thms)
  qed
qed

lemma log10_pow10: "k \<le> 15 \<Longrightarrow> log10 (pow10 k) = of_nat k"
proof (induction k)
  case 0
  then show ?case by (simp add: log10.simps word_le_nat_alt)
next
  case (Suc k)
  have "unat (pow10 (Suc k)) \<ge> 10" using Suc.prems by (simp only: unat_pow10) simp
  then have "pow10 (Suc k) \<ge> 10" by (simp add: word_le_nat_alt)
  then show ?case
    using Suc.IH Suc.prems pow10_div [of k] by (subst log10.simps) simp
qed

text \<open>The header byte gives encoding and exponent back.\<close>

lemma header_fields:
  assumes "k \<le> 15"
  shows "drop_bit 4 (push_bit 4 e OR of_nat k) = take_bit 4 (e :: u8)"
    and "(push_bit 4 e OR of_nat k) AND 0xF = (of_nat k :: u8)"
proof -
  define w :: u8 where "w = of_nat k"
  have "w < 2 ^ 4" using assms by (simp add: w_def word_less_nat_alt unat_of_nat_u8)
  then have k: "bit w n \<Longrightarrow> n < 4" for n by (rule less_exp_bit_bound)
  have F: "x AND 0xF = take_bit 4 x" for x :: u8
    by (simp add: take_bit_eq_mask mask_eq_exp_minus_1)
  show "drop_bit 4 (push_bit 4 e OR of_nat k) = take_bit 4 e"
    unfolding w_def [symmetric] by (rule bit_word_eqI) (auto simp: bit_simps dest: k)
  show "(push_bit 4 e OR of_nat k) AND 0xF = (of_nat k :: u8)"
    unfolding F w_def [symmetric] by (rule bit_word_eqI) (auto simp: bit_simps dest: k)
qed

lemma word_div_mult: "v mod dv = 0 \<Longrightarrow> v div dv * dv = (v :: u64)"
  using div_mult_mod_eq [of v dv] by simp

lemma word_div_le: "v div dv \<le> (v :: u64)"
  by (simp add: word_le_nat_alt unat_div)

subsection \<open>The encoder by its cases\<close>

text \<open>The first timestamp followed by the differences.\<close>

definition time_deltas :: "i64 list \<Rightarrow> u64 list" where
  "time_deltas src = deltas_from (\<lambda>d. d) 0 src"

lemma TimeArrayEncodeAll_cases:
  assumes "src \<noteq> []" and "ds = time_deltas src"
  shows "TimeArrayEncodeAll src b =
    (if length ds > 1 \<and> same_deltas ds then time_put_rle ds b
     else if \<not> (\<forall>d \<in> set (drop 1 ds). d \<le> MaxValue) then time_put_uncompressed ds b
     else time_put_simple ds b)"
proof -
  obtain x xs where src: "src = x # xs" using assms(1) by (cases src) auto
  have ds: "ds = x # deltas_from (\<lambda>d. d) x xs" by (simp add: assms(2) time_deltas_def src)
  obtain mx where loop: "time_delta_loop (length xs) (x # xs) 0 = (ds, mx)"
      and mx: "mx \<le> MaxValue \<longleftrightarrow> (\<forall>d \<in> set (deltas_from (\<lambda>d. d) x xs). d \<le> MaxValue)"
    using delta_loop_whole [of "\<lambda>d. d" xs x 0] ds
    by (cases "time_delta_loop (length xs) (x # xs) 0") (simp add: time_delta_loop_def)
  then have "(if length src > 1 then time_delta_loop (length src - 1) src 0 else (src, 0)) = (ds, if xs = [] then 0 else mx)"
    by (cases xs) (simp_all add: src ds)
  moreover have "(if xs = [] then 0 else mx) > MaxValue \<longleftrightarrow> \<not> (\<forall>d \<in> set (drop 1 ds). d \<le> MaxValue)"
    using mx by (auto simp: ds not_le)
  ultimately show ?thesis
    using assms(1) by (simp add: TimeArrayEncodeAll_def)
qed

lemma time_put_rle_bytes:
  assumes "sl_wf b"
  obtains k where "k \<le> 12" and "ds ! 1 mod pow10 k = 0"
    and "time_put_rle ds b = Inr ((push_bit 4 timeCompressedRLE OR of_nat k) # put_be_u64 (ds ! 0) @
      put_uvarint (ds ! 1 div pow10 k) @ put_uvarint (of_nat (length ds)))"
proof -
  obtain k where k: "k \<le> 12" "lower_div (ds ! 1) (pow10 12) = pow10 k" "ds ! 1 mod pow10 k = 0"
    using lower_div_pow10 [of 12 "ds ! 1"] by auto
  have "length (put_uvarint (ds ! 1 div pow10 k)) \<le> 10" "length (put_uvarint (of_nat (length ds))) \<le> 10"
    by (rule length_put_uvarint)+
  moreover have "log10 (pow10 k) = of_nat k" using k(1) by (simp add: log10_pow10)
  ultimately show ?thesis
    using assms k(1) by (intro that [OF k(1,3)], cases "k = 0")
      (simp_all add: time_put_rle_def k(2) [unfolded One_nat_def] pow10_gt_1 blits_taken Let_def)
qed

lemma time_put_uncompressed_bytes:
  assumes "sl_wf b"
  shows "time_put_uncompressed ds b = Inr (0 # be_words ds)"
  using assms by (simp add: time_put_uncompressed_def blits_0 time_encodings concat_map_put)

lemma time_put_simple_bytes:
  assumes "sl_wf b" and "\<forall>d \<in> set (drop 1 ds). d \<le> MaxValue"
  obtains k ws where "k \<le> 12" and "\<forall>d \<in> set (drop 1 ds). d mod pow10 k = 0"
    and "EncodeAll (map (\<lambda>d. d div pow10 k) (drop 1 ds)) = Inr ws"
    and "time_put_simple ds b = Inr ((push_bit 4 timeCompressedPackedSimple OR of_nat k) # put_be_u64 (ds ! 0) @ be_words ws)"
proof -
  obtain k where k: "k \<le> 12" "find_div (drop 1 ds) (pow10 12) = pow10 k"
      "\<forall>d \<in> set (drop 1 ds). d mod pow10 k = 0"
    using find_div_pow10 [of 12 "drop 1 ds"] by auto
  let ?gaps = "map (\<lambda>d. d div pow10 k) (drop 1 ds)"
  have "\<forall>d \<in> set ?gaps. d \<le> MaxValue"
    using assms(2) word_div_le order_trans by fastforce
  then obtain ws where ws: "EncodeAll ?gaps = Inr ws" using s8b.encode_total by blast
  have gaps: "(if pow10 k > 1 then ?gaps else drop 1 ds) = ?gaps"
    using k(1) by (cases "k = 0") (simp_all add: pow10_gt_1)
  have "log10 (pow10 k) = of_nat k" using k(1) by (simp add: log10_pow10)
  then have "time_put_simple ds b = Inr ((push_bit 4 timeCompressedPackedSimple OR of_nat k) # put_be_u64 (ds ! 0) @ be_words ws)"
    using assms(1) unfolding time_put_simple_def k(2) Let_def gaps
    by (simp add: ws [unfolded One_nat_def] blits_taken_length concat_map_put)
  then show ?thesis by (rule that [OF k(1,3) ws])
qed

subsection \<open>The decoders on encoded blocks\<close>

lemma TimeArrayDecodeAll_dispatch:
  assumes "k \<le> 12"
  shows "TimeArrayDecodeAll (0 # bs) dst = timeBatchDecodeAllUncompressed (0 # bs) dst"
    and "TimeArrayDecodeAll ((push_bit 4 timeCompressedPackedSimple OR of_nat k) # bs) dst =
      timeBatchDecodeAllSimple ((push_bit 4 timeCompressedPackedSimple OR of_nat k) # bs) dst"
    and "TimeArrayDecodeAll ((push_bit 4 timeCompressedRLE OR of_nat k) # bs) dst =
      timeBatchDecodeAllRLE ((push_bit 4 timeCompressedRLE OR of_nat k) # bs) dst"
proof -
  have hd: "drop_bit 4 (push_bit 4 e OR of_nat k) = take_bit 4 (e :: u8)" for e
    using assms by (intro header_fields(1)) simp
  show "TimeArrayDecodeAll (0 # bs) dst = timeBatchDecodeAllUncompressed (0 # bs) dst"
    by (simp add: TimeArrayDecodeAll_def timeBatchDecoderFunc_def time_encodings)
  show "TimeArrayDecodeAll ((push_bit 4 timeCompressedPackedSimple OR of_nat k) # bs) dst =
      timeBatchDecodeAllSimple ((push_bit 4 timeCompressedPackedSimple OR of_nat k) # bs) dst"
    "TimeArrayDecodeAll ((push_bit 4 timeCompressedRLE OR of_nat k) # bs) dst =
      timeBatchDecodeAllRLE ((push_bit 4 timeCompressedRLE OR of_nat k) # bs) dst"
    unfolding TimeArrayDecodeAll_def nth_Cons_0 hd
    by (simp_all add: timeBatchDecoderFunc_def time_encodings)
qed

lemma time_uncompressed_loop_words:
  assumes "i + length dst = length ws"
  shows "time_uncompressed_loop (be_words ws) i prev dst = Inr (sums_from (\<lambda>d. d) prev (drop i ws))"
  using assms
proof (induction dst arbitrary: i prev)
  case (Cons d dst)
  then have i: "i < length ws" by simp
  have "drop (i * 8) (be_words ws) = be_words (drop i ws)"
    using drop_be_words [of i ws] by (simp only: mult.commute)
  then show ?case
    using Cons.IH [of "Suc i"] Cons.prems i Cons_nth_drop_Suc [OF i, symmetric]
    by (simp add: Let_def)
qed simp

lemma time_uncompressed_read:
  "timeBatchDecodeAllUncompressed (h # be_words ws) dst = Inr (sums_from (\<lambda>d. d) 0 ws)"
  using time_uncompressed_loop_words [of 0 "resize_dst (length ws) dst" ws 0]
  by (simp add: timeBatchDecodeAllUncompressed_def)

lemma header_exponent:
  assumes "k \<le> 12"
  shows "unat ((push_bit 4 e OR of_nat k) AND 0xF :: u8) = k"
proof -
  have "(push_bit 4 e OR of_nat k) AND 0xF = (of_nat k :: u8)" using assms by (intro header_fields) simp
  moreover have "unat (of_nat k :: u8) = k" using assms by (intro unat_of_nat_u8) simp
  ultimately show ?thesis by (simp only:)
qed

lemma sums_scaled:
  assumes "\<forall>d \<in> set ds. d mod dv = 0"
  shows "sums_from (\<lambda>g. g * dv) p (map (\<lambda>d. d div dv) ds) = sums_from (\<lambda>d. d) p ds"
  using assms by (induction ds arbitrary: p) (simp_all add: word_div_mult)

lemma time_simple_read:
  assumes "EncodeAll vs = Inr ws" and "k \<le> 12"
  shows "timeBatchDecodeAllSimple ((push_bit 4 e OR of_nat k) # put_be_u64 d @ be_words ws) dst =
    Inr (d # sums_from (\<lambda>g. g * pow10 k) d vs)"
proof -
  have "\<not> 1 < pow10 k \<Longrightarrow> sums_from (\<lambda>g. g) d vs = sums_from (\<lambda>g. g * pow10 k) d vs"
    using assms(2) by (cases "k = 0") (simp_all add: pow10_gt_1)
  then show ?thesis
    using s8b.count_encoded [OF assms(1)] s8b.decode_encoded [OF assms(1)]
    by (simp add: timeBatchDecodeAllSimple_def Let_def header_exponent [OF assms(2)])
qed

lemma time_rle_read:
  assumes "Suc n < 2 ^ 63" and "k \<le> 12"
  shows "timeBatchDecodeAllRLE ((push_bit 4 e OR of_nat k) # put_be_u64 d0 @ put_uvarint d @ put_uvarint (of_nat (Suc n))) dst =
    Inr (sums_from (\<lambda>d. d) 0 (d0 # replicate n (d * pow10 k)))"
proof -
  have count: "unat (of_nat (Suc n) :: u64) = Suc n"
    using assms(1) by (intro unat_of_nat_u64) simp
  let ?dst = "resize_dst (Suc n) dst"
  have "run_loop d0 (d * pow10 k) ?dst = sums_from (\<lambda>d. d) 0 (d0 # replicate n (d * pow10 k))"
    using run_loop_sums [of ?dst n d0 "\<lambda>d. d" "d * pow10 k"] by simp
  moreover have "resize_dst_u64 (of_nat (Suc n)) dst = Inr ?dst"
    using assms(1) by (simp only: resize_dst_u64_cases count simp_thms if_True)
  moreover have "uvarint (put_uvarint (of_nat (Suc n))) = (of_nat (Suc n), int (length (put_uvarint (of_nat (Suc n)))))"
    using uvarint_put [of "of_nat (Suc n)" "[]"] by simp
  moreover have "drop (9 + length us) (h # put_be_u64 d0 @ us @ vs) = vs" for h us vs
    by (simp add: drop_Cons')
  ultimately show ?thesis
    by (simp add: timeBatchDecodeAllRLE_def Let_def uvarint_put header_exponent [OF assms(2)] del: of_nat_Suc)
qed

lemma time_rle_case:
  assumes "sl_wf b" "length ds > 1" "same_deltas ds" "length ds < 2 ^ 63"
  shows "\<exists>blk. time_put_rle ds b = Inr blk \<and> TimeArrayDecodeAll blk dst = Inr (sums_from (\<lambda>d. d) 0 ds)"
proof -
  obtain d0 d ds' where ds: "ds = d0 # d # ds'"
    using assms(2) by (cases ds; cases "tl ds") auto
  let ?n = "Suc (length ds')"
  have rep: "d # ds' = replicate ?n d" using same_deltas_replicate assms(3) ds by simp
  obtain k where k: "k \<le> 12" "d mod pow10 k = 0"
      "time_put_rle ds b = Inr ((push_bit 4 timeCompressedRLE OR of_nat k) # put_be_u64 d0 @
        put_uvarint (d div pow10 k) @ put_uvarint (of_nat (Suc ?n)))"
    using time_put_rle_bytes [OF assms(1), of ds] ds by (auto simp del: of_nat_Suc)
  have n: "Suc ?n < 2 ^ 63" using assms(4) ds by (simp only: list.size add_Suc_right add_0_right)
  have "TimeArrayDecodeAll ((push_bit 4 timeCompressedRLE OR of_nat k) # put_be_u64 d0 @
      put_uvarint (d div pow10 k) @ put_uvarint (of_nat (Suc ?n))) dst
    = Inr (sums_from (\<lambda>d. d) 0 (d0 # replicate ?n d))"
    by (simp only: TimeArrayDecodeAll_dispatch(3) [OF k(1)] time_rle_read [OF n k(1)] word_div_mult [OF k(2)])
  also have "\<dots> = Inr (sums_from (\<lambda>d. d) 0 ds)"
    by (simp only: rep [symmetric] ds)
  finally show ?thesis using k(3) by blast
qed

lemma time_uncompressed_case:
  assumes "sl_wf b"
  shows "\<exists>blk. time_put_uncompressed ds b = Inr blk \<and>
    TimeArrayDecodeAll blk dst = Inr (sums_from (\<lambda>d. d) 0 ds)"
  by (simp only: time_put_uncompressed_bytes [OF assms] sum.inject ex_simps simp_thms
      TimeArrayDecodeAll_dispatch(1) [of 0, OF le0] time_uncompressed_read)

lemma time_simple_case:
  assumes "sl_wf b" "ds \<noteq> []" "\<forall>d \<in> set (drop 1 ds). d \<le> MaxValue"
  shows "\<exists>blk. time_put_simple ds b = Inr blk \<and>
    TimeArrayDecodeAll blk dst = Inr (sums_from (\<lambda>d. d) 0 ds)"
proof -
  obtain k ws where k: "k \<le> 12" "\<forall>d \<in> set (drop 1 ds). d mod pow10 k = 0"
      "EncodeAll (map (\<lambda>d. d div pow10 k) (drop 1 ds)) = Inr ws"
      "time_put_simple ds b = Inr ((push_bit 4 timeCompressedPackedSimple OR of_nat k) # put_be_u64 (ds ! 0) @ be_words ws)"
    by (rule time_put_simple_bytes [OF assms(1,3)])
  have "TimeArrayDecodeAll ((push_bit 4 timeCompressedPackedSimple OR of_nat k) # put_be_u64 (ds ! 0) @ be_words ws) dst
      = Inr (ds ! 0 # sums_from (\<lambda>d. d) (ds ! 0) (drop 1 ds))"
    by (simp only: TimeArrayDecodeAll_dispatch(2) [OF k(1)] time_simple_read [OF k(3,1)] sums_scaled [OF k(2)])
  also have "\<dots> = Inr (sums_from (\<lambda>d. d) 0 ds)"
    using assms(2) by (cases ds) simp_all
  finally show ?thesis using k(4) by blast
qed

lemma time_read_back:
  assumes "sl_wf b" "length src < 2 ^ 63"
  shows "\<exists>blk. TimeArrayEncodeAll src b = Inr blk \<and> TimeArrayDecodeAll blk dst = Inr src"
proof (cases "src = []")
  case True
  then show ?thesis by (simp add: TimeArrayEncodeAll_def TimeArrayDecodeAll_def)
next
  case False
  define ds where "ds = time_deltas src"
  have "ds \<noteq> []" "length ds < 2 ^ 63"
    using False assms(2) length_deltas_from [of "\<lambda>d. d" 0 src, folded time_deltas_def ds_def] by auto
  note facts = this time_rle_case [OF assms(1) _ _ this(2), of dst]
    time_uncompressed_case [OF assms(1), of ds dst] time_simple_case [OF assms(1) this(1), of dst]
  have sums: "sums_from (\<lambda>d. d) 0 ds = src"
    unfolding ds_def time_deltas_def by (rule sums_deltas) simp
  show ?thesis
    unfolding TimeArrayEncodeAll_cases [OF False ds_def, of b]
    using facts(3-5) sums by simp
qed

text \<open>An encoded block is at most 29 bytes longer than the timestamps it holds.\<close>

lemma TimeArrayEncodeAll_length:
  assumes "sl_wf b" and "TimeArrayEncodeAll src b = Inr blk"
  shows "length blk \<le> 29 + 8 * length src"
proof (cases "src = []")
  case True
  then show ?thesis using assms(2) by (simp add: TimeArrayEncodeAll_def)
next
  case False
  define ds where "ds = time_deltas src"
  have len: "length ds = length src" by (simp add: ds_def time_deltas_def)
  have rle: "length blk \<le> 29" if "time_put_rle ds b = Inr blk"
  proof -
    obtain k where "time_put_rle ds b = Inr ((push_bit 4 timeCompressedRLE OR of_nat k) # put_be_u64 (ds ! 0) @
        put_uvarint (ds ! 1 div pow10 k) @ put_uvarint (of_nat (length ds)))"
      using time_put_rle_bytes [OF assms(1), of ds] by blast
    then show ?thesis
      using that length_put_uvarint [of "ds ! 1 div pow10 k"] length_put_uvarint [of "of_nat (length ds)"] by auto
  qed
  have simple: "length blk \<le> 9 + 8 * length ds"
    if put: "time_put_simple ds b = Inr blk" and le: "\<forall>d \<in> set (drop 1 ds). d \<le> MaxValue"
  proof -
    obtain k ws where k: "EncodeAll (map (\<lambda>d. d div pow10 k) (drop 1 ds)) = Inr ws"
        "time_put_simple ds b = Inr ((push_bit 4 timeCompressedPackedSimple OR of_nat k) # put_be_u64 (ds ! 0) @ be_words ws)"
      using time_put_simple_bytes [OF assms(1) le] by blast
    then show ?thesis using s8b.encode_length [OF k(1)] put by auto
  qed
  show ?thesis
    using assms(2) rle simple len unfolding TimeArrayEncodeAll_cases [OF False ds_def, of b]
    by (auto simp: time_put_uncompressed_bytes [OF assms(1)] split: if_splits)
qed

interpretation time_codec: array_codec TimeArrayEncodeAll TimeArrayDecodeAll go_length
  by unfold_locales (auto simp only: go_length_def intro: time_read_back nil_slice_simps)

subsection \<open>Arbitrary blocks\<close>

lemma time_uncompressed_outcome:
  assumes "timeBatchDecodeAllUncompressed blk dst = Inl e"
  shows "\<exists>m. e = Err m"
proof (cases "length (drop 1 blk) mod 8 = 0")
  case True
  from bytes_be_words [OF this] obtain ws where ws: "drop 1 blk = be_words ws" ..
  then have "timeBatchDecodeAllUncompressed blk dst = timeBatchDecodeAllUncompressed (0 # be_words ws) dst"
    by (simp add: timeBatchDecodeAllUncompressed_def)
  then show ?thesis using assms by (simp add: time_uncompressed_read)
next
  case False
  then show ?thesis using assms by (auto simp: timeBatchDecodeAllUncompressed_def)
qed

lemma time_simple_outcome:
  assumes "timeBatchDecodeAllSimple blk dst = Inl e"
  shows "\<exists>m. e = Err m"
proof (cases "CountBytes (drop 9 blk)")
  case (Inl e')
  then show ?thesis
    using assms CountBytes_error [OF Inl]
    by (auto simp: timeBatchDecodeAllSimple_def Let_def split: if_splits)
next
  case (Inr n)
  let ?d = "(resize_dst (n + 1) dst)[0 := be_u64 (drop 1 blk)]"
  obtain vs where "DecodeBytesBigEndian (drop 1 ?d) (drop 9 blk) = Inr (vs, n)"
    using CountBytes_decode [OF Inr, of "drop 1 ?d"] by auto
  then show ?thesis
    using assms Inr by (auto simp: timeBatchDecodeAllSimple_def Let_def split: if_splits)
qed

lemma time_rle_outcome:
  "(timeBatchDecodeAllRLE blk dst = Inl Panic \<longleftrightarrow> rle_overlong 0 blk dst) \<and>
   timeBatchDecodeAllRLE blk dst \<noteq> Inl Unsafe"
proof (cases "length blk < 9 \<or> snd (uvarint (drop 9 blk)) \<le> 0 \<or>
    snd (uvarint (drop (9 + nat (snd (uvarint (drop 9 blk)))) blk)) \<le> 0")
  case True
  then show ?thesis
    by (auto simp: timeBatchDecodeAllRLE_def rle_repeat_def rle_overlong_def Let_def split: prod.splits if_splits)
next
  case False
  then obtain v n c m where v: "uvarint (drop 9 blk) = (v, n)" "uvarint (drop (9 + nat n) blk) = (c, m)"
      "\<not> length blk < 9" "\<not> n \<le> 0" "\<not> m \<le> 0"
    by (metis prod.collapse)
  then show ?thesis
    by (simp add: timeBatchDecodeAllRLE_def rle_repeat_def rle_overlong_def Let_def resize_dst_u64_cases
        not_le not_less)
qed

subsection \<open>Properties\<close>

text \<open>
  C14. Timestamp blocks round trip: every list of timestamps, sorted or not, is encoded without an
  error whatever slice the encoder is given to write to, and decodes to itself whatever slice it is
  decoded into. In particular the power of ten divided out is always restored.
\<close>

theorem TimeArray_roundtrip:
  assumes "sl_wf b" "length src < 2 ^ 63"
  shows "\<exists>blk. TimeArrayEncodeAll src b = Inr blk \<and> TimeArrayDecodeAll blk dst = Inr src"
  using assms by (rule time_read_back)

theorem TimeArray_roundtrip_witness:
  "\<exists>blk. TimeArrayEncodeAll [1000, 3000, 2000] (slice_of [1, 2, 3]) = Inr blk \<and>
     TimeArrayDecodeAll blk nil_slice = Inr [1000, 3000, 2000]"
  by (rule TimeArray_roundtrip) simp_all

text \<open>
  Decoding an arbitrary timestamp block never writes outside the destination, and panics only
  on a run-length block whose count is \<open>2^63\<close> or more.
\<close>

theorem TimeArrayDecodeAll_panics_iff:
  "(TimeArrayDecodeAll b dst = Inl Panic \<longleftrightarrow>
     b \<noteq> [] \<and> drop_bit 4 (b ! 0) = timeCompressedRLE \<and> rle_overlong 0 b dst) \<and>
   TimeArrayDecodeAll b dst \<noteq> Inl Unsafe"
proof (cases "b = []")
  case False
  let ?e = "drop_bit 4 (b ! 0)"
  have unsafe: "timeBatchDecodeAllUncompressed b dst \<noteq> Inl Panic"
      "timeBatchDecodeAllUncompressed b dst \<noteq> Inl Unsafe"
      "timeBatchDecodeAllSimple b dst \<noteq> Inl Panic" "timeBatchDecodeAllSimple b dst \<noteq> Inl Unsafe"
    using time_uncompressed_outcome [of b dst] time_simple_outcome [of b dst] by blast+
  consider "?e = 0" | "?e = 1" | "?e = 2" | "?e > 2" by (rule encoding_cases)
  then show ?thesis
    using unsafe time_rle_outcome [of b dst] False
    by cases (auto simp: TimeArrayDecodeAll_def timeBatchDecoderFunc_def time_encodings
        timeBatchDecodeAllInvalid_def)
qed (simp add: TimeArrayDecodeAll_def)

end
