(* ===== verification/BatchBoolean.thy ===== *)
theory BatchBoolean
  imports BatchCommon
begin

text \<open>
  The batch boolean codec, \<open>src/backend/tsdb/engine/tsm1/batch_boolean.go\<close>: a header byte, the number
  of values as a varint, and the values as bits, most significant bit first. The bit cursor \<open>n\<close> of
  the encoder is a \<^typ>\<open>nat\<close>.
\<close>

unbundle bit_operations_syntax

subsection \<open>Model\<close>

definition booleanCompressedBitPacked :: u8 where "booleanCompressedBitPacked = 1"

text \<open>
  The encoder makes room with \<open>cap(b) > sz\<close> and appends \<open>sz\<close> bytes when that fails, where the
  integer encoders test \<open>cap(b) >= sz\<close> and append the missing ones.
\<close>

definition bool_grow :: "nat \<Rightarrow> u8 slice \<Rightarrow> u8 list" where
  "bool_grow sz b =
     (if sl_len b < sz \<and> sl_cap b > sz then take sz (sl_arr b)
      else if sl_len b < sz then sl_list b @ replicate sz 0
      else sl_list b)"

fun bool_put :: "nat \<Rightarrow> bool list \<Rightarrow> u8 list \<Rightarrow> (u8 list \<times> nat) res" where
  "bool_put n [] b = Inr (b, n)"
| "bool_put n (v # vs) b =
     (if n div 8 < length b then
        let m = drop_bit (n mod 8) 128;
            w = b ! (n div 8)
        in bool_put (n + 1) vs (b[n div 8 := (if v then w OR m else w AND NOT m)])
      else Inl Panic)"

definition BooleanArrayEncodeAll :: "bool list \<Rightarrow> u8 slice \<Rightarrow> u8 list res" where
  "BooleanArrayEncodeAll src b =
     (let sz = 1 + 8 + (length src + 7) div 8
      in rbind (blits 0 [[push_bit 4 booleanCompressedBitPacked], put_uvarint (of_nat (length src))]
                  (bool_grow sz b))
           (\<lambda>(b', i). rbind (bool_put (i * 8) src b') (\<lambda>(b'', n).
              let len = (if n mod 8 > 0 then n div 8 + 1 else n div 8)
              in if len \<le> length b'' then Inr (take len b'') else Inl Panic)))"

definition bool_masks :: "u8 list" where
  "bool_masks = [128, 64, 32, 16, 8, 4, 2, 1]"

fun bool_byte :: "u8 \<Rightarrow> u8 list \<Rightarrow> nat \<Rightarrow> bool list \<Rightarrow> nat \<times> bool list" where
  "bool_byte v [] j dst = (j, dst)"
| "bool_byte v (i # is) j dst =
     (if j < length dst then bool_byte v is (j + 1) (dst[j := (v AND i \<noteq> 0)]) else (j, dst))"

fun bool_bytes :: "u8 list \<Rightarrow> nat \<Rightarrow> bool list \<Rightarrow> bool list" where
  "bool_bytes [] j dst = dst"
| "bool_bytes (v # b) j dst = (let (j', dst') = bool_byte v bool_masks j dst in bool_bytes b j' dst')"

definition BooleanArrayDecodeAll :: "u8 list \<Rightarrow> bool slice \<Rightarrow> bool list res" where
  "BooleanArrayDecodeAll blk dst =
     (if blk = [] then Inr []
      else
        let (val, n) = uvarint (drop 1 blk)
        in if n \<le> 0 then Inl (Err ''BooleanBatchDecoder: invalid count'')
           else
             let b = drop (1 + nat n) blk;
                 count = (if int (length b * 8) < sint val then int (length b * 8) else sint val)
             in if int (sl_cap dst) < count then Inr (bool_bytes b 0 (replicate (nat count) False))
                else if 0 \<le> count then Inr (bool_bytes b 0 (take (nat count) (sl_arr dst)))
                else Inl Panic)"

subsection \<open>Bits of a byte string\<close>

definition bit_at :: "u8 list \<Rightarrow> nat \<Rightarrow> bool" where
  "bit_at b j = bit (b ! (j div 8)) (7 - j mod 8)"

lemma bit_mask128:
  assumes "k < 8"
  shows "bit (drop_bit k 128 :: u8) m \<longleftrightarrow> m = 7 - k"
proof -
  have "drop_bit k (128 :: u8) = drop_bit k (push_bit 7 1)" by simp
  then have "bit (drop_bit k 128 :: u8) m \<longleftrightarrow> k + m < 8 \<and> 7 \<le> k + m \<and> k + m - 7 = 0"
    by (simp only: bit_drop_bit_eq o_apply bit_push_bit_iff bit_1_iff possible_bit_word) auto
  then show ?thesis using assms by linarith
qed

lemma bit_at_update:
  assumes "n div 8 < length b" "j div 8 < length b"
  shows "bit_at (b[n div 8 := (let m = drop_bit (n mod 8) 128; w = b ! (n div 8) in if v then w OR m else w AND NOT m)]) j =
    (if j = n then v else bit_at b j)"
proof (cases "j div 8 = n div 8")
  case True
  have "j = n \<longleftrightarrow> j mod 8 = n mod 8"
    using True by (metis div_mult_mod_eq)
  moreover have "7 - j mod 8 = 7 - n mod 8 \<longleftrightarrow> j mod 8 = n mod 8"
  proof -
    have "j mod 8 < 8" "n mod 8 < 8" by simp_all
    then show ?thesis by linarith
  qed
  moreover have "bit (drop_bit (n mod 8) 128 :: u8) (7 - j mod 8) \<longleftrightarrow> 7 - j mod 8 = 7 - n mod 8"
    by (rule bit_mask128) simp
  moreover have "7 - j mod 8 < LENGTH(8)" by simp
  ultimately show ?thesis
    using True assms
    by (simp only: bit_at_def Let_def nth_list_update_eq if_distrib [of "\<lambda>x. bit x _"] bit_or_iff bit_and_iff
        bit_not_iff possible_bit_word) auto
next
  case False
  then show ?thesis by (auto simp: bit_at_def)
qed

lemma bool_put_bits:
  assumes "n + length vs \<le> 8 * length b"
  shows "\<exists>b'. bool_put n vs b = Inr (b', n + length vs) \<and> length b' = length b \<and>
    take (n div 8) b' = take (n div 8) b \<and>
    (\<forall>j < 8 * length b. bit_at b' j = (if n \<le> j \<and> j < n + length vs then vs ! (j - n) else bit_at b j))"
  using assms
proof (induction vs arbitrary: n b)
  case (Cons v vs)
  define b1 where "b1 = b[n div 8 := (let m = drop_bit (n mod 8) 128; w = b ! (n div 8) in if v then w OR m else w AND NOT m)]"
  have n: "n div 8 < length b" using Cons.prems by auto
  have len: "length b1 = length b" by (simp add: b1_def)
  have put: "bool_put n (v # vs) b = bool_put (Suc n) vs b1"
    using n by (simp add: b1_def Let_def)
  obtain b' where b': "bool_put (Suc n) vs b1 = Inr (b', Suc n + length vs)" "length b' = length b1"
      "take (Suc n div 8) b' = take (Suc n div 8) b1"
      "\<forall>j < 8 * length b1. bit_at b' j = (if Suc n \<le> j \<and> j < Suc n + length vs then vs ! (j - Suc n) else bit_at b1 j)"
    using Cons.IH [of "Suc n" b1] Cons.prems len by auto
  have "n div 8 \<le> Suc n div 8" by (intro div_le_mono) simp
  then have "take (n div 8) b' = take (n div 8) b1"
    using b'(3) by (metis min.absorb1 take_take)
  then have tk: "take (n div 8) b' = take (n div 8) b" by (simp add: b1_def)
  have "bit_at b' j = (if n \<le> j \<and> j < n + length (v # vs) then (v # vs) ! (j - n) else bit_at b j)"
    if j: "j < 8 * length b" for j
  proof -
    have "bit_at b1 j = (if j = n then v else bit_at b j)"
      unfolding b1_def using n j by (intro bit_at_update) auto
    moreover have "bit_at b' j = (if Suc n \<le> j \<and> j < Suc n + length vs then vs ! (j - Suc n) else bit_at b1 j)"
      using b'(4) len j by simp
    ultimately show ?thesis by (auto simp: nth_Cons' Suc_le_eq)
  qed
  then show ?case using put b'(1,2) tk len by auto
qed auto

lemma bool_byte_bits:
  assumes "j \<le> length dst"
  shows "fst (bool_byte v ms j dst) = min (length dst) (j + length ms)"
    and "length (snd (bool_byte v ms j dst)) = length dst"
    and "k < length dst \<Longrightarrow> snd (bool_byte v ms j dst) ! k =
      (if j \<le> k \<and> k < j + length ms then v AND ms ! (k - j) \<noteq> 0 else dst ! k)"
  using assms
proof (induction v ms j dst rule: bool_byte.induct)
  case (2 v i "is" j dst)
  {
    case 1
    then show ?case using 2 by (cases "j < length dst") auto
  next
    case 2
    then show ?case using "2.IH"(2) by (cases "j < length dst") auto
  next
    case 3
    then show ?case using "2.IH"(3) by (cases "j < length dst") (auto simp: nth_Cons' nth_list_update)
  }
qed auto

lemma bool_masks_bit:
  assumes "i < 8"
  shows "v AND bool_masks ! i \<noteq> 0 \<longleftrightarrow> bit v (7 - i)"
proof -
  have "bool_masks = map (\<lambda>i. push_bit (7 - i) 1) [0..<8]"
    by (simp add: bool_masks_def upt_rec_numeral upt_conv_Cons)
  then have "bool_masks ! i = map (\<lambda>i. push_bit (7 - i) 1) [0..<8] ! i" by (rule arg_cong)
  also have "\<dots> = push_bit (7 - i) 1" using assms by (subst nth_map) simp_all
  finally show ?thesis by (simp only: bit_iff_and_push_bit_not_eq_0)
qed

lemma length_bool_masks [simp]: "length bool_masks = 8"
  by (simp add: bool_masks_def)

lemma length_bool_byte [simp]: "length (snd (bool_byte v ms j dst)) = length dst"
  by (induction v ms j dst rule: bool_byte.induct) auto

lemma length_bool_bytes [simp]: "length (bool_bytes b j dst) = length dst"
  by (induction b arbitrary: j dst) (simp_all add: case_prod_beta)

lemma bool_bytes_bits:
  assumes "j \<le> length dst" and "k < length dst"
  shows "bool_bytes b j dst ! k =
    (if j \<le> k \<and> k < j + 8 * length b then bit_at b (k - j) else dst ! k)"
  using assms
proof (induction b arbitrary: j dst)
  case (Cons v b)
  define j' dst' where "j' = fst (bool_byte v bool_masks j dst)" and "dst' = snd (bool_byte v bool_masks j dst)"
  have step: "bool_bytes (v # b) j dst = bool_bytes b j' dst'"
    by (simp add: j'_def dst'_def case_prod_beta)
  note byte = bool_byte_bits [where j = j and dst = dst and v = v and ms = bool_masks, OF Cons.prems(1),
      folded j'_def dst'_def]
  have j': "j' = min (length dst) (j + 8)" "length dst' = length dst"
    using byte(1,2) by simp_all
  have k: "k < length dst" by (rule Cons.prems(2))
  have "dst' ! k = (if j \<le> k \<and> k < j + 8 then v AND bool_masks ! (k - j) \<noteq> 0 else dst ! k)"
    using byte(3) [OF k] by simp
  then have dst': "dst' ! k = (if j \<le> k \<and> k < j + 8 then bit v (7 - (k - j)) else dst ! k)"
    using bool_masks_bit [of "k - j" v] by (auto split: if_splits)
  have rec: "bool_bytes b j' dst' ! k = (if j' \<le> k \<and> k < j' + 8 * length b then bit_at b (k - j') else dst' ! k)"
    using k j' by (intro Cons.IH) simp_all
  consider "k < j" | "j \<le> k" "k < j + 8" | "j + 8 \<le> k" by linarith
  then show ?case
  proof cases
    case 1
    then have "\<not> j' \<le> k" using j' k by auto
    then show ?thesis unfolding step rec dst' using 1 by simp
  next
    case 2
    then have "(k - j) div 8 = 0" "(k - j) mod 8 = k - j" by simp_all
    then have "bit_at (v # b) (k - j) = bit v (7 - (k - j))" by (simp add: bit_at_def)
    moreover have "\<not> j' \<le> k" using j' k 2 by auto
    ultimately show ?thesis unfolding step rec dst' using 2 by simp
  next
    case 3
    then obtain m where m: "k = j + 8 + m" using le_iff_add by blast
    then have "k - j = m + 8" by simp
    then have "(k - j) div 8 = Suc (m div 8)" "(k - j) mod 8 = m mod 8" by simp_all
    then have "bit_at (v # b) (k - j) = bit_at b m" by (simp add: bit_at_def)
    moreover have "j' = j + 8" using j' k 3 by simp
    ultimately show ?thesis unfolding step rec dst' using m by simp
  qed
qed auto

subsection \<open>Properties\<close>

lemma length_bool_grow:
  "sl_wf b \<Longrightarrow> sz \<le> length (bool_grow sz b)"
  by (auto simp: bool_grow_def sl_cap_def)

lemma bool_count_length:
  assumes "length src < 2 ^ 56"
  shows "length (put_uvarint (of_nat (length src))) \<le> 8"
proof -
  have "unat (of_nat (length src) :: u64) = length src"
    using assms by (intro unat_of_nat_u64) simp
  then show ?thesis
    using length_put_uvarint_le [of "of_nat (length src)" 7] assms by simp
qed

lemma ceil_div_8:
  "(if n mod 8 > 0 then n div 8 + 1 else n div 8) = (n + 7) div (8 :: nat)"
proof -
  define q r where "q = n div 8" and "r = n mod 8"
  have n: "n = 8 * q + r" "r < 8" by (simp_all add: q_def r_def)
  have "(r + 7) div 8 = (if r > 0 then 1 else 0)" using n(2) by auto
  then have "(n + 7) div 8 = (if r > 0 then q + 1 else q)"
    unfolding n(1) add.assoc by (simp add: div_mult_self4)
  then show ?thesis unfolding q_def r_def by (simp only:)
qed

text \<open>The encoded block: header, count and then the bits, in a last byte that may hold stale bits.\<close>

lemma BooleanArrayEncodeAll_block:
  assumes "sl_wf b" "length src < 2 ^ 56"
  obtains bits where
    "BooleanArrayEncodeAll src b = Inr (0x10 # put_uvarint (of_nat (length src)) @ bits)"
    "length bits = (length src + 7) div 8" "\<forall>k < length src. bit_at bits k = src ! k"
proof -
  let ?u = "put_uvarint (of_nat (length src))"
  define b1 where "b1 = bool_grow (1 + 8 + (length src + 7) div 8) b"
  define i where "i = 1 + length ?u"
  define hd where "hd = (0x10 :: u8) # ?u"
  have u: "length ?u \<le> 8" by (rule bool_count_length [OF assms(2)])
  have b1: "1 + 8 + (length src + 7) div 8 \<le> length b1"
    unfolding b1_def by (rule length_bool_grow [OF assms(1)])
  define b2 where "b2 = hd @ drop i b1"
  have blits: "blits 0 [[push_bit 4 booleanCompressedBitPacked], ?u] b1 = Inr (b2, i)"
    using u b1 by (simp add: blits_0 b2_def hd_def i_def booleanCompressedBitPacked_def)
  have len2: "length b2 = length b1" using u b1 by (simp add: b2_def hd_def i_def)
  have room: "i * 8 + length src \<le> 8 * length b2"
    using u b1 len2 by (simp add: i_def)
  obtain b3 where b3: "bool_put (i * 8) src b2 = Inr (b3, i * 8 + length src)" "length b3 = length b2"
      "take i b3 = take i b2"
      "\<forall>j < 8 * length b2. bit_at b3 j = (if i * 8 \<le> j \<and> j < i * 8 + length src then src ! (j - i * 8) else bit_at b2 j)"
    using bool_put_bits [OF room] by auto
  have ceil: "(if (i * 8 + length src) mod 8 > 0 then (i * 8 + length src) div 8 + 1 else (i * 8 + length src) div 8)
      = i + (length src + 7) div 8"
    unfolding ceil_div_8 by (simp add: add.assoc)
  have fits: "i + (length src + 7) div 8 \<le> length b3" using u b1 len2 b3(2) by (simp add: i_def)
  define bits where "bits = take ((length src + 7) div 8) (drop i b3)"
  have "take i b2 = hd" by (simp add: b2_def hd_def i_def)
  then have "take (i + (length src + 7) div 8) b3 = hd @ bits"
    using b3(3) by (simp add: take_add bits_def)
  then have enc: "BooleanArrayEncodeAll src b = Inr (hd @ bits)"
    unfolding BooleanArrayEncodeAll_def Let_def b1_def [symmetric]
    using blits b3(1) ceil fits by simp
  have "bit_at bits k = src ! k" if k: "k < length src" for k
  proof -
    have d: "(i * 8 + k) div 8 = i + k div 8" "(i * 8 + k) mod 8 = k mod 8" by simp_all
    have "k div 8 < (length src + 7) div 8" using k by (simp add: less_eq_div_iff_mult_less_eq Suc_le_eq [symmetric])
    then have "bit_at bits k = bit_at b3 (i * 8 + k)"
      using fits by (simp add: bit_at_def bits_def d)
    also have "\<dots> = src ! k" using b3(4) room k by simp
    finally show ?thesis .
  qed
  moreover have "length bits = (length src + 7) div 8" using fits by (simp add: bits_def)
  ultimately show ?thesis
    using that [of bits] enc by (simp add: hd_def)
qed

lemma boolean_read_back:
  assumes "sl_wf b" "length src < 2 ^ 56"
  shows "\<exists>blk. BooleanArrayEncodeAll src b = Inr blk \<and> BooleanArrayDecodeAll blk dst = Inr src"
proof -
  let ?n = "of_nat (length src) :: u64"
  obtain bits where bits: "BooleanArrayEncodeAll src b = Inr (0x10 # put_uvarint ?n @ bits)"
      "length bits = (length src + 7) div 8" "\<forall>k < length src. bit_at bits k = src ! k"
    by (rule BooleanArrayEncodeAll_block [OF assms])
  have "length src < 2 ^ 63" using assms(2) by simp
  then have count: "sint ?n = int (length src)" by (rule sint_of_nat_u64)
  have le: "length src \<le> length bits * 8" using bits(2) by presburger
  have read: "bool_bytes bits 0 dst' = src" if "length dst' = length src" for dst'
    using that bits(3) le by (intro nth_equalityI) (simp_all add: bool_bytes_bits)
  have "BooleanArrayDecodeAll (0x10 # put_uvarint ?n @ bits) dst = Inr src"
    unfolding BooleanArrayDecodeAll_def
    using le by (simp add: uvarint_put Let_def count read sl_cap_def)
  then show ?thesis using bits(1) by blast
qed

text \<open>Boolean lists whose count fits eight varint bytes.\<close>

definition bool_encodable :: "bool list \<Rightarrow> bool" where
  "bool_encodable src \<longleftrightarrow> length src < 2 ^ 56"

interpretation bool_codec: array_codec BooleanArrayEncodeAll BooleanArrayDecodeAll bool_encodable
  by unfold_locales (rule boolean_read_back; simp add: bool_encodable_def)

text \<open>
  Boolean blocks round trip, for fewer than \<open>2^56\<close> values (beyond that the count would not fit
  the eight bytes the encoder reserves) and whatever the two slices hold.
\<close>

theorem BooleanArray_roundtrip:
  assumes "sl_wf b" "length src < 2 ^ 56"
  shows "\<exists>blk. BooleanArrayEncodeAll src b = Inr blk \<and> BooleanArrayDecodeAll blk dst = Inr src"
  using assms by (rule boolean_read_back)

theorem BooleanArray_roundtrip_witness:
  "\<exists>blk. BooleanArrayEncodeAll [True, False, True] (slice_of [7]) = Inr blk \<and>
     BooleanArrayDecodeAll blk nil_slice = Inr [True, False, True]"
  by (rule BooleanArray_roundtrip) simp_all

end
