(* ===== verification/BatchString.thy ===== *)
theory BatchString
  imports BatchCommon
begin

text \<open>
  The batch string codec, \<open>src/backend/tsdb/engine/tsm1/batch_string.go\<close>. A string is its list of
  bytes. The strings are concatenated, each behind its length as a varint, and compressed with
  \<open>github.com/golang/snappy\<close>, which is a parameter of the model.
\<close>

unbundle bit_operations_syntax

subsection \<open>The compressor\<close>

text \<open>
  \<open>sn_encode dst src\<close> is the returned slice and the contents of \<open>dst\<close> afterwards;
  \<open>sn_max_len n\<close> is \<open>MaxEncodedLen(n)\<close>, with \<open>None\<close> for \<open>-1\<close>. What the package documents and this code
  relies on: a \<open>dst\<close> of at least \<open>MaxEncodedLen(len(src))\<close> bytes receives the encoding, the encoding
  is not longer than that, the bound grows with the length, and decoding inverts encoding.
\<close>

record snappy =
  sn_encode :: "u8 list \<Rightarrow> u8 list \<Rightarrow> u8 list \<times> u8 list"
  sn_max_len :: "nat \<Rightarrow> nat option"
  sn_decode :: "u8 list \<Rightarrow> u8 list res"

definition snappy_in_place :: "snappy \<Rightarrow> bool" where
  "snappy_in_place sn \<longleftrightarrow>
     (\<forall>dst src mle. sn_max_len sn (length src) = Some mle \<longrightarrow> mle \<le> length dst \<longrightarrow>
        (\<exists>res rest. sn_encode sn dst src = (res, res @ rest) \<and> length (res @ rest) = length dst))"

definition snappy_monotone :: "snappy \<Rightarrow> bool" where
  "snappy_monotone sn \<longleftrightarrow>
     (\<forall>m n mle. m \<le> n \<longrightarrow> sn_max_len sn n = Some mle \<longrightarrow> (\<exists>mle' \<le> mle. sn_max_len sn m = Some mle'))"

definition snappy_inverse :: "snappy \<Rightarrow> bool" where
  "snappy_inverse sn \<longleftrightarrow> (\<forall>dst src. sn_decode sn (fst (sn_encode sn dst src)) = Inr src)"

subsection \<open>Model\<close>

definition stringCompressedSnappy :: u8 where "stringCompressedSnappy = 1"

definition string_source_size :: "u8 list list \<Rightarrow> nat" where
  "string_source_size src = 2 + length src * 5 + sum_list (map length src)"

definition string_pieces :: "u8 list list \<Rightarrow> u8 list list" where
  "string_pieces src = concat (map (\<lambda>s. [put_uvarint (of_nat (length s)), s]) src)"

definition StringArrayEncodeAll :: "snappy \<Rightarrow> u8 list list \<Rightarrow> u8 slice \<Rightarrow> u8 list res" where
  "StringArrayEncodeAll sn src b =
     (let srcSz = string_source_size src
      in if srcSz > 0xFFFFFFFF then Inl (Err ''StringArrayEncodeAll: source length too large'')
         else
           case (if src \<noteq> [] then map_option Suc (sn_max_len sn srcSz) else Some 0) of
             None \<Rightarrow> Inl (Err ''StringArrayEncodeAll: source length too large'')
           | Some compressedSz \<Rightarrow>
               let totSz = srcSz + compressedSz;
                   buf = (if sl_cap b < totSz then replicate totSz 0 else take totSz (sl_arr b))
               in if src = [] then Inr (take 2 (buf[0 := push_bit 4 stringCompressedSnappy]))
                  else rbind (blits 0 (string_pieces src) (drop compressedSz buf)) (\<lambda>(dta, n).
                    let dst = (take compressedSz buf)[0 := push_bit 4 stringCompressedSnappy];
                        (res, dst') = sn_encode sn (drop 1 dst) (take n dta);
                        out = take 1 dst @ dst' @ dta
                    in if length res + 1 \<le> length out then Inr (take (length res + 1) out) else Inl Panic))"

text \<open>
  The loop over the decompressed bytes. \<open>int(length)\<close> may be negative and \<open>lower + int(length)\<close> may wrap:
  both make \<open>upper < lower\<close>. Only the values up to \<open>dst[:j]\<close> are kept; how \<open>dst\<close> grows is not.
\<close>

function string_loop :: "u8 list \<Rightarrow> nat \<Rightarrow> u8 list list res" where
  "string_loop b i =
     (if i < length b then
        let (len, n) = uvarint (drop i b)
        in if n \<le> 0 then Inl (Err ''StringArrayDecodeAll: invalid encoded string length'')
           else
             let lower = i + nat n
             in if sint len < 0 \<or> int lower + sint len \<ge> 2 ^ 63
                then Inl (Err ''StringArrayDecodeAll: length overflow'')
                else if lower + unat len > length b then Inl (Err ''StringArrayDecodeAll: short buffer'')
                else rbind (string_loop b (lower + unat len))
                       (\<lambda>rest. Inr (take (unat len) (drop lower b) # rest))
      else Inr [])"
  by pat_completeness auto
termination
  by (relation "measure (\<lambda>(b, i). length b - i)") auto

declare string_loop.simps [simp del]

definition StringArrayDecodeAll :: "snappy \<Rightarrow> u8 list \<Rightarrow> u8 list list res" where
  "StringArrayDecodeAll sn blk =
     (if blk = [] then Inr []
      else case sn_decode sn (drop 1 blk) of
             Inl e \<Rightarrow> Inl (Err ''failed to decode string block'')
           | Inr b \<Rightarrow> string_loop b 0)"

subsection \<open>Decoding what was written\<close>

lemma string_loop_pieces:
  assumes "length pre + length (concat (string_pieces src)) < 2 ^ 63"
  shows "string_loop (pre @ concat (string_pieces src)) (length pre) = Inr src"
  using assms
proof (induction src arbitrary: pre)
  case Nil
  show ?case by (simp add: string_loop.simps string_pieces_def)
next
  case (Cons s src)
  let ?u = "put_uvarint (of_nat (length s))"
  let ?rest = "concat (string_pieces src)"
  let ?b = "pre @ ?u @ s @ ?rest"
  have pieces: "concat (string_pieces (s # src)) = ?u @ s @ ?rest" by (simp add: string_pieces_def)
  have bound: "length pre + length ?u + length s < 2 ^ 63" "length s < 2 ^ 63"
    using Cons.prems unfolding pieces length_append by linarith+
  have uv: "uvarint (?u @ s @ ?rest) = (of_nat (length s), int (length ?u))" by (rule uvarint_put)
  have sn: "sint (of_nat (length s) :: u64) = int (length s)" by (rule sint_of_nat_u64 [OF bound(2)])
  have un: "unat (of_nat (length s) :: u64) = length s"
    using bound(2) by (intro unat_of_nat_u64) simp
  have no_ovf: "\<not> int (length pre + length ?u) + int (length s) \<ge> 2 ^ 63"
  proof -
    have "int (length pre + length ?u + length s) < int (2 ^ 63)"
      using bound(1) by (simp only: of_nat_less_iff)
    then show ?thesis by simp
  qed
  have rec: "string_loop ?b (length pre + length ?u + length s) = Inr src"
    using Cons.IH [of "pre @ ?u @ s"] Cons.prems unfolding pieces by (simp add: add.assoc)
  have u0: "0 < length ?u" by (rule length_put_uvarint_pos)
  have "string_loop ?b (length pre) = Inr (s # src)"
    apply (subst string_loop.simps)
    using uv sn un no_ovf rec u0 by (simp add: Let_def)
  then show ?case by (simp only: pieces)
qed

lemma string_pieces_size:
  assumes "string_source_size src \<le> 0xFFFFFFFF"
  shows "length (concat (string_pieces src)) + 2 \<le> string_source_size src"
  using assms
proof (induction src)
  case Nil
  show ?case by (simp add: string_pieces_def string_source_size_def)
next
  case (Cons s src)
  have s: "length s \<le> 0xFFFFFFFF" and src: "string_source_size src \<le> 0xFFFFFFFF"
    using Cons.prems by (simp_all add: string_source_size_def)
  have "unat (of_nat (length s) :: u64) = length s" using s by (intro unat_of_nat_u64) simp
  then have "length (put_uvarint (of_nat (length s))) \<le> 5"
    using length_put_uvarint_le [of "of_nat (length s)" 4] s by simp
  then show ?case
    using Cons.IH [OF src] by (simp add: string_pieces_def string_source_size_def)
qed

subsection \<open>Properties\<close>

lemma string_read_back:
  assumes "snappy_in_place sn" "snappy_monotone sn" "snappy_inverse sn"
    and "src \<noteq> []" "string_source_size src \<le> 0xFFFFFFFF"
    and "sn_max_len sn (string_source_size src) = Some mle"
  shows "\<exists>blk. StringArrayEncodeAll sn src b = Inr blk \<and> StringArrayDecodeAll sn blk = Inr src"
proof -
  let ?sz = "string_source_size src" and ?data = "concat (string_pieces src)"
  define buf where "buf = (if sl_cap b < ?sz + Suc mle then replicate (?sz + Suc mle) 0 else take (?sz + Suc mle) (sl_arr b))"
  have len: "length buf = ?sz + Suc mle" by (auto simp: buf_def sl_cap_def)
  have data: "length ?data + 2 \<le> ?sz" by (rule string_pieces_size [OF assms(5)])
  define dta where "dta = ?data @ drop (length ?data) (drop (Suc mle) buf)"
  have blits: "blits 0 (string_pieces src) (drop (Suc mle) buf) = Inr (dta, length ?data)"
    using data len by (simp add: blits_0 dta_def)
  define dst where "dst = (take (Suc mle) buf)[0 := push_bit 4 stringCompressedSnappy]"
  have dst: "length dst = Suc mle" "take 1 dst = [0x10]"
    using len by (simp_all add: dst_def take_Suc_conv_app_nth stringCompressedSnappy_def)
  obtain mle' where "mle' \<le> mle" "sn_max_len sn (length ?data) = Some mle'"
    using assms(2,6) data unfolding snappy_monotone_def by (metis add_leD1)
  then obtain res rest where enc: "sn_encode sn (drop 1 dst) ?data = (res, res @ rest)"
    using assms(1) dst(1) unfolding snappy_in_place_def by (metis diff_Suc_1 length_drop)
  have "take (length ?data) dta = ?data" by (simp add: dta_def)
  then have "StringArrayEncodeAll sn src b = Inr (0x10 # res)"
    unfolding StringArrayEncodeAll_def Let_def
    using assms(4-6) blits enc dst(2) buf_def dst_def by simp
  moreover have "sn_decode sn res = Inr ?data"
    using assms(3) enc unfolding snappy_inverse_def by (metis fst_conv)
  moreover have "string_loop ?data 0 = Inr src"
    using string_loop_pieces [of "[]" src] data assms(5) by simp
  ultimately show ?thesis by (simp add: StringArrayDecodeAll_def)
qed

text \<open>Non-empty sources the encoder and the compressor accept.\<close>

definition string_encodable :: "snappy \<Rightarrow> u8 list list \<Rightarrow> bool" where
  "string_encodable sn src \<longleftrightarrow> src \<noteq> [] \<and> string_source_size src \<le> 0xFFFFFFFF \<and>
     sn_max_len sn (string_source_size src) \<noteq> None"

lemma string_array_codec:
  assumes "snappy_in_place sn" "snappy_monotone sn" "snappy_inverse sn"
  shows "array_codec (StringArrayEncodeAll sn) (\<lambda>b _. StringArrayDecodeAll sn b) (string_encodable sn)"
  using string_read_back [OF assms] by unfold_locales (auto simp: string_encodable_def)

text \<open>
  String blocks round trip through any compressor that keeps its documented contract, for
  sources the encoder does not refuse as too large: the buffer sizes it computes leave the
  compressor enough room, whatever slice it is given.
\<close>

theorem StringArray_roundtrip:
  assumes "snappy_in_place sn" "snappy_monotone sn" "snappy_inverse sn"
    and "src \<noteq> []" "string_source_size src \<le> 0xFFFFFFFF"
    and "sn_max_len sn (string_source_size src) = Some mle"
  shows "\<exists>blk. StringArrayEncodeAll sn src b = Inr blk \<and> StringArrayDecodeAll sn blk = Inr src"
  using assms by (rule string_read_back)

definition stored :: snappy where
  "stored = \<lparr>sn_encode = (\<lambda>dst src. (src, src @ drop (length src) dst)), sn_max_len = Some, sn_decode = Inr\<rparr>"

theorem StringArray_roundtrip_witness:
  "\<exists>blk. StringArrayEncodeAll stored [[104, 105], [], [33]] nil_slice = Inr blk \<and>
     StringArrayDecodeAll stored blk = Inr [[104, 105], [], [33]]"
  by (rule StringArray_roundtrip)
    (auto simp: stored_def snappy_in_place_def snappy_monotone_def snappy_inverse_def string_source_size_def)

text \<open>
  Encoding no strings into a slice with spare contents: the shortcut sets the header byte and
  returns two bytes, but not the second one, which should be the zero length of an empty snappy
  block. Whatever the slice held there is returned as part of the block.
\<close>

theorem StringArrayEncodeAll_empty_stale:
  assumes "2 \<le> sl_cap b"
  shows "StringArrayEncodeAll sn [] b = Inr [0x10, sl_arr b ! 1]"
proof -
  obtain x y rest where "sl_arr b = x # y # rest"
    using assms unfolding sl_cap_def by (metis Suc_le_length_iff numeral_2_eq_2)
  then show ?thesis
    by (simp add: StringArrayEncodeAll_def string_source_size_def sl_cap_def stringCompressedSnappy_def)
qed

theorem StringArrayEncodeAll_empty_stale_witness:
  "StringArrayEncodeAll stored [] (slice_of [9, 9]) = Inr [0x10, 9]"
  using StringArrayEncodeAll_empty_stale [of "slice_of [9, 9]" stored] by (simp add: slice_of_def sl_cap_def)

end
