(* ===== verification/TsmBlock.thy ===== *)
theory TsmBlock
  imports BatchInteger BatchTimestamp BatchBoolean BatchString
begin

text \<open>
  Blocks of timestamps and values: \<open>packBlock\<close> and \<open>unpackBlock\<close> of
  \<open>src/backend/tsdb/engine/tsm1/encoding.go\<close>, the array block encoders of \<open>encoding.gen.go\<close> and the array
  block decoders of \<open>array_encoding.go\<close>. The encoders and decoders of the value types are the same
  text with another codec and another type byte, so each is an instance of one definition over the
  codec; the round trip is proved once, in the context of the codec contract.
\<close>

unbundle bit_operations_syntax

subsection \<open>Model\<close>

definition BlockInteger :: u8 where "BlockInteger = 1"
definition BlockBoolean :: u8 where "BlockBoolean = 2"
definition BlockString :: u8 where "BlockString = 3"
definition BlockUnsigned :: u8 where "BlockUnsigned = 4"

definition packBlock :: "u8 slice \<Rightarrow> u8 \<Rightarrow> u8 list \<Rightarrow> u8 list \<Rightarrow> u8 list res" where
  "packBlock buf typ ts vals =
     (let sz = 1 + 10 + length ts + length vals;
          b = (if sl_cap buf < sz then replicate sz 0 else take sz (sl_arr buf))
      in rbind (blits 0 [[typ], put_uvarint (of_nat (length ts)), ts, vals] b) (\<lambda>(b', i). Inr (take i b')))"

text \<open>\<open>int(i) + int(tsLen)\<close> wraps; a sum below \<open>i\<close> is an invalid slice bound.\<close>

definition unpackBlock :: "u8 list \<Rightarrow> (u8 list \<times> u8 list) res" where
  "unpackBlock buf =
     (let (tsLen, i) = uvarint buf
      in if i \<le> 0 then Inl (Err ''unpackBlock: unable to read timestamp block length'')
         else let tsIdx = sint (of_int i + tsLen)
              in if tsIdx > int (length buf) then Inl (Err ''unpackBlock: not enough data for timestamp'')
                 else if tsIdx < i then Inl Panic
                 else Inr (drop (nat i) (take (nat tsIdx) buf), drop (nat tsIdx) buf))"

text \<open>\<open>tsdb.IntegerArray\<close> and its siblings.\<close>

record 'v ts_array =
  Timestamps :: "i64 slice"
  Values :: "'v slice"

definition encode_array_block ::
  "u8 \<Rightarrow> ('v list \<Rightarrow> u8 slice \<Rightarrow> u8 list res) \<Rightarrow> 'v ts_array \<Rightarrow> u8 slice \<Rightarrow> u8 list res" where
  "encode_array_block typ encode_values a b =
     (if sl_list (Timestamps a) = [] then Inr []
      else rbind (encode_values (sl_list (Values a)) nil_slice) (\<lambda>vb.
           rbind (TimeArrayEncodeAll (sl_list (Timestamps a)) nil_slice) (\<lambda>tb.
           packBlock b typ tb vb)))"

definition EncodeIntegerArrayBlock :: "i64 ts_array \<Rightarrow> u8 slice \<Rightarrow> u8 list res" where
  "EncodeIntegerArrayBlock = encode_array_block BlockInteger IntegerArrayEncodeAll"

definition EncodeUnsignedArrayBlock :: "u64 ts_array \<Rightarrow> u8 slice \<Rightarrow> u8 list res" where
  "EncodeUnsignedArrayBlock = encode_array_block BlockUnsigned UnsignedArrayEncodeAll"

definition EncodeStringArrayBlock :: "snappy \<Rightarrow> u8 list ts_array \<Rightarrow> u8 slice \<Rightarrow> u8 list res" where
  "EncodeStringArrayBlock sn = encode_array_block BlockString (StringArrayEncodeAll sn)"

definition EncodeBooleanArrayBlock :: "bool ts_array \<Rightarrow> u8 slice \<Rightarrow> u8 list res" where
  "EncodeBooleanArrayBlock = encode_array_block BlockBoolean BooleanArrayEncodeAll"

text \<open>
  The decoders assign to the array they are given before they test the error: the result is the
  error, if any, and the array. A failed codec returns an empty slice. After a success the array
  shows the decoded values; that their backing array may be larger is not kept.
\<close>

definition decode_array_block ::
  "u8 \<Rightarrow> (u8 list \<Rightarrow> 'v slice \<Rightarrow> 'v list res) \<Rightarrow> u8 list \<Rightarrow> 'v ts_array \<Rightarrow> go_err option \<times> 'v ts_array" where
  "decode_array_block typ decode_values block a =
     (if block = [] then (Some Panic, a)
      else if block ! 0 \<noteq> typ then (Some (Err ''invalid block type''), a)
      else case unpackBlock (drop 1 block) of
             Inl e \<Rightarrow> (Some e, a)
           | Inr (tb, vb) \<Rightarrow>
               (case TimeArrayDecodeAll tb (Timestamps a) of
                  Inl Panic \<Rightarrow> (Some Panic, a)
                | Inl e \<Rightarrow> (Some e, a\<lparr>Timestamps := nil_slice\<rparr>)
                | Inr ts \<Rightarrow>
                    let a = a\<lparr>Timestamps := slice_of ts\<rparr>
                    in case decode_values vb (Values a) of
                         Inl Panic \<Rightarrow> (Some Panic, a)
                       | Inl e \<Rightarrow> (Some e, a\<lparr>Values := nil_slice\<rparr>)
                       | Inr vs \<Rightarrow> (None, a\<lparr>Values := slice_of vs\<rparr>)))"

definition DecodeIntegerArrayBlock :: "u8 list \<Rightarrow> i64 ts_array \<Rightarrow> go_err option \<times> i64 ts_array" where
  "DecodeIntegerArrayBlock = decode_array_block BlockInteger IntegerArrayDecodeAll"

definition DecodeUnsignedArrayBlock :: "u8 list \<Rightarrow> u64 ts_array \<Rightarrow> go_err option \<times> u64 ts_array" where
  "DecodeUnsignedArrayBlock = decode_array_block BlockUnsigned UnsignedArrayDecodeAll"

definition DecodeStringArrayBlock ::
  "snappy \<Rightarrow> u8 list \<Rightarrow> u8 list ts_array \<Rightarrow> go_err option \<times> u8 list ts_array" where
  "DecodeStringArrayBlock sn = decode_array_block BlockString (\<lambda>b _. StringArrayDecodeAll sn b)"

definition DecodeBooleanArrayBlock :: "u8 list \<Rightarrow> bool ts_array \<Rightarrow> go_err option \<times> bool ts_array" where
  "DecodeBooleanArrayBlock = decode_array_block BlockBoolean BooleanArrayDecodeAll"

subsection \<open>Packing\<close>

lemma packBlock_bytes:
  "packBlock buf typ ts vals = Inr (typ # put_uvarint (of_nat (length ts)) @ ts @ vals)"
proof -
  have "length (put_uvarint (of_nat (length ts))) \<le> 10" by (rule length_put_uvarint)
  then show ?thesis
    by (auto simp: packBlock_def Let_def sl_cap_def blits_taken)
qed

lemma unpackBlock_packed:
  assumes "length ts + 10 < 2 ^ 63"
  shows "unpackBlock (put_uvarint (of_nat (length ts)) @ ts @ vals) = Inr (ts, vals)"
proof -
  let ?u = "put_uvarint (of_nat (length ts))"
  have "length ?u \<le> 10" by (rule length_put_uvarint)
  then have lt: "length ?u + length ts < 2 ^ 63" using assms by linarith
  have "of_int (int (length ?u)) + of_nat (length ts) = (of_nat (length ?u + length ts) :: u64)" by simp
  then have idx: "sint (of_int (int (length ?u)) + of_nat (length ts) :: u64) = int (length ?u + length ts)"
    by (simp only: sint_of_nat_u64 [OF lt])
  have "nat (int (length ?u + length ts)) = length ?u + length ts" by (simp only: nat_int)
  then show ?thesis
    unfolding unpackBlock_def uvarint_put Let_def split idx by simp
qed

text \<open>An array shows \<open>ts\<close> and \<open>vs\<close>.\<close>

definition array_of :: "i64 list \<Rightarrow> 'v list \<Rightarrow> 'v ts_array" where
  "array_of ts vs = \<lparr>Timestamps = slice_of ts, Values = slice_of vs\<rparr>"

text \<open>Arrays short enough for their timestamp block to have an \<open>int\<close> length.\<close>

definition block_sized :: "i64 list \<Rightarrow> bool" where
  "block_sized ts \<longleftrightarrow> ts \<noteq> [] \<and> length ts < 2 ^ 59"

context array_codec
begin

lemma array_block_read_back:
  assumes "block_sized ts" and "encodable vs"
  shows "\<exists>blk. encode_array_block typ encode (array_of ts vs) b = Inr blk \<and>
    decode_array_block typ decode blk a = (None, array_of ts vs)"
proof -
  have ts: "length ts < 2 ^ 63" "ts \<noteq> []" using assms(1) by (simp_all add: block_sized_def)
  obtain vb where vb: "encode vs nil_slice = Inr vb" "\<And>dst. decode vb dst = Inr vs"
    using encoded_reads [OF assms(2)] by blast
  obtain tb where tb: "TimeArrayEncodeAll ts nil_slice = Inr tb" "\<And>dst. TimeArrayDecodeAll tb dst = Inr ts"
    using time_codec.encoded_reads [of ts] ts(1) by (auto simp: go_length_def)
  have "length tb \<le> 29 + 8 * length ts"
    using TimeArrayEncodeAll_length [OF _ tb(1)] by simp
  then have len: "length tb + 10 < 2 ^ 63" using assms(1) by (simp add: block_sized_def)
  let ?blk = "typ # put_uvarint (of_nat (length tb)) @ tb @ vb"
  have "encode_array_block typ encode (array_of ts vs) b = Inr ?blk"
    using ts(2) by (simp add: encode_array_block_def array_of_def vb(1) tb(1) packBlock_bytes)
  moreover have "decode_array_block typ decode ?blk a = (None, array_of ts vs)"
    using tb(2) vb(2) by (simp add: decode_array_block_def unpackBlock_packed [OF len] array_of_def)
  ultimately show ?thesis by blast
qed

end

subsection \<open>Properties\<close>

text \<open>
  C8. Integer blocks: an array of timestamps and integers encoded with \<open>EncodeIntegerArrayBlock\<close> is
  recovered by \<open>DecodeIntegerArrayBlock\<close>, timestamps and values, into whatever array it is decoded
  and from whatever buffer it was packed into.
\<close>

theorem IntegerArrayBlock_roundtrip:
  assumes "block_sized ts" "length vs < 2 ^ 63"
  shows "\<exists>blk. EncodeIntegerArrayBlock (array_of ts vs) b = Inr blk \<and>
    DecodeIntegerArrayBlock blk a = (None, array_of ts vs)"
  using int_codec.array_block_read_back [OF assms(1), of vs] assms(2)
  by (simp only: go_length_def EncodeIntegerArrayBlock_def DecodeIntegerArrayBlock_def)

theorem IntegerArrayBlock_roundtrip_witness:
  "\<exists>blk. EncodeIntegerArrayBlock (array_of [10, 20] [- 1, 5]) nil_slice = Inr blk \<and>
    DecodeIntegerArrayBlock blk (array_of [7] [7]) = (None, array_of [10, 20] [- 1, 5])"
  by (rule IntegerArrayBlock_roundtrip) (simp_all add: block_sized_def)

text \<open>The same for blocks of unsigned integers and of booleans.\<close>

theorem UnsignedBooleanArrayBlock_roundtrip:
  assumes "block_sized ts" "length us < 2 ^ 63" "length bs < 2 ^ 56"
  shows "(\<exists>blk. EncodeUnsignedArrayBlock (array_of ts us) b = Inr blk \<and>
      DecodeUnsignedArrayBlock blk au = (None, array_of ts us)) \<and>
    (\<exists>blk. EncodeBooleanArrayBlock (array_of ts bs) b = Inr blk \<and>
      DecodeBooleanArrayBlock blk ab = (None, array_of ts bs))"
  using unsigned_codec.array_block_read_back [OF assms(1), of us BlockUnsigned b au]
    bool_codec.array_block_read_back [OF assms(1), of bs BlockBoolean b ab] assms(2,3)
  by (simp only: go_length_def bool_encodable_def EncodeUnsignedArrayBlock_def DecodeUnsignedArrayBlock_def
      EncodeBooleanArrayBlock_def DecodeBooleanArrayBlock_def)

theorem UnsignedBooleanArrayBlock_roundtrip_witness:
  "(\<exists>blk. EncodeUnsignedArrayBlock (array_of [3] [4]) nil_slice = Inr blk \<and>
      DecodeUnsignedArrayBlock blk (array_of [] []) = (None, array_of [3] [4])) \<and>
    (\<exists>blk. EncodeBooleanArrayBlock (array_of [3] [True]) nil_slice = Inr blk \<and>
      DecodeBooleanArrayBlock blk (array_of [] []) = (None, array_of [3] [True]))"
  by (rule UnsignedBooleanArrayBlock_roundtrip) (simp_all add: block_sized_def)

text \<open>
  C19. The same for blocks of strings, under the documented contract of the compressor.
\<close>

theorem StringArrayBlock_roundtrip:
  assumes "snappy_in_place sn" "snappy_monotone sn" "snappy_inverse sn"
    and "block_sized ts" "string_encodable sn vs"
  shows "\<exists>blk. EncodeStringArrayBlock sn (array_of ts vs) b = Inr blk \<and>
    DecodeStringArrayBlock sn blk a = (None, array_of ts vs)"
  using array_codec.array_block_read_back [OF string_array_codec [OF assms(1-3)] assms(4,5)]
  by (simp only: EncodeStringArrayBlock_def DecodeStringArrayBlock_def)

theorem StringArrayBlock_roundtrip_witness:
  "\<exists>blk. EncodeStringArrayBlock stored (array_of [1] [[97]]) nil_slice = Inr blk \<and>
    DecodeStringArrayBlock stored blk (array_of [] []) = (None, array_of [1] [[97]])"
  by (rule StringArrayBlock_roundtrip)
    (auto simp: stored_def snappy_in_place_def snappy_monotone_def snappy_inverse_def
      block_sized_def string_encodable_def string_source_size_def)

end
