(* ===== verification/Simple8bStream.thy ===== *)
theory Simple8bStream
  imports Simple8b
begin

text \<open>
  The streaming half of \<open>src/backend/pkg/encoding/simple8b/encoding.go\<close>: the \<open>Encoder\<close>, which
  buffers up to 240 integers and flushes one packed word at a time into a growing byte slice, and
  the \<open>Decoder\<close>, which walks the packed words. Each struct is a record, each method a function
  on it. \<open>Encoder.Bytes\<close> loops until the buffer is empty; it is a partial function into
  \<open>option\<close>, and the lemmas show that it returns in every state the methods can reach.
\<close>

unbundle bit_operations_syntax

subsection \<open>Encoder\<close>

record s8b_encoder =
  e_buf :: "u64 slice"
  e_h :: nat
  e_t :: nat
  e_bp :: nat
  e_bytes :: "u8 slice"
  e_b :: "u8 list"

definition NewEncoder :: s8b_encoder where
  "NewEncoder =
     \<lparr>e_buf = slice_of (replicate 240 0), e_h = 0, e_t = 0, e_bp = 0,
      e_bytes = slice_of (replicate 128 0), e_b = replicate 8 0\<rparr>"

definition encoder_SetValues :: "s8b_encoder \<Rightarrow> u64 slice \<Rightarrow> s8b_encoder" where
  "encoder_SetValues e v =
     e\<lparr>e_buf := v, e_t := sl_len v, e_h := 0, e_bytes := (e_bytes e)\<lparr>sl_len := 0\<rparr>\<rparr>"

definition encoder_Reset :: "s8b_encoder \<Rightarrow> s8b_encoder res" where
  "encoder_Reset e =
     rbind (sl_reslice 240 (e_buf e)) (\<lambda>buf.
     rbind (sl_reslice 128 (e_bytes e)) (\<lambda>bytes.
     Inr (e\<lparr>e_t := 0, e_h := 0, e_bp := 0, e_buf := buf, e_bytes := bytes\<rparr>)))"

definition encoder_put :: "s8b_encoder \<Rightarrow> u8 list \<Rightarrow> s8b_encoder" where
  "encoder_put e b =
     (if e_bp e + 8 > sl_len (e_bytes e)
      then (let bytes = sl_append (e_bytes e) b in e\<lparr>e_b := b, e_bytes := bytes, e_bp := sl_len bytes\<rparr>)
      else e\<lparr>e_b := b,
             e_bytes := (e_bytes e)\<lparr>sl_arr := take (e_bp e) (sl_arr (e_bytes e)) @ b @
                                      drop (e_bp e + 8) (sl_arr (e_bytes e))\<rparr>,
             e_bp := e_bp e + 8\<rparr>)"

definition encoder_flush :: "s8b_encoder \<Rightarrow> s8b_encoder res" where
  "encoder_flush e =
     (if e_t e = 0 then Inr e
      else rbind (sl_sub (e_h e) (e_t e) (e_buf e)) (\<lambda>pending.
           rbind (Encode pending) (\<lambda>(encoded, n).
           let e1 = encoder_put e (put_be_u64 encoded);
               h = e_h e + n
           in Inr (if h = e_t e then e1\<lparr>e_h := 0, e_t := 0\<rparr> else e1\<lparr>e_h := h\<rparr>))))"

definition encoder_shift :: "s8b_encoder \<Rightarrow> s8b_encoder" where
  "encoder_shift e =
     (if e_t e \<ge> sl_len (e_buf e)
      then (let xs = drop (e_h e) (sl_list (e_buf e))
            in e\<lparr>e_buf := (e_buf e)\<lparr>sl_arr := xs @ drop (length xs) (sl_arr (e_buf e))\<rparr>,
                 e_t := e_t e - e_h e, e_h := 0\<rparr>)
      else e)"

definition encoder_Write :: "s8b_encoder \<Rightarrow> u64 \<Rightarrow> s8b_encoder res" where
  "encoder_Write e v =
     rbind (if e_t e \<ge> sl_len (e_buf e) then encoder_flush e else Inr e) (\<lambda>e1.
     let e2 = encoder_shift e1
     in rbind (sl_set (e_t e2) v (e_buf e2)) (\<lambda>buf. Inr (e2\<lparr>e_buf := buf, e_t := e_t e2 + 1\<rparr>)))"

partial_function (option) encoder_flush_all :: "s8b_encoder \<Rightarrow> s8b_encoder res option" where
  "encoder_flush_all e =
     (if e_t e > 0
      then (case encoder_flush e of Inl err \<Rightarrow> Some (Inl err) | Inr e' \<Rightarrow> encoder_flush_all e')
      else Some (Inr e))"

definition encoder_Bytes :: "s8b_encoder \<Rightarrow> (s8b_encoder \<times> u8 list) res option" where
  "encoder_Bytes e =
     map_option (\<lambda>r. rbind r (\<lambda>e'. rbind (sl_reslice (e_bp e') (e_bytes e')) (\<lambda>s. Inr (e', sl_list s))))
       (encoder_flush_all e)"

text \<open>Writing a sequence of values, as the callers do, stopping at the first error.\<close>

fun encoder_Write_list :: "s8b_encoder \<Rightarrow> u64 list \<Rightarrow> s8b_encoder res" where
  "encoder_Write_list e [] = Inr e"
| "encoder_Write_list e (v # vs) = rbind (encoder_Write e v) (\<lambda>e'. encoder_Write_list e' vs)"

subsection \<open>Decoder\<close>

record s8b_decoder =
  d_bytes :: "u8 list"
  d_buf :: "u64 list"
  d_i :: nat
  d_n :: nat

definition NewDecoder :: "u8 list \<Rightarrow> s8b_decoder" where
  "NewDecoder b = \<lparr>d_bytes = b, d_buf = replicate 240 0, d_i = 0, d_n = 0\<rparr>"

definition decoder_SetBytes :: "s8b_decoder \<Rightarrow> u8 list \<Rightarrow> s8b_decoder" where
  "decoder_SetBytes d b = d\<lparr>d_bytes := b, d_i := 0, d_n := 0\<rparr>"

definition decoder_read :: "s8b_decoder \<Rightarrow> s8b_decoder" where
  "decoder_read d =
     (if length (d_bytes d) < 8 then d
      else (let v = be_u64 (d_bytes d)
            in case Decode (d_buf d) v of
                 Inl _ \<Rightarrow> d\<lparr>d_bytes := drop 8 (d_bytes d), d_n := 0, d_i := 0\<rparr>
               | Inr (buf, n) \<Rightarrow> d\<lparr>d_bytes := drop 8 (d_bytes d), d_buf := buf, d_n := n, d_i := 0\<rparr>))"

definition decoder_Next :: "s8b_decoder \<Rightarrow> bool \<times> s8b_decoder" where
  "decoder_Next d =
     (let d1 = d\<lparr>d_i := d_i d + 1\<rparr>;
          d2 = (if d_i d1 \<ge> d_n d1 then decoder_read d1 else d1)
      in (length (d_bytes d2) \<ge> 8 \<or> d_i d2 < d_n d2, d2))"

definition decoder_Read :: "s8b_decoder \<Rightarrow> u64 res" where
  "decoder_Read d = (if d_i d < length (d_buf d) then Inr (d_buf d ! d_i d) else Inl Panic)"

text \<open>\<open>for d.Next() { out = append(out, d.Read()) }\<close>\<close>

function decoder_drain :: "s8b_decoder \<Rightarrow> u64 list res" where
  "decoder_drain d =
     (if fst (decoder_Next d)
      then rbind (decoder_Read (snd (decoder_Next d))) (\<lambda>v.
           rbind (decoder_drain (snd (decoder_Next d))) (\<lambda>vs. Inr (v # vs)))
      else Inr [])"
  by pat_completeness auto
termination
proof (relation "measures [\<lambda>d. length (d_bytes d), \<lambda>d. d_n d - d_i d]")
  fix d :: s8b_decoder and v :: u64
  assume "fst (decoder_Next d)"
  then show "(snd (decoder_Next d), d) \<in> measures [\<lambda>d. length (d_bytes d), \<lambda>d. d_n d - d_i d]"
    by (auto simp: decoder_Next_def decoder_read_def Let_def split: if_splits sum.splits)
qed simp

declare decoder_drain.simps [simp del]

section \<open>Correctness\<close>

subsection \<open>The decoder yields the packed values\<close>

definition decoder_wf :: "s8b_decoder \<Rightarrow> bool" where
  "decoder_wf d \<longleftrightarrow> length (d_buf d) = 240 \<and> d_n d \<le> 240"

definition decoder_pending :: "s8b_decoder \<Rightarrow> u64 list" where
  "decoder_pending d = drop (d_i d + 1) (take (d_n d) (d_buf d))"

lemma length_decode_word_le: "length (decode_word v) \<le> 240"
proof -
  have "\<forall>p \<in> set selector. pk_n p \<le> 240" by (simp add: selector_def)
  then show ?thesis using sel_less_16 [of v] by (simp add: length_decode_word)
qed

lemma Decode_word:
  "Decode buf w = Inr (decode_word w @ drop (length (decode_word w)) buf, length (decode_word w))"
  using sel_less_16 [of w] by (simp add: Decode_def Let_def unpack_decode_word length_decode_word)

lemma decoder_Next_inside:
  assumes "d_i d + 1 < d_n d"
  shows "decoder_Next d = (True, d\<lparr>d_i := d_i d + 1\<rparr>)"
  using assms by (simp add: decoder_Next_def Let_def)

lemma decoder_Next_word:
  assumes "\<not> d_i d + 1 < d_n d" and "d_bytes d = put_be_u64 w @ bs"
  shows "decoder_Next d
    = (True, d\<lparr>d_bytes := bs, d_buf := decode_word w @ drop (length (decode_word w)) (d_buf d),
              d_n := length (decode_word w), d_i := 0\<rparr>)"
  using assms length_decode_word_pos [of w]
  by (simp add: decoder_Next_def decoder_read_def Let_def Decode_word)

lemma decoder_Next_end:
  assumes "\<not> d_i d + 1 < d_n d" and "length (d_bytes d) < 8"
  shows "\<not> fst (decoder_Next d)"
  using assms by (simp add: decoder_Next_def decoder_read_def Let_def)

lemma decoder_drain_words:
  "decoder_wf d \<Longrightarrow> d_bytes d = be_words ws @ rest \<Longrightarrow> length rest < 8 \<Longrightarrow>
   decoder_drain d = Inr (decoder_pending d @ decode_words ws)"
proof (induction d arbitrary: ws rule: decoder_drain.induct)
  case (1 d)
  show ?case
  proof (cases "d_i d + 1 < d_n d")
    case True
    let ?d = "d\<lparr>d_i := d_i d + 1\<rparr>"
    note nx = decoder_Next_inside [OF True]
    have "decoder_drain ?d = Inr (decoder_pending ?d @ decode_words ws)"
      using "1.IH" [of ws] "1.prems" nx by (simp add: decoder_wf_def)
    moreover have "decoder_Read ?d = Inr (d_buf d ! (d_i d + 1))"
      using "1.prems"(1) True by (simp add: decoder_Read_def decoder_wf_def)
    moreover have "decoder_pending d = d_buf d ! (d_i d + 1) # decoder_pending ?d"
      using "1.prems"(1) True
      by (simp add: decoder_pending_def decoder_wf_def Cons_nth_drop_Suc [symmetric])
    ultimately show ?thesis using nx by (subst decoder_drain.simps) simp
  next
    case False
    then have pend: "decoder_pending d = []" by (simp add: decoder_pending_def)
    show ?thesis
    proof (cases ws)
      case Nil
      then have "\<not> fst (decoder_Next d)" using decoder_Next_end [OF False] "1.prems" by simp
      then show ?thesis using Nil pend by (subst decoder_drain.simps) simp
    next
      case (Cons w ws')
      let ?dw = "decode_word w"
      let ?d = "d\<lparr>d_bytes := be_words ws' @ rest, d_buf := ?dw @ drop (length ?dw) (d_buf d),
          d_n := length ?dw, d_i := 0\<rparr>"
      have nx: "decoder_Next d = (True, ?d)"
        using decoder_Next_word [OF False, of w "be_words ws' @ rest"] "1.prems" Cons by simp
      have wf: "decoder_wf ?d"
        using "1.prems"(1) length_decode_word_le [of w] by (simp add: decoder_wf_def)
      have "decoder_drain ?d = Inr (decoder_pending ?d @ decode_words ws')"
        using "1.IH" [of ws'] "1.prems"(3) nx wf by simp
      moreover have "?dw = hd ?dw # drop 1 ?dw"
        using length_decode_word_pos [of w] by (cases ?dw) auto
      moreover have "decoder_Read ?d = Inr (hd ?dw)"
        using length_decode_word_pos [of w] by (cases ?dw) (auto simp: decoder_Read_def)
      moreover have "decoder_pending ?d = drop 1 ?dw" by (simp add: decoder_pending_def)
      ultimately show ?thesis using nx pend Cons by (subst decoder_drain.simps) simp
    qed
  qed
qed

subsection \<open>The encoder keeps what was written\<close>

text \<open>
  The flushed bytes decode to a prefix of the values written and the buffer holds the rest, in
  order.
\<close>

definition encoder_inv :: "s8b_encoder \<Rightarrow> u64 list \<Rightarrow> bool" where
  "encoder_inv e vs \<longleftrightarrow>
     sl_len (e_buf e) = 240 \<and> length (sl_arr (e_buf e)) = 240 \<and>
     e_h e \<le> e_t e \<and> e_t e \<le> 240 \<and> (e_h e = e_t e \<longrightarrow> e_t e = 0) \<and>
     sl_wf (e_bytes e) \<and> 8 dvd sl_len (e_bytes e) \<and> e_bp e \<le> sl_len (e_bytes e) \<and>
     (\<exists>ws. e_bp e = 8 * length ws \<and> take (e_bp e) (sl_arr (e_bytes e)) = be_words ws \<and>
           decode_words ws @ drop (e_h e) (take (e_t e) (sl_arr (e_buf e))) = vs)"

lemma NewEncoder_inv: "encoder_inv NewEncoder []"
  by (auto simp: encoder_inv_def NewEncoder_def slice_of_def sl_wf_def intro: exI [of _ "[]"])

lemma encoder_put_fields [simp]:
  "e_buf (encoder_put e b) = e_buf e" "e_h (encoder_put e b) = e_h e" "e_t (encoder_put e b) = e_t e"
  by (simp_all add: encoder_put_def Let_def)

lemma encoder_put_bytes:
  assumes "sl_wf (e_bytes e)" and "8 dvd sl_len (e_bytes e)" and "e_bp e \<le> sl_len (e_bytes e)"
    and "8 dvd e_bp e" and "length b = 8"
  defines "e' \<equiv> encoder_put e b"
  shows "sl_wf (e_bytes e')" and "8 dvd sl_len (e_bytes e')" and "e_bp e' \<le> sl_len (e_bytes e')"
    and "e_bp e' = e_bp e + 8"
    and "take (e_bp e') (sl_arr (e_bytes e')) = take (e_bp e) (sl_arr (e_bytes e)) @ b"
proof -
  let ?s = "e_bytes e"
  have full: "e_bp e = sl_len ?s" if "sl_len ?s < e_bp e + 8"
    using assms(2-4) that by (auto simp: dvd_def)
  have "sl_wf (e_bytes e') \<and> 8 dvd sl_len (e_bytes e') \<and> e_bp e' \<le> sl_len (e_bytes e') \<and>
    e_bp e' = e_bp e + 8 \<and>
    take (e_bp e') (sl_arr (e_bytes e')) = take (e_bp e) (sl_arr ?s) @ b"
  proof (cases "sl_len ?s < e_bp e + 8")
    case True
    then show ?thesis
      using assms full [OF True]
      by (auto simp: e'_def encoder_put_def Let_def sl_append_def sl_wf_def sl_cap_def sl_list_def
          slice_of_def)
  next
    case False
    then show ?thesis
      using assms by (auto simp: e'_def encoder_put_def sl_wf_def)
  qed
  then show "sl_wf (e_bytes e')" "8 dvd sl_len (e_bytes e')" "e_bp e' \<le> sl_len (e_bytes e')"
    "e_bp e' = e_bp e + 8"
    "take (e_bp e') (sl_arr (e_bytes e')) = take (e_bp e) (sl_arr ?s) @ b"
    by blast+
qed

lemma encoder_flush_inv:
  assumes inv: "encoder_inv e vs" and max: "\<forall>v \<in> set vs. v \<le> MaxValue" and t: "e_t e > 0"
  shows "\<exists>e'. encoder_flush e = Inr e' \<and> encoder_inv e' vs \<and>
    e_t e' - e_h e' < e_t e - e_h e \<and> (e_t e' = 0 \<or> e_t e' = e_t e \<and> e_h e < e_h e')"
proof -
  let ?p = "drop (e_h e) (take (e_t e) (sl_arr (e_buf e)))"
  obtain ws where ws: "e_bp e = 8 * length ws" "take (e_bp e) (sl_arr (e_bytes e)) = be_words ws"
    "decode_words ws @ ?p = vs"
    using inv by (auto simp: encoder_inv_def)
  have ht: "e_h e < e_t e" and t240: "e_t e \<le> length (sl_arr (e_buf e))"
    using inv t by (auto simp: encoder_inv_def)
  then have ne: "?p \<noteq> []" and lp: "length ?p = e_t e - e_h e" by auto
  have "hd ?p \<in> set vs" using ne ws(3) by (metis UnCI hd_in_set set_append)
  then obtain w n where enc: "Encode ?p = Inr (w, n)"
    using Encode_total [OF ne] max by (metis surj_pair)
  have d: "0 < n" "n \<le> length ?p" "decode_word w = take n ?p"
    using Encode_decode [OF enc ne] by auto
  define e1 where "e1 = encoder_put e (put_be_u64 w)"
  have b: "sl_wf (e_bytes e1)" "8 dvd sl_len (e_bytes e1)" "e_bp e1 \<le> sl_len (e_bytes e1)"
    "e_bp e1 = 8 * length (ws @ [w])" "take (e_bp e1) (sl_arr (e_bytes e1)) = be_words (ws @ [w])"
    using encoder_put_bytes [of e "put_be_u64 w"] inv ws(1,2) by (auto simp: e1_def encoder_inv_def)
  have f: "e_buf e1 = e_buf e" "e_h e1 = e_h e" "e_t e1 = e_t e" by (simp_all add: e1_def)
  have "decode_words (ws @ [w]) @ drop n ?p = decode_words ws @ (take n ?p @ drop n ?p)"
    by (simp only: decode_words_simps d(3) append_assoc append_Nil2 append_Nil)
  then have pd: "decode_words (ws @ [w]) @ drop n ?p = vs"
    using ws(3) by (simp only: append_take_drop_id)
  define e' where "e' = (if e_h e + n = e_t e then e1\<lparr>e_h := 0, e_t := 0\<rparr> else e1\<lparr>e_h := e_h e + n\<rparr>)"
  have "encoder_flush e = Inr e'"
    using t ht t240 enc by (simp add: encoder_flush_def sl_sub_def sl_cap_def e1_def e'_def Let_def)
  moreover have "encoder_inv e' vs"
    using inv b pd d f ht lp unfolding encoder_inv_def e'_def
    by (auto simp: add.commute intro!: exI [of _ "ws @ [w]"])
  moreover have "e_t e' - e_h e' < e_t e - e_h e \<and> (e_t e' = 0 \<or> e_t e' = e_t e \<and> e_h e < e_h e')"
    using d ht f lp by (auto simp: e'_def)
  ultimately show ?thesis by blast
qed

lemma encoder_shift_inv:
  assumes "encoder_inv e vs" and "e_t e < 240 \<or> e_h e > 0"
  shows "encoder_inv (encoder_shift e) vs \<and> e_t (encoder_shift e) < 240"
proof (cases "e_t e \<ge> sl_len (e_buf e)")
  case True
  then have t: "e_t e = 240" using assms(1) by (simp add: encoder_inv_def)
  then have h: "0 < e_h e" "e_h e < 240" using assms by (auto simp: encoder_inv_def)
  let ?xs = "drop (e_h e) (sl_list (e_buf e))"
  have l: "length (sl_arr (e_buf e)) = 240" "sl_len (e_buf e) = 240"
    using assms(1) by (auto simp: encoder_inv_def)
  have "take (240 - e_h e) (?xs @ drop (length ?xs) (sl_arr (e_buf e))) = ?xs"
    using l h by (simp add: sl_list_def)
  then show ?thesis
    using assms(1) True t h l by (auto simp: encoder_inv_def encoder_shift_def Let_def sl_list_def)
next
  case False
  then show ?thesis using assms(1) by (auto simp: encoder_shift_def encoder_inv_def)
qed

lemma encoder_set_inv:
  assumes "encoder_inv e vs" and "e_t e < 240"
  shows "\<exists>buf. sl_set (e_t e) v (e_buf e) = Inr buf \<and>
    encoder_inv (e\<lparr>e_buf := buf, e_t := e_t e + 1\<rparr>) (vs @ [v])"
proof -
  have "take (e_t e + 1) ((sl_arr (e_buf e))[e_t e := v]) = take (e_t e) (sl_arr (e_buf e)) @ [v]"
    using assms by (simp add: encoder_inv_def take_Suc_update)
  then show ?thesis
    using assms by (auto simp: encoder_inv_def sl_set_def)
qed

lemma encoder_Write_inv:
  assumes "encoder_inv e vs" and "\<forall>v \<in> set vs. v \<le> MaxValue"
  shows "\<exists>e'. encoder_Write e v = Inr e' \<and> encoder_inv e' (vs @ [v])"
proof -
  have len: "sl_len (e_buf e) = 240" using assms(1) by (simp add: encoder_inv_def)
  obtain e1 where e1: "(if e_t e \<ge> sl_len (e_buf e) then encoder_flush e else Inr e) = Inr e1"
    "encoder_inv e1 vs" "e_t e1 < 240 \<or> e_h e1 > 0"
  proof (cases "e_t e \<ge> 240")
    case True
    then obtain e' where "encoder_flush e = Inr e'" "encoder_inv e' vs"
      "e_t e' = 0 \<or> e_t e' = e_t e \<and> e_h e < e_h e'"
      using encoder_flush_inv [OF assms] by auto
    then show thesis using that [of e'] True len by auto
  next
    case False
    then show thesis using that [of e] assms(1) len by simp
  qed
  note sh = encoder_shift_inv [OF e1(2,3)]
  obtain buf where "sl_set (e_t (encoder_shift e1)) v (e_buf (encoder_shift e1)) = Inr buf"
    "encoder_inv ((encoder_shift e1)\<lparr>e_buf := buf, e_t := e_t (encoder_shift e1) + 1\<rparr>) (vs @ [v])"
    using encoder_set_inv [of "encoder_shift e1" vs v] sh by blast
  then show ?thesis
    using e1(1) by (simp add: encoder_Write_def Let_def)
qed

lemma encoder_Write_list_inv:
  "encoder_inv e us \<Longrightarrow> \<forall>v \<in> set (us @ vs). v \<le> MaxValue \<Longrightarrow>
   \<exists>e'. encoder_Write_list e vs = Inr e' \<and> encoder_inv e' (us @ vs)"
proof (induction vs arbitrary: e us)
  case (Cons v vs)
  obtain e1 where "encoder_Write e v = Inr e1" "encoder_inv e1 (us @ [v])"
    using encoder_Write_inv [OF Cons.prems(1)] Cons.prems(2) by auto
  then show ?case using Cons.IH [of e1 "us @ [v]"] Cons.prems(2) by simp
qed simp

lemma encoder_flush_all_inv:
  "encoder_inv e vs \<Longrightarrow> \<forall>v \<in> set vs. v \<le> MaxValue \<Longrightarrow>
   \<exists>e'. encoder_flush_all e = Some (Inr e') \<and> encoder_inv e' vs \<and> e_t e' = 0"
proof (induction "e_t e - e_h e" arbitrary: e rule: less_induct)
  case less
  show ?case
  proof (cases "e_t e > 0")
    case True
    then obtain e1 where "encoder_flush e = Inr e1" "encoder_inv e1 vs"
      "e_t e1 - e_h e1 < e_t e - e_h e"
      using encoder_flush_inv [OF less.prems] by blast
    then show ?thesis
      using less.hyps [of e1] less.prems True by (subst encoder_flush_all.simps) auto
  next
    case False
    then show ?thesis using less.prems by (subst encoder_flush_all.simps) auto
  qed
qed

lemma encoder_Bytes_inv:
  assumes "encoder_inv e vs" and "\<forall>v \<in> set vs. v \<le> MaxValue"
  shows "\<exists>e' ws. encoder_Bytes e = Some (Inr (e', be_words ws)) \<and> decode_words ws = vs"
proof -
  obtain e' where e': "encoder_flush_all e = Some (Inr e')" "encoder_inv e' vs" "e_t e' = 0"
    using encoder_flush_all_inv [OF assms] by blast
  then obtain ws where ws: "take (e_bp e') (sl_arr (e_bytes e')) = be_words ws" "decode_words ws = vs"
    by (auto simp: encoder_inv_def)
  have "e_bp e' \<le> sl_cap (e_bytes e')"
    using e'(2) by (auto simp: encoder_inv_def sl_wf_def sl_cap_def)
  then show ?thesis
    using e'(1) ws by (auto simp: encoder_Bytes_def sl_reslice_def sl_list_def)
qed

section \<open>Properties\<close>

text \<open>
  C22. The streaming encoder loses nothing and returns: after \<open>NewEncoder\<close>, writing any sequence
  of values that fit in 60 bits, of any length, succeeds; \<open>Bytes\<close> then terminates with a byte
  string, and a \<open>Decoder\<close> over that string yields exactly the sequence that was written.
\<close>

theorem encoder_decoder_stream:
  assumes "list_all (\<lambda>v. v \<le> MaxValue) vs"
  shows "\<exists>e e' bs. encoder_Write_list NewEncoder vs = Inr e \<and> encoder_Bytes e = Some (Inr (e', bs)) \<and>
    decoder_drain (NewDecoder bs) = Inr vs"
proof -
  have max: "\<forall>v \<in> set vs. v \<le> MaxValue" using assms by (simp add: list_all_iff)
  then obtain e where e: "encoder_Write_list NewEncoder vs = Inr e" "encoder_inv e vs"
    using encoder_Write_list_inv [OF NewEncoder_inv, of vs] by auto
  then obtain e' ws where b: "encoder_Bytes e = Some (Inr (e', be_words ws))" "decode_words ws = vs"
    using encoder_Bytes_inv [OF e(2) max] by blast
  have "decoder_drain (NewDecoder (be_words ws)) = Inr (decoder_pending (NewDecoder (be_words ws)) @ vs)"
    using decoder_drain_words [of "NewDecoder (be_words ws)" ws "[]"] b(2)
    by (simp add: NewDecoder_def decoder_wf_def)
  then show ?thesis using e(1) b(1) by (simp add: decoder_pending_def NewDecoder_def)
qed

theorem encoder_decoder_stream_witness:
  "\<exists>e e' bs. encoder_Write_list NewEncoder [1, 2, 3] = Inr e \<and>
     encoder_Bytes e = Some (Inr (e', bs)) \<and> decoder_drain (NewDecoder bs) = Inr [1, 2, 3]"
  by (rule encoder_decoder_stream) (simp add: MaxValue_def)

text \<open>
  C26. \<open>SetValues\<close> does not reset the write position: after \<open>SetValues\<close> with no values, \<open>Bytes\<close>
  re-exposes the bytes of the previous block instead of returning nothing.
\<close>

theorem SetValues_keeps_old_bytes:
  assumes "e_bp e \<le> sl_cap (e_bytes e)"
  shows "encoder_Bytes (encoder_SetValues e nil_slice)
    = Some (Inr (encoder_SetValues e nil_slice, take (e_bp e) (sl_arr (e_bytes e))))"
proof -
  have "encoder_flush_all (encoder_SetValues e nil_slice) = Some (Inr (encoder_SetValues e nil_slice))"
    by (subst encoder_flush_all.simps) (simp add: encoder_SetValues_def)
  then show ?thesis
    using assms by (simp add: encoder_Bytes_def encoder_SetValues_def sl_reslice_def sl_cap_def sl_list_def)
qed

theorem SetValues_keeps_old_bytes_witness:
  "encoder_Bytes (encoder_SetValues (NewEncoder\<lparr>e_bp := 8\<rparr>) nil_slice)
     = Some (Inr (encoder_SetValues (NewEncoder\<lparr>e_bp := 8\<rparr>) nil_slice, replicate 8 0))"
  using SetValues_keeps_old_bytes [of "NewEncoder\<lparr>e_bp := 8\<rparr>"]
  by (simp add: NewEncoder_def slice_of_def sl_cap_def)

end
