(* ===== verification/KeyedList.thy ===== *)
theory KeyedList
  imports Main
begin

text \<open>
  The lists of named records the metadata of \<open>src/backend/v1/services/meta\<close> is made of, and the three
  loops its operations run over them: find the first record with a name, remove it, update it in
  place. The store interface at the end is what users of such a list rely on.
\<close>

subsection \<open>The first match\<close>

text \<open>\<open>for i := range xs { if P(xs[i]) { xs = append(xs[:i], xs[i+1:]...); break } }\<close>\<close>

fun remove_first :: "('a \<Rightarrow> bool) \<Rightarrow> 'a list \<Rightarrow> 'a list" where
  "remove_first P [] = []"
| "remove_first P (x # xs) = (if P x then xs else x # remove_first P xs)"

text \<open>\<open>for i := range xs { if P(xs[i]) { xs[i] = f(xs[i]); break } }\<close>\<close>

fun update_first :: "('a \<Rightarrow> bool) \<Rightarrow> ('a \<Rightarrow> 'a) \<Rightarrow> 'a list \<Rightarrow> 'a list" where
  "update_first P f [] = []"
| "update_first P f (x # xs) = (if P x then f x # xs else x # update_first P f xs)"

lemma find_None_iff_keys: "find (\<lambda>x. key x = k) xs = None \<longleftrightarrow> k \<notin> set (map key xs)"
  by (auto simp: find_None_iff)

lemma find_append:
  "find P (xs @ ys) = (case find P xs of None \<Rightarrow> find P ys | Some x \<Rightarrow> Some x)"
  by (induction xs) auto

lemma find_SomeD: "find P xs = Some x \<Longrightarrow> x \<in> set xs \<and> P x"
  by (induction xs) (auto split: if_splits)

lemma find_map_key:
  assumes "\<And>x. P (f x) = P x"
  shows "find P (map f xs) = map_option f (find P xs)"
  using assms by (induction xs) auto

lemma set_remove_first: "set (remove_first P xs) \<subseteq> set xs"
  by (induction xs) auto

lemma distinct_remove_first:
  "distinct (map key xs) \<Longrightarrow> distinct (map key (remove_first P xs))"
proof (induction xs)
  case (Cons x xs)
  have "key ` set (remove_first P xs) \<subseteq> key ` set xs" using set_remove_first [of P xs] by (rule image_mono)
  then show ?case using Cons by auto
qed simp

lemma find_remove_first:
  assumes "distinct (map key xs)"
  shows "find (\<lambda>x. key x = j) (remove_first (\<lambda>x. key x = k) xs) =
    (if j = k then None else find (\<lambda>x. key x = j) xs)"
  using assms
proof (induction xs)
  case (Cons x xs)
  show ?case
  proof (cases "key x = k")
    case True
    then have "find (\<lambda>x. key x = k) xs = None"
      using Cons.prems by (simp add: find_None_iff_keys)
    then show ?thesis using True by auto
  next
    case False
    then show ?thesis using Cons by auto
  qed
qed simp

lemma remove_first_absent: "find P xs = None \<Longrightarrow> remove_first P xs = xs"
  by (induction xs) (auto split: if_splits)

lemma map_update_first:
  assumes "\<And>x. P x \<Longrightarrow> g (f x) = g x"
  shows "map g (update_first P f xs) = map g xs"
  using assms by (induction xs) auto

lemma set_update_first: "set (update_first P f xs) \<subseteq> set xs \<union> f ` set xs"
  by (induction xs) auto

lemma update_first_split:
  assumes "find P xs = Some x"
  obtains ys zs where "xs = ys @ x # zs" "update_first P f xs = ys @ f x # zs" "find P ys = None" "P x"
  using assms
proof (induction xs arbitrary: thesis)
  case (Cons y xs)
  show ?case
  proof (cases "P y")
    case True
    then show ?thesis using Cons.prems(1) [of "[]" xs] Cons.prems(2) by simp
  next
    case False
    then have "find P xs = Some x" using Cons.prems(2) by simp
    then obtain ys zs where "xs = ys @ x # zs" "update_first P f xs = ys @ f x # zs" "find P ys = None" "P x"
      using Cons.IH by blast
    then show ?thesis using Cons.prems(1) [of "y # ys" zs] False by simp
  qed
qed simp

lemma update_first_absent: "find P xs = None \<Longrightarrow> update_first P f xs = xs"
  by (induction xs) (auto split: if_splits)

lemma find_update_first:
  assumes "\<And>x. key (f x) = key x"
  shows "find (\<lambda>x. key x = j) (update_first (\<lambda>x. key x = k) f xs) =
    (if j = k then map_option f (find (\<lambda>x. key x = j) xs) else find (\<lambda>x. key x = j) xs)"
  using assms by (induction xs) auto

lemma list_all_update_first:
  assumes "list_all Q xs" and "\<And>x. find P xs = Some x \<Longrightarrow> Q x \<Longrightarrow> Q (f x)"
  shows "list_all Q (update_first P f xs)"
proof (cases "find P xs")
  case None
  then show ?thesis using assms(1) by (simp add: update_first_absent)
next
  case (Some x)
  obtain ys zs where "xs = ys @ x # zs" "update_first P f xs = ys @ f x # zs" by (rule update_first_split [OF Some])
  then show ?thesis using assms Some by simp
qed

lemma list_all_remove_first: "list_all Q xs \<Longrightarrow> list_all Q (remove_first P xs)"
  by (induction xs) auto

subsection \<open>Stores of named records\<close>

text \<open>
  \<open>create\<close> and \<open>remove\<close> report errors; when they succeed, the names stay unique and the lookup
  changes at that name only.
\<close>

locale named_store =
  fixes lookup :: "'s \<Rightarrow> string \<Rightarrow> 'v option"
    and create :: "string \<Rightarrow> 'a \<Rightarrow> 's \<Rightarrow> 'e + 's"
    and remove :: "string \<Rightarrow> 's \<Rightarrow> 'e + 's"
    and fresh :: "string \<Rightarrow> 'a \<Rightarrow> 'v"
    and unique_names :: "'s \<Rightarrow> bool"
  assumes create_lookup: "unique_names s \<Longrightarrow> lookup s n = None \<Longrightarrow> create n a s = Inr s' \<Longrightarrow>
      lookup s' = (lookup s)(n \<mapsto> fresh n a)"
    and create_unique: "unique_names s \<Longrightarrow> lookup s n = None \<Longrightarrow> create n a s = Inr s' \<Longrightarrow> unique_names s'"
    and remove_lookup: "unique_names s \<Longrightarrow> remove n s = Inr s' \<Longrightarrow> lookup s' = (lookup s)(n := None)"
    and remove_unique: "unique_names s \<Longrightarrow> remove n s = Inr s' \<Longrightarrow> unique_names s'"
begin

lemma create_then_remove:
  assumes "unique_names s" "lookup s n = None" "create n a s = Inr s1" "remove n s1 = Inr s2"
  shows "lookup s2 = lookup s"
proof -
  have "lookup s2 = (lookup s1)(n := None)"
    by (rule remove_lookup [OF create_unique [OF assms(1-3)] assms(4)])
  then show ?thesis
    using create_lookup [OF assms(1-3)] assms(2) by (simp add: fun_upd_idem)
qed

lemma remove_then_create:
  assumes "unique_names s" "remove n s = Inr s1" "create n a s1 = Inr s2"
  shows "lookup s2 = (lookup s)(n \<mapsto> fresh n a)"
proof -
  have s1: "lookup s1 = (lookup s)(n := None)" "unique_names s1"
    using remove_lookup [OF assms(1,2)] remove_unique [OF assms(1,2)] by simp_all
  then have "lookup s1 n = None" by simp
  from create_lookup [OF s1(2) this assms(3)] show ?thesis by (simp add: s1(1))
qed

lemma removes_commute:
  assumes "unique_names s" "remove m s = Inr s1" "remove n s1 = Inr s2"
    and "remove n s = Inr t1" "remove m t1 = Inr t2"
  shows "lookup s2 = lookup t2"
proof -
  have "lookup s2 = (lookup s)(m := None, n := None)"
    using remove_lookup [OF remove_unique [OF assms(1,2)] assms(3)] remove_lookup [OF assms(1,2)] by simp
  moreover have "lookup t2 = (lookup s)(n := None, m := None)"
    using remove_lookup [OF remove_unique [OF assms(1,4)] assms(5)] remove_lookup [OF assms(1,4)] by simp
  ultimately show ?thesis by (auto simp: fun_upd_def)
qed

end

end
