(* ===== verification/MetaTypes.thy ===== *)
theory MetaTypes
  imports Prelude KeyedList "HOL-Library.AList"
begin

text \<open>
  The records of the metadata store, \<open>src/backend/v1/services/meta/data.go\<close>, the functions on single
  records, and its errors.

  \<^item> A \<open>time.Time\<close> is an \<^typ>\<open>int\<close>: the nanoseconds since the zero time of Go, so that \<open>IsZero\<close> is a
    comparison with 0. A \<open>time.Duration\<close> is an \<^typ>\<open>int\<close> of nanoseconds.
  \<^item> A slice is a list; \<open>nil\<close> and the empty slice are not told apart. A map is an association list
    with distinct keys; ranging over it takes the list order, where Go takes any order.
  \<^item> A pointer into \<open>Data\<close> is replaced by an update of the record it points to.
  \<^item> \<open>time.Now()\<close> is a parameter.
\<close>

type_synonym time = int
type_synonym duration = int

definition hour :: duration where "hour = 3600000000000"

definition unix_epoch :: time where "unix_epoch = 62135596800000000000"

definition time_Unix :: "int \<Rightarrow> time" where
  "time_Unix nsec = unix_epoch + nsec"

definition IsZero :: "time \<Rightarrow> bool" where
  "IsZero t \<longleftrightarrow> t = 0"

text \<open>\<open>t.Truncate(d)\<close> rounds down to a multiple of \<open>d\<close> since the zero time, and returns \<open>t\<close> when \<open>d <= 0\<close>.\<close>

definition Truncate :: "time \<Rightarrow> duration \<Rightarrow> time" where
  "Truncate t d = (if d \<le> 0 then t else t - t mod d)"

definition MaxNanoTime :: int where "MaxNanoTime = 2 ^ 63 - 2"

definition DefaultRetentionPolicyReplicaN :: int where "DefaultRetentionPolicyReplicaN = 1"
definition DefaultRetentionPolicyDuration :: duration where "DefaultRetentionPolicyDuration = 0"
definition DefaultRetentionPolicyName :: string where "DefaultRetentionPolicyName = ''autogen''"
definition MinRetentionPolicyDuration :: duration where "MinRetentionPolicyDuration = hour"
definition MaxNameLen :: nat where "MaxNameLen = 255"

subsection \<open>Errors\<close>

datatype meta_err =
    ErrDatabaseExists
  | ErrDatabaseNameRequired
  | ErrNameTooLong
  | ErrInvalidName
  | ErrDatabaseNotFound string
  | ErrRetentionPolicyExists
  | ErrRetentionPolicyNotFound string
  | ErrRetentionPolicyRequired
  | ErrRetentionPolicyNameRequired
  | ErrRetentionPolicyNameExists
  | ErrRetentionPolicyDurationTooLow
  | ErrRetentionPolicyConflict
  | ErrIncompatibleDurations
  | ErrReplicationFactorTooLow
  | ErrShardGroupNotFound
  | ErrContinuousQueryExists
  | ErrSubscriptionExists
  | ErrSubscriptionNotFound
  | ErrInvalidSubscriptionURL string
  | ErrUserExists
  | ErrUserNotFound
  | ErrUsernameRequired
  | ErrAuthenticate
  | ErrText string

subsection \<open>Records\<close>

record ShardOwner =
  so_NodeID :: u64

record ShardInfo =
  si_ID :: u64
  si_Owners :: "ShardOwner list"

record ShardGroupInfo =
  sg_ID :: u64
  sg_StartTime :: time
  sg_EndTime :: time
  sg_DeletedAt :: time
  sg_Shards :: "ShardInfo list"
  sg_TruncatedAt :: time

record SubscriptionInfo =
  sub_Name :: string
  sub_Mode :: string
  sub_Destinations :: "string list"

record RetentionPolicyInfo =
  rp_Name :: string
  rp_ReplicaN :: int
  rp_Duration :: duration
  rp_ShardGroupDuration :: duration
  rp_ShardGroups :: "ShardGroupInfo list"
  rp_Subscriptions :: "SubscriptionInfo list"

record RetentionPolicySpec =
  rps_Name :: string
  rps_ReplicaN :: "int option"
  rps_Duration :: "duration option"
  rps_ShardGroupDuration :: duration

record RetentionPolicyUpdate =
  rpu_Name :: "string option"
  rpu_Duration :: "duration option"
  rpu_ReplicaN :: "int option"
  rpu_ShardGroupDuration :: "duration option"

record ContinuousQueryInfo =
  cq_Name :: string
  cq_Query :: string

record DatabaseInfo =
  db_Name :: string
  db_DefaultRetentionPolicy :: string
  db_RetentionPolicies :: "RetentionPolicyInfo list"
  db_ContinuousQueries :: "ContinuousQueryInfo list"

type_synonym privilege = int

record UserInfo =
  u_Name :: string
  u_Hash :: string
  u_Admin :: bool
  u_Privileges :: "(string \<times> privilege) list"

record Data =
  d_Term :: u64
  d_Index :: u64
  d_ClusterID :: u64
  d_Databases :: "DatabaseInfo list"
  d_Users :: "UserInfo list"
  d_adminUserExists :: bool
  d_MaxShardGroupID :: u64
  d_MaxShardID :: u64

subsection \<open>Durations\<close>

definition shardGroupDuration :: "duration \<Rightarrow> duration" where
  "shardGroupDuration d =
     (if d \<ge> 180 * 24 * hour \<or> d = 0 then 7 * 24 * hour
      else if d \<ge> 2 * 24 * hour then 1 * 24 * hour
      else 1 * hour)"

definition NormalisedShardDuration :: "duration \<Rightarrow> duration \<Rightarrow> duration" where
  "NormalisedShardDuration sgd d =
     (if sgd = 0 then shardGroupDuration d
      else if sgd < MinRetentionPolicyDuration then shardGroupDuration MinRetentionPolicyDuration
      else sgd)"

subsection \<open>Shard groups\<close>

definition sg_Contains :: "ShardGroupInfo \<Rightarrow> time \<Rightarrow> bool" where
  "sg_Contains sgi t \<longleftrightarrow> \<not> t < sg_StartTime sgi \<and> t < sg_EndTime sgi"

definition sg_Overlaps :: "ShardGroupInfo \<Rightarrow> time \<Rightarrow> time \<Rightarrow> bool" where
  "sg_Overlaps sgi mn mx \<longleftrightarrow> \<not> sg_StartTime sgi > mx \<and> sg_EndTime sgi > mn"

definition sg_Deleted :: "ShardGroupInfo \<Rightarrow> bool" where
  "sg_Deleted sgi \<longleftrightarrow> \<not> IsZero (sg_DeletedAt sgi)"

definition sg_Truncated :: "ShardGroupInfo \<Rightarrow> bool" where
  "sg_Truncated sgi \<longleftrightarrow> \<not> IsZero (sg_TruncatedAt sgi)"

text \<open>\<open>ShardGroupInfos.Less\<close>: by the end of the group, or where it was truncated, then by the start.\<close>

definition sg_Less :: "ShardGroupInfo \<Rightarrow> ShardGroupInfo \<Rightarrow> bool" where
  "sg_Less a b =
     (let aEnd = (if sg_Truncated a then sg_TruncatedAt a else sg_EndTime a);
          bEnd = (if sg_Truncated b then sg_TruncatedAt b else sg_EndTime b)
      in if aEnd = bEnd then sg_StartTime a < sg_StartTime b else aEnd < bEnd)"

definition sg_ShardFor :: "ShardGroupInfo \<Rightarrow> u64 \<Rightarrow> ShardInfo res" where
  "sg_ShardFor sgi hash =
     (if length (sg_Shards sgi) = 1 then Inr (sg_Shards sgi ! 0)
      else if sg_Shards sgi = [] then Inl Panic
      else Inr (sg_Shards sgi ! unat (hash mod of_nat (length (sg_Shards sgi)))))"

definition si_OwnedBy :: "ShardInfo \<Rightarrow> u64 \<Rightarrow> bool" where
  "si_OwnedBy si nodeID = list_ex (\<lambda>so. so_NodeID so = nodeID) (si_Owners si)"

subsection \<open>Retention policies\<close>

definition NewRetentionPolicyInfo :: "string \<Rightarrow> RetentionPolicyInfo" where
  "NewRetentionPolicyInfo name =
     \<lparr>rp_Name = name, rp_ReplicaN = DefaultRetentionPolicyReplicaN,
      rp_Duration = DefaultRetentionPolicyDuration, rp_ShardGroupDuration = 0,
      rp_ShardGroups = [], rp_Subscriptions = []\<rparr>"

definition DefaultRetentionPolicyInfo :: RetentionPolicyInfo where
  "DefaultRetentionPolicyInfo = NewRetentionPolicyInfo DefaultRetentionPolicyName"

definition rp_ToSpec :: "RetentionPolicyInfo \<Rightarrow> RetentionPolicySpec" where
  "rp_ToSpec rpi =
     \<lparr>rps_Name = rp_Name rpi, rps_ReplicaN = Some (rp_ReplicaN rpi), rps_Duration = Some (rp_Duration rpi),
      rps_ShardGroupDuration = rp_ShardGroupDuration rpi\<rparr>"

definition rp_Apply :: "RetentionPolicyInfo \<Rightarrow> RetentionPolicySpec \<Rightarrow> RetentionPolicyInfo" where
  "rp_Apply rpi spec =
     (let rp = \<lparr>rp_Name = rp_Name rpi, rp_ReplicaN = rp_ReplicaN rpi, rp_Duration = rp_Duration rpi,
                rp_ShardGroupDuration = rp_ShardGroupDuration rpi, rp_ShardGroups = [], rp_Subscriptions = []\<rparr>;
          rp = (if rps_Name spec \<noteq> '''' then rp\<lparr>rp_Name := rps_Name spec\<rparr> else rp);
          rp = (case rps_ReplicaN spec of Some n \<Rightarrow> rp\<lparr>rp_ReplicaN := n\<rparr> | None \<Rightarrow> rp);
          rp = (case rps_Duration spec of Some d \<Rightarrow> rp\<lparr>rp_Duration := d\<rparr> | None \<Rightarrow> rp)
      in rp\<lparr>rp_ShardGroupDuration := NormalisedShardDuration (rps_ShardGroupDuration spec) (rp_Duration rp)\<rparr>)"

definition rps_NewRetentionPolicyInfo :: "RetentionPolicySpec \<Rightarrow> RetentionPolicyInfo" where
  "rps_NewRetentionPolicyInfo s = rp_Apply DefaultRetentionPolicyInfo s"

definition rps_Matches :: "RetentionPolicySpec \<Rightarrow> RetentionPolicyInfo option \<Rightarrow> bool" where
  "rps_Matches s rpi =
     (case rpi of
        None \<Rightarrow> False
      | Some rpi \<Rightarrow>
          (if rps_Name s \<noteq> '''' \<and> rps_Name s \<noteq> rp_Name rpi then False
           else if rps_Duration s \<noteq> None \<and> the (rps_Duration s) \<noteq> rp_Duration rpi then False
           else if rps_ReplicaN s \<noteq> None \<and> the (rps_ReplicaN s) \<noteq> rp_ReplicaN rpi then False
           else NormalisedShardDuration (rps_ShardGroupDuration s) (rp_Duration rpi) = rp_ShardGroupDuration rpi))"

definition rp_ShardGroupByTimestamp :: "RetentionPolicyInfo \<Rightarrow> time \<Rightarrow> ShardGroupInfo option" where
  "rp_ShardGroupByTimestamp rpi timestamp =
     find (\<lambda>sgi. sg_Contains sgi timestamp \<and> \<not> sg_Deleted sgi \<and>
             (\<not> sg_Truncated sgi \<or> timestamp < sg_TruncatedAt sgi)) (rp_ShardGroups rpi)"

definition rp_ExpiredShardGroups :: "RetentionPolicyInfo \<Rightarrow> time \<Rightarrow> ShardGroupInfo list" where
  "rp_ExpiredShardGroups rpi t =
     filter (\<lambda>sg. \<not> sg_Deleted sg \<and> rp_Duration rpi \<noteq> 0 \<and> sg_EndTime sg + rp_Duration rpi < t)
       (rp_ShardGroups rpi)"

definition rp_DeletedShardGroups :: "RetentionPolicyInfo \<Rightarrow> ShardGroupInfo list" where
  "rp_DeletedShardGroups rpi = filter sg_Deleted (rp_ShardGroups rpi)"

subsection \<open>Databases\<close>

definition db_RetentionPolicy :: "DatabaseInfo \<Rightarrow> string \<Rightarrow> RetentionPolicyInfo option" where
  "db_RetentionPolicy di name =
     (if name = '''' \<and> db_DefaultRetentionPolicy di = '''' then None
      else let name = (if name = '''' then db_DefaultRetentionPolicy di else name)
           in find (\<lambda>rp. rp_Name rp = name) (db_RetentionPolicies di))"

text \<open>
  The shards of the groups that are not deleted, one per ID: a later one replaces an earlier one
  with the same ID in the map. The order of the result is that of ranging over the map.
\<close>

definition db_ShardInfos :: "DatabaseInfo \<Rightarrow> ShardInfo list" where
  "db_ShardInfos di =
     map snd (fold (\<lambda>si m. AList.update (si_ID si) si m)
       (concat (map (\<lambda>rp. concat (map sg_Shards (filter (\<lambda>sg. \<not> sg_Deleted sg) (rp_ShardGroups rp))))
          (db_RetentionPolicies di))) [])"

subsection \<open>Users\<close>

text \<open>
  The privileges of \<open>github.com/influxdata/influxql\<close> are integers; the two constants the code
  compares with are parameters.
\<close>

record privileges =
  NoPrivileges :: privilege
  AllPrivileges :: privilege

definition u_AuthorizeDatabase :: "privileges \<Rightarrow> UserInfo \<Rightarrow> privilege \<Rightarrow> string \<Rightarrow> bool" where
  "u_AuthorizeDatabase pc ui privilege database =
     (if u_Admin ui \<or> privilege = NoPrivileges pc then True
      else case map_of (u_Privileges ui) database of
             None \<Rightarrow> False
           | Some p \<Rightarrow> p = privilege \<or> p = AllPrivileges pc)"

definition u_AuthorizeUnrestricted :: "UserInfo \<Rightarrow> bool" where
  "u_AuthorizeUnrestricted u = u_Admin u"

subsection \<open>Names\<close>

text \<open>\<open>unicode.IsPrint\<close> is a parameter; the name is given as its runes.\<close>

definition ValidName :: "(char \<Rightarrow> bool) \<Rightarrow> string \<Rightarrow> bool" where
  "ValidName is_print name \<longleftrightarrow>
     list_all is_print name \<and> name \<noteq> '''' \<and> name \<noteq> ''.'' \<and> name \<noteq> ''..'' \<and>
     \<not> list_ex (\<lambda>c. c \<in> set [CHR ''/'', CHR 0x5C]) name"

subsection \<open>An example\<close>

text \<open>A catalogue with one database, one policy with a truncated group, and an administrator.\<close>

definition sample_data :: Data where
  "sample_data =
     \<lparr>d_Term = 1, d_Index = 2, d_ClusterID = 3,
      d_Databases = [\<lparr>db_Name = ''db'', db_DefaultRetentionPolicy = ''rp'',
        db_RetentionPolicies = [\<lparr>rp_Name = ''rp'', rp_ReplicaN = 1, rp_Duration = 0, rp_ShardGroupDuration = 168 * hour,
          rp_ShardGroups = [\<lparr>sg_ID = 1, sg_StartTime = unix_epoch, sg_EndTime = unix_epoch + 168 * hour, sg_DeletedAt = 0,
            sg_Shards = [\<lparr>si_ID = 1, si_Owners = [\<lparr>so_NodeID = 7\<rparr>]\<rparr>], sg_TruncatedAt = unix_epoch + hour\<rparr>],
          rp_Subscriptions = []\<rparr>],
        db_ContinuousQueries = [\<lparr>cq_Name = ''cq'', cq_Query = ''SELECT''\<rparr>]\<rparr>],
      d_Users = [\<lparr>u_Name = ''root'', u_Hash = ''h'', u_Admin = True, u_Privileges = [(''db'', 3)]\<rparr>],
      d_adminUserExists = True, d_MaxShardGroupID = 1, d_MaxShardID = 1\<rparr>"

subsection \<open>Facts about single records\<close>

lemma Truncate_le: "Truncate t d \<le> t"
  by (simp add: Truncate_def)

lemma Truncate_less: "0 < d \<Longrightarrow> t < Truncate t d + d"
  by (simp add: Truncate_def)

lemma hour_pos: "0 < hour"
  by (simp add: hour_def)

lemma shardGroupDuration_ge_hour: "hour \<le> shardGroupDuration d"
  by (simp add: shardGroupDuration_def hour_def)

lemma NormalisedShardDuration_ge_hour: "hour \<le> NormalisedShardDuration sgd d"
  using shardGroupDuration_ge_hour by (simp add: NormalisedShardDuration_def MinRetentionPolicyDuration_def)

lemma NormalisedShardDuration_idem:
  "NormalisedShardDuration (NormalisedShardDuration sgd d) d' = NormalisedShardDuration sgd d"
  using NormalisedShardDuration_ge_hour [of sgd d] hour_pos
  by (auto simp: NormalisedShardDuration_def [of "NormalisedShardDuration sgd d"] MinRetentionPolicyDuration_def)

end
