(* ===== verification/MetaData.thy ===== *)
theory MetaData
  imports MetaTypes
begin

text \<open>
  The operations of \<open>Data\<close> in \<open>src/backend/v1/services/meta/data.go\<close> on databases, retention policies,
  continuous queries, subscriptions and users. An operation returns its error or the updated data;
  none of these changes the data before it fails.
\<close>

subsection \<open>Databases\<close>

definition Database :: "Data \<Rightarrow> string \<Rightarrow> DatabaseInfo option" where
  "Database data name = find (\<lambda>db. db_Name db = name) (d_Databases data)"

definition new_database :: "string \<Rightarrow> DatabaseInfo" where
  "new_database name =
     \<lparr>db_Name = name, db_DefaultRetentionPolicy = '''', db_RetentionPolicies = [], db_ContinuousQueries = []\<rparr>"

definition CreateDatabase :: "Data \<Rightarrow> string \<Rightarrow> meta_err + Data" where
  "CreateDatabase data name =
     (if name = '''' then Inl ErrDatabaseNameRequired
      else if length name > MaxNameLen then Inl ErrNameTooLong
      else if Database data name \<noteq> None then Inr data
      else Inr (data\<lparr>d_Databases := d_Databases data @ [new_database name]\<rparr>))"

definition DropDatabase :: "Data \<Rightarrow> string \<Rightarrow> meta_err + Data" where
  "DropDatabase data name =
     (if Database data name \<noteq> None
      then Inr (data\<lparr>d_Databases := remove_first (\<lambda>db. db_Name db = name) (d_Databases data),
                     d_Users := map (\<lambda>u. u\<lparr>u_Privileges := AList.delete name (u_Privileges u)\<rparr>) (d_Users data)\<rparr>)
      else Inr data)"

text \<open>A change through the pointer that \<open>data.Database(name)\<close> returns.\<close>

definition upd_db :: "string \<Rightarrow> (DatabaseInfo \<Rightarrow> DatabaseInfo) \<Rightarrow> Data \<Rightarrow> Data" where
  "upd_db name f data = data\<lparr>d_Databases := update_first (\<lambda>db. db_Name db = name) f (d_Databases data)\<rparr>"

subsection \<open>Retention policies\<close>

definition RetentionPolicy :: "Data \<Rightarrow> string \<Rightarrow> string \<Rightarrow> meta_err + RetentionPolicyInfo option" where
  "RetentionPolicy data database name =
     (case Database data database of
        None \<Rightarrow> Inl (ErrDatabaseNotFound database)
      | Some di \<Rightarrow> Inr (find (\<lambda>rp. rp_Name rp = name) (db_RetentionPolicies di)))"

text \<open>The common opening of the operations on one policy.\<close>

definition find_policy :: "Data \<Rightarrow> string \<Rightarrow> string \<Rightarrow> meta_err + RetentionPolicyInfo" where
  "find_policy data database policy =
     (case RetentionPolicy data database policy of
        Inl e \<Rightarrow> Inl e
      | Inr None \<Rightarrow> Inl (ErrRetentionPolicyNotFound policy)
      | Inr (Some rpi) \<Rightarrow> Inr rpi)"

text \<open>A change through the pointer that \<open>data.RetentionPolicy(database, policy)\<close> returns.\<close>

definition upd_rp :: "string \<Rightarrow> string \<Rightarrow> (RetentionPolicyInfo \<Rightarrow> RetentionPolicyInfo) \<Rightarrow> Data \<Rightarrow> Data" where
  "upd_rp database policy f =
     upd_db database (\<lambda>di. di\<lparr>db_RetentionPolicies :=
       update_first (\<lambda>rp. rp_Name rp = policy) f (db_RetentionPolicies di)\<rparr>)"

definition CreateRetentionPolicy ::
  "Data \<Rightarrow> string \<Rightarrow> RetentionPolicyInfo option \<Rightarrow> bool \<Rightarrow> meta_err + Data" where
  "CreateRetentionPolicy data database rpi makeDefault =
     (case rpi of
        None \<Rightarrow> Inl ErrRetentionPolicyRequired
      | Some rpi \<Rightarrow>
          if rp_Name rpi = '''' then Inl ErrRetentionPolicyNameRequired
          else if length (rp_Name rpi) > MaxNameLen then Inl ErrNameTooLong
          else if rp_ReplicaN rpi < 1 then Inl ErrReplicationFactorTooLow
          else
            let rpi = rpi\<lparr>rp_ShardGroupDuration := NormalisedShardDuration (rp_ShardGroupDuration rpi) (rp_Duration rpi)\<rparr>
            in if rp_Duration rpi > 0 \<and> rp_Duration rpi < rp_ShardGroupDuration rpi then Inl ErrIncompatibleDurations
               else case Database data database of
                 None \<Rightarrow> Inl (ErrDatabaseNotFound database)
               | Some di \<Rightarrow>
                   (case db_RetentionPolicy di (rp_Name rpi) of
                      Some rp \<Rightarrow>
                        if rp_ReplicaN rp \<noteq> rp_ReplicaN rpi \<or> rp_Duration rp \<noteq> rp_Duration rpi \<or>
                           rp_ShardGroupDuration rp \<noteq> rp_ShardGroupDuration rpi
                        then Inl ErrRetentionPolicyExists
                        else if makeDefault \<and> db_DefaultRetentionPolicy di \<noteq> rp_Name rpi
                        then Inl ErrRetentionPolicyConflict
                        else Inr data
                    | None \<Rightarrow>
                        Inr (upd_db database
                          (\<lambda>di. di\<lparr>db_RetentionPolicies := db_RetentionPolicies di @ [rpi],
                                   db_DefaultRetentionPolicy :=
                                     (if makeDefault then rp_Name rpi else db_DefaultRetentionPolicy di)\<rparr>) data)))"

definition DropRetentionPolicy :: "Data \<Rightarrow> string \<Rightarrow> string \<Rightarrow> meta_err + Data" where
  "DropRetentionPolicy data database name =
     (case Database data database of
        None \<Rightarrow> Inr data
      | Some di \<Rightarrow>
          Inr (upd_db database
            (\<lambda>di. di\<lparr>db_RetentionPolicies := remove_first (\<lambda>rp. rp_Name rp = name) (db_RetentionPolicies di)\<rparr>) data))"

definition rpu_SetName :: "string \<Rightarrow> RetentionPolicyUpdate \<Rightarrow> RetentionPolicyUpdate" where
  "rpu_SetName v rpu = rpu\<lparr>rpu_Name := Some v\<rparr>"

definition rpu_SetDuration :: "duration \<Rightarrow> RetentionPolicyUpdate \<Rightarrow> RetentionPolicyUpdate" where
  "rpu_SetDuration v rpu = rpu\<lparr>rpu_Duration := Some v\<rparr>"

definition rpu_SetReplicaN :: "int \<Rightarrow> RetentionPolicyUpdate \<Rightarrow> RetentionPolicyUpdate" where
  "rpu_SetReplicaN v rpu = rpu\<lparr>rpu_ReplicaN := Some v\<rparr>"

definition rpu_SetShardGroupDuration :: "duration \<Rightarrow> RetentionPolicyUpdate \<Rightarrow> RetentionPolicyUpdate" where
  "rpu_SetShardGroupDuration v rpu = rpu\<lparr>rpu_ShardGroupDuration := Some v\<rparr>"

text \<open>The guard on the durations and the assignment of the fields of \<open>UpdateRetentionPolicy\<close>.\<close>

definition incompatible_update :: "RetentionPolicyUpdate \<Rightarrow> RetentionPolicyInfo \<Rightarrow> bool" where
  "incompatible_update rpu rpi =
     ((case rpu_Duration rpu of
         None \<Rightarrow> False
       | Some dur \<Rightarrow> dur > 0 \<and>
           (case rpu_ShardGroupDuration rpu of
              Some sgd \<Rightarrow> dur < sgd
            | None \<Rightarrow> dur < rp_ShardGroupDuration rpi)) \<or>
      (rpu_Duration rpu = None \<and> rp_Duration rpi > 0 \<and>
         (case rpu_ShardGroupDuration rpu of Some sgd \<Rightarrow> rp_Duration rpi < sgd | None \<Rightarrow> False)))"

definition apply_update :: "RetentionPolicyUpdate \<Rightarrow> RetentionPolicyInfo \<Rightarrow> RetentionPolicyInfo" where
  "apply_update rpu rpi =
     (let rpi = (case rpu_Name rpu of Some n \<Rightarrow> rpi\<lparr>rp_Name := n\<rparr> | None \<Rightarrow> rpi);
          rpi = (case rpu_Duration rpu of Some d \<Rightarrow> rpi\<lparr>rp_Duration := d\<rparr> | None \<Rightarrow> rpi);
          rpi = (case rpu_ReplicaN rpu of Some n \<Rightarrow> rpi\<lparr>rp_ReplicaN := n\<rparr> | None \<Rightarrow> rpi)
      in case rpu_ShardGroupDuration rpu of
           Some sgd \<Rightarrow> rpi\<lparr>rp_ShardGroupDuration := NormalisedShardDuration sgd (rp_Duration rpi)\<rparr>
         | None \<Rightarrow> rpi)"

definition UpdateRetentionPolicy ::
  "Data \<Rightarrow> string \<Rightarrow> string \<Rightarrow> RetentionPolicyUpdate \<Rightarrow> bool \<Rightarrow> meta_err + Data" where
  "UpdateRetentionPolicy data database name rpu makeDefault =
     (case Database data database of
        None \<Rightarrow> Inl (ErrDatabaseNotFound database)
      | Some di \<Rightarrow>
          (case db_RetentionPolicy di name of
             None \<Rightarrow> Inl (ErrRetentionPolicyNotFound name)
           | Some rpi \<Rightarrow>
               if (case rpu_Name rpu of Some n \<Rightarrow> n \<noteq> name \<and> db_RetentionPolicy di n \<noteq> None | None \<Rightarrow> False)
               then Inl ErrRetentionPolicyNameExists
               else if (case rpu_Duration rpu of
                          Some dur \<Rightarrow> dur < MinRetentionPolicyDuration \<and> dur \<noteq> 0 | None \<Rightarrow> False)
               then Inl ErrRetentionPolicyDurationTooLow
               else if incompatible_update rpu rpi then Inl ErrIncompatibleDurations
               else
                 let rpi' = apply_update rpu rpi
                 in Inr (upd_db database
                      (\<lambda>di. di\<lparr>db_RetentionPolicies :=
                                 update_first (\<lambda>rp. rp_Name rp = rp_Name rpi) (\<lambda>_. rpi') (db_RetentionPolicies di),
                               db_DefaultRetentionPolicy :=
                                 (if db_DefaultRetentionPolicy di \<noteq> rp_Name rpi' \<and> makeDefault then rp_Name rpi'
                                  else db_DefaultRetentionPolicy di)\<rparr>) data)))"

subsection \<open>Continuous queries\<close>

text \<open>\<open>strings.ToLower\<close>, on the ASCII letters.\<close>

definition ToLower :: "string \<Rightarrow> string" where
  "ToLower = map (\<lambda>c. if 65 \<le> (of_char c :: nat) \<and> (of_char c :: nat) \<le> 90 then char_of ((of_char c :: nat) + 32) else c)"

definition CreateContinuousQuery :: "Data \<Rightarrow> string \<Rightarrow> string \<Rightarrow> string \<Rightarrow> meta_err + Data" where
  "CreateContinuousQuery data database name query =
     (case Database data database of
        None \<Rightarrow> Inl (ErrDatabaseNotFound database)
      | Some di \<Rightarrow>
          (case find (\<lambda>cq. cq_Name cq = name) (db_ContinuousQueries di) of
             Some cq \<Rightarrow> if ToLower (cq_Query cq) = ToLower query then Inr data else Inl ErrContinuousQueryExists
           | None \<Rightarrow>
               Inr (upd_db database
                 (\<lambda>di. di\<lparr>db_ContinuousQueries := db_ContinuousQueries di @ [\<lparr>cq_Name = name, cq_Query = query\<rparr>]\<rparr>)
                 data)))"

definition DropContinuousQuery :: "Data \<Rightarrow> string \<Rightarrow> string \<Rightarrow> meta_err + Data" where
  "DropContinuousQuery data database name =
     (case Database data database of
        None \<Rightarrow> Inr data
      | Some di \<Rightarrow>
          Inr (upd_db database
            (\<lambda>di. di\<lparr>db_ContinuousQueries := remove_first (\<lambda>cq. cq_Name cq = name) (db_ContinuousQueries di)\<rparr>)
            data))"

subsection \<open>Subscriptions\<close>

text \<open>
  \<open>url.Parse\<close> gives the scheme and the host of a URL, \<open>net.SplitHostPort\<close> the port of a host; both may
  fail. They are the two fields of the parameter.
\<close>

record url_lib =
  url_Parse :: "string \<Rightarrow> (string \<times> string) option"
  net_SplitHostPort :: "string \<Rightarrow> (string \<times> string) option"

definition validateURL :: "url_lib \<Rightarrow> string \<Rightarrow> meta_err option" where
  "validateURL ul input =
     (case url_Parse ul input of
        None \<Rightarrow> Some (ErrInvalidSubscriptionURL input)
      | Some (scheme, host) \<Rightarrow>
          if scheme \<noteq> ''udp'' \<and> scheme \<noteq> ''http'' \<and> scheme \<noteq> ''https'' then Some (ErrInvalidSubscriptionURL input)
          else case net_SplitHostPort ul host of
                 None \<Rightarrow> Some (ErrInvalidSubscriptionURL input)
               | Some (_, port) \<Rightarrow> if port = '''' then Some (ErrInvalidSubscriptionURL input) else None)"

definition CreateSubscription ::
  "url_lib \<Rightarrow> Data \<Rightarrow> string \<Rightarrow> string \<Rightarrow> string \<Rightarrow> string \<Rightarrow> string list \<Rightarrow> meta_err + Data" where
  "CreateSubscription ul data database rp name mode destinations =
     (case List.map_filter (validateURL ul) destinations of
        e # _ \<Rightarrow> Inl e
      | [] \<Rightarrow>
          (case find_policy data database rp of
             Inl e \<Rightarrow> Inl e
           | Inr rpi \<Rightarrow>
               if list_ex (\<lambda>s. sub_Name s = name) (rp_Subscriptions rpi) then Inl ErrSubscriptionExists
               else Inr (upd_rp database rp
                      (\<lambda>rpi. rpi\<lparr>rp_Subscriptions := rp_Subscriptions rpi @
                        [\<lparr>sub_Name = name, sub_Mode = mode, sub_Destinations = destinations\<rparr>]\<rparr>) data)))"

definition DropSubscription :: "Data \<Rightarrow> string \<Rightarrow> string \<Rightarrow> string \<Rightarrow> meta_err + Data" where
  "DropSubscription data database rp name =
     (case find_policy data database rp of
        Inl e \<Rightarrow> Inl e
      | Inr rpi \<Rightarrow>
          if list_ex (\<lambda>s. sub_Name s = name) (rp_Subscriptions rpi)
          then Inr (upd_rp database rp
                 (\<lambda>rpi. rpi\<lparr>rp_Subscriptions := remove_first (\<lambda>s. sub_Name s = name) (rp_Subscriptions rpi)\<rparr>) data)
          else Inl ErrSubscriptionNotFound)"

subsection \<open>Users\<close>

definition user :: "Data \<Rightarrow> string \<Rightarrow> UserInfo option" where
  "user data username = find (\<lambda>u. u_Name u = username) (d_Users data)"

definition upd_user :: "string \<Rightarrow> (UserInfo \<Rightarrow> UserInfo) \<Rightarrow> Data \<Rightarrow> Data" where
  "upd_user name f data = data\<lparr>d_Users := update_first (\<lambda>u. u_Name u = name) f (d_Users data)\<rparr>"

definition hasAdminUser :: "Data \<Rightarrow> bool" where
  "hasAdminUser data = list_ex u_Admin (d_Users data)"

definition new_user :: "string \<Rightarrow> string \<Rightarrow> bool \<Rightarrow> UserInfo" where
  "new_user name hash admin = \<lparr>u_Name = name, u_Hash = hash, u_Admin = admin, u_Privileges = []\<rparr>"

definition CreateUser :: "Data \<Rightarrow> string \<Rightarrow> string \<Rightarrow> bool \<Rightarrow> meta_err + Data" where
  "CreateUser data name hash admin =
     (if name = '''' then Inl ErrUsernameRequired
      else if user data name \<noteq> None then Inl ErrUserExists
      else Inr (data\<lparr>d_Users := d_Users data @ [new_user name hash admin],
                     d_adminUserExists := (if admin then True else d_adminUserExists data)\<rparr>))"

definition DropUser :: "Data \<Rightarrow> string \<Rightarrow> meta_err + Data" where
  "DropUser data name =
     (case user data name of
        None \<Rightarrow> Inl ErrUserNotFound
      | Some u \<Rightarrow>
          let wasAdmin = u_Admin u;
              data = data\<lparr>d_Users := remove_first (\<lambda>u. u_Name u = name) (d_Users data)\<rparr>
          in Inr (if wasAdmin then data\<lparr>d_adminUserExists := hasAdminUser data\<rparr> else data))"

definition UpdateUser :: "Data \<Rightarrow> string \<Rightarrow> string \<Rightarrow> meta_err + Data" where
  "UpdateUser data name hash =
     (if user data name = None then Inl ErrUserNotFound
      else Inr (upd_user name (\<lambda>u. u\<lparr>u_Hash := hash\<rparr>) data))"

definition SetPrivilege :: "Data \<Rightarrow> string \<Rightarrow> string \<Rightarrow> privilege \<Rightarrow> meta_err + Data" where
  "SetPrivilege data name database p =
     (if user data name = None then Inl ErrUserNotFound
      else if Database data database = None then Inl (ErrDatabaseNotFound database)
      else Inr (upd_user name (\<lambda>u. u\<lparr>u_Privileges := AList.update database p (u_Privileges u)\<rparr>) data))"

definition SetAdminPrivilege :: "Data \<Rightarrow> string \<Rightarrow> bool \<Rightarrow> meta_err + Data" where
  "SetAdminPrivilege data name admin =
     (if user data name = None then Inl ErrUserNotFound
      else let data = upd_user name (\<lambda>u. u\<lparr>u_Admin := admin\<rparr>) data
           in Inr (data\<lparr>d_adminUserExists := hasAdminUser data\<rparr>))"

definition AdminUserExists :: "Data \<Rightarrow> bool" where
  "AdminUserExists data = d_adminUserExists data"

definition UserPrivileges :: "Data \<Rightarrow> string \<Rightarrow> meta_err + (string \<times> privilege) list" where
  "UserPrivileges data name =
     (case user data name of None \<Rightarrow> Inl ErrUserNotFound | Some ui \<Rightarrow> Inr (u_Privileges ui))"

definition UserPrivilege :: "privileges \<Rightarrow> Data \<Rightarrow> string \<Rightarrow> string \<Rightarrow> meta_err + privilege" where
  "UserPrivilege pc data name database =
     (case user data name of
        None \<Rightarrow> Inl ErrUserNotFound
      | Some ui \<Rightarrow> (case map_of (u_Privileges ui) database of Some p \<Rightarrow> Inr p | None \<Rightarrow> Inr (NoPrivileges pc)))"

end
