(* ===== verification/MetaShards.thy ===== *)
theory MetaShards
  imports MetaData
begin

text \<open>
  The operations of \<open>Data\<close> on shards and shard groups and the import of another catalogue, from
  \<open>src/backend/v1/services/meta/data.go\<close>. A group covers \<open>[StartTime, EndTime)\<close>, cut off at
  \<open>TruncatedAt\<close> when it was truncated.
\<close>

subsection \<open>Sorting\<close>

text \<open>
  \<open>sort.Sort(ShardGroupInfos(groups))\<close>. The library leaves the order of groups that neither precedes
  the other open; the model keeps their order.
\<close>

fun insert_group :: "ShardGroupInfo \<Rightarrow> ShardGroupInfo list \<Rightarrow> ShardGroupInfo list" where
  "insert_group g [] = [g]"
| "insert_group g (x # xs) = (if sg_Less x g then x # insert_group g xs else g # x # xs)"

definition sort_groups :: "ShardGroupInfo list \<Rightarrow> ShardGroupInfo list" where
  "sort_groups gs = foldr insert_group gs []"

subsection \<open>Queries\<close>

definition ShardGroups :: "Data \<Rightarrow> string \<Rightarrow> string \<Rightarrow> meta_err + ShardGroupInfo list" where
  "ShardGroups data database policy =
     (case find_policy data database policy of
        Inl e \<Rightarrow> Inl e
      | Inr rpi \<Rightarrow> Inr (filter (\<lambda>g. \<not> sg_Deleted g) (rp_ShardGroups rpi)))"

definition ShardGroupsByTimeRange ::
  "Data \<Rightarrow> string \<Rightarrow> string \<Rightarrow> time \<Rightarrow> time \<Rightarrow> meta_err + ShardGroupInfo list" where
  "ShardGroupsByTimeRange data database policy tmin tmax =
     (case find_policy data database policy of
        Inl e \<Rightarrow> Inl e
      | Inr rpi \<Rightarrow> Inr (filter (\<lambda>g. \<not> (sg_Deleted g \<or> \<not> sg_Overlaps g tmin tmax)) (rp_ShardGroups rpi)))"

definition ShardGroupByTimestamp ::
  "Data \<Rightarrow> string \<Rightarrow> string \<Rightarrow> time \<Rightarrow> meta_err + ShardGroupInfo option" where
  "ShardGroupByTimestamp data database policy timestamp =
     (case find_policy data database policy of
        Inl e \<Rightarrow> Inl e
      | Inr rpi \<Rightarrow> Inr (rp_ShardGroupByTimestamp rpi timestamp))"

subsection \<open>Creating a shard group\<close>

text \<open>The range before the existing groups are looked at.\<close>

definition group_range :: "RetentionPolicyInfo \<Rightarrow> time \<Rightarrow> time \<times> time" where
  "group_range rpi timestamp =
     (let startTime = Truncate timestamp (rp_ShardGroupDuration rpi);
          endTime = startTime + rp_ShardGroupDuration rpi
      in (startTime, if endTime > time_Unix MaxNanoTime then time_Unix (MaxNanoTime + 1) else endTime))"

text \<open>The loop that narrows the range so that it does not meet an existing group.\<close>

fun narrow_range :: "time \<Rightarrow> ShardGroupInfo list \<Rightarrow> time \<times> time \<Rightarrow> time \<times> time" where
  "narrow_range timestamp [] (startTime, endTime) = (startTime, endTime)"
| "narrow_range timestamp (g # gs) (startTime, endTime) =
     (if sg_Deleted g then narrow_range timestamp gs (startTime, endTime)
      else
        let startI = sg_StartTime g;
            endI = (if sg_Truncated g then sg_TruncatedAt g else sg_EndTime g);
            startTime = (if \<not> timestamp < endI \<and> endI > startTime then endI else startTime);
            endTime = (if startI > timestamp \<and> startI < endTime then startI else endTime)
        in narrow_range timestamp gs (startTime, endTime))"

definition CreateShardGroup ::
  "Data \<Rightarrow> string \<Rightarrow> string \<Rightarrow> time \<Rightarrow> ShardInfo list \<Rightarrow> meta_err + Data" where
  "CreateShardGroup data database policy timestamp shards =
     (case find_policy data database policy of
        Inl e \<Rightarrow> Inl e
      | Inr rpi \<Rightarrow>
          if rp_ShardGroupByTimestamp rpi timestamp \<noteq> None then Inr data
          else
            let (startTime, endTime) = narrow_range timestamp (rp_ShardGroups rpi) (group_range rpi timestamp);
                groupID = d_MaxShardGroupID data + 1;
                (newShards, maxShardID) =
                  (if length shards > 0
                   then (shards, fold (\<lambda>si mx. if si_ID si > mx then si_ID si else mx) shards (d_MaxShardID data))
                   else ([\<lparr>si_ID = d_MaxShardID data + 1, si_Owners = []\<rparr>], d_MaxShardID data + 1));
                sgi = \<lparr>sg_ID = groupID, sg_StartTime = startTime, sg_EndTime = endTime, sg_DeletedAt = 0,
                       sg_Shards = newShards, sg_TruncatedAt = 0\<rparr>
            in Inr ((upd_rp database policy
                       (\<lambda>rpi. rpi\<lparr>rp_ShardGroups := sort_groups (rp_ShardGroups rpi @ [sgi])\<rparr>) data)
                    \<lparr>d_MaxShardGroupID := groupID, d_MaxShardID := maxShardID\<rparr>))"

subsection \<open>Deleting\<close>

definition DeleteShardGroup :: "time \<Rightarrow> Data \<Rightarrow> string \<Rightarrow> string \<Rightarrow> u64 \<Rightarrow> meta_err + Data" where
  "DeleteShardGroup now data database policy sid =
     (case find_policy data database policy of
        Inl e \<Rightarrow> Inl e
      | Inr rpi \<Rightarrow>
          if list_ex (\<lambda>g. sg_ID g = sid) (rp_ShardGroups rpi)
          then Inr (upd_rp database policy
                 (\<lambda>rpi. rpi\<lparr>rp_ShardGroups :=
                   update_first (\<lambda>g. sg_ID g = sid) (\<lambda>g. g\<lparr>sg_DeletedAt := now\<rparr>) (rp_ShardGroups rpi)\<rparr>) data)
          else Inl ErrShardGroupNotFound)"

text \<open>
  \<open>DropShard\<close>: the first group, in the order of the nested loops, that has the shard loses it, and is
  marked deleted when it was its only shard.
\<close>

definition group_has :: "u64 \<Rightarrow> ShardGroupInfo \<Rightarrow> bool" where
  "group_has sid g = list_ex (\<lambda>s. si_ID s = sid) (sg_Shards g)"

definition group_drop :: "time \<Rightarrow> u64 \<Rightarrow> ShardGroupInfo \<Rightarrow> ShardGroupInfo" where
  "group_drop now sid g =
     g\<lparr>sg_Shards := remove_first (\<lambda>s. si_ID s = sid) (sg_Shards g),
       sg_DeletedAt := (if length (sg_Shards g) = 1 \<and> \<not> sg_Deleted g then now else sg_DeletedAt g)\<rparr>"

definition policy_has :: "u64 \<Rightarrow> RetentionPolicyInfo \<Rightarrow> bool" where
  "policy_has sid rpi = list_ex (group_has sid) (rp_ShardGroups rpi)"

definition policy_drop :: "time \<Rightarrow> u64 \<Rightarrow> RetentionPolicyInfo \<Rightarrow> RetentionPolicyInfo" where
  "policy_drop now sid rpi =
     rpi\<lparr>rp_ShardGroups := update_first (group_has sid) (group_drop now sid) (rp_ShardGroups rpi)\<rparr>"

definition database_has :: "u64 \<Rightarrow> DatabaseInfo \<Rightarrow> bool" where
  "database_has sid di = list_ex (policy_has sid) (db_RetentionPolicies di)"

definition database_drop :: "time \<Rightarrow> u64 \<Rightarrow> DatabaseInfo \<Rightarrow> DatabaseInfo" where
  "database_drop now sid di =
     di\<lparr>db_RetentionPolicies := update_first (policy_has sid) (policy_drop now sid) (db_RetentionPolicies di)\<rparr>"

definition DropShard :: "time \<Rightarrow> Data \<Rightarrow> u64 \<Rightarrow> Data" where
  "DropShard now data sid =
     data\<lparr>d_Databases := update_first (database_has sid) (database_drop now sid) (d_Databases data)\<rparr>"

definition prune_keeps :: "time \<Rightarrow> ShardGroupInfo \<Rightarrow> bool" where
  "prune_keeps expiration sgi \<longleftrightarrow>
     IsZero (sg_DeletedAt sgi) \<or> \<not> expiration > sg_DeletedAt sgi \<or> length (sg_Shards sgi) > 0"

text \<open>A function applied to every retention policy of every database.\<close>

definition map_policies :: "(RetentionPolicyInfo \<Rightarrow> RetentionPolicyInfo) \<Rightarrow> Data \<Rightarrow> Data" where
  "map_policies f data =
     data\<lparr>d_Databases := map (\<lambda>di. di\<lparr>db_RetentionPolicies := map f (db_RetentionPolicies di)\<rparr>) (d_Databases data)\<rparr>"

definition PruneShardGroups :: "Data \<Rightarrow> time \<Rightarrow> bool \<times> Data" where
  "PruneShardGroups data expiration =
     (list_ex (\<lambda>di. list_ex (\<lambda>rp. list_ex (\<lambda>g. \<not> prune_keeps expiration g) (rp_ShardGroups rp))
        (db_RetentionPolicies di)) (d_Databases data),
      map_policies (\<lambda>rp. rp\<lparr>rp_ShardGroups := filter (prune_keeps expiration) (rp_ShardGroups rp)\<rparr>) data)"

subsection \<open>Truncating\<close>

definition truncate_group :: "time \<Rightarrow> ShardGroupInfo \<Rightarrow> ShardGroupInfo" where
  "truncate_group t sgi =
     (if \<not> t < sg_EndTime sgi \<or> sg_Deleted sgi \<or> (sg_Truncated sgi \<and> sg_TruncatedAt sgi < t) then sgi
      else if \<not> t > sg_StartTime sgi then sgi\<lparr>sg_TruncatedAt := sg_StartTime sgi\<rparr>
      else sgi\<lparr>sg_TruncatedAt := t\<rparr>)"

definition TruncateShardGroups :: "Data \<Rightarrow> time \<Rightarrow> Data" where
  "TruncateShardGroups data t =
     map_policies (\<lambda>rp. rp\<lparr>rp_ShardGroups := map (truncate_group t) (rp_ShardGroups rp)\<rparr>) data"

subsection \<open>Importing\<close>

text \<open>
  Renumbering: every group and every shard of the imported policies takes the next free ID, in the
  order of the loops; the shard IDs are recorded in the map from old to new.
\<close>

record renumbering =
  rn_group :: u64
  rn_shard :: u64
  rn_map :: "(u64 \<times> u64) list"

fun renumber_shards :: "ShardInfo list \<Rightarrow> renumbering \<Rightarrow> ShardInfo list \<times> renumbering" where
  "renumber_shards [] rn = ([], rn)"
| "renumber_shards (s # ss) rn =
     (let sid = rn_shard rn + 1;
          rn = rn\<lparr>rn_shard := sid, rn_map := AList.update (si_ID s) sid (rn_map rn)\<rparr>;
          (ss', rn') = renumber_shards ss rn
      in (s\<lparr>si_ID := sid, si_Owners := []\<rparr> # ss', rn'))"

fun renumber_groups :: "ShardGroupInfo list \<Rightarrow> renumbering \<Rightarrow> ShardGroupInfo list \<times> renumbering" where
  "renumber_groups [] rn = ([], rn)"
| "renumber_groups (g # gs) rn =
     (let sid = rn_group rn + 1;
          (ss, rn) = renumber_shards (sg_Shards g) (rn\<lparr>rn_group := sid\<rparr>);
          (gs', rn') = renumber_groups gs rn
      in (g\<lparr>sg_ID := sid, sg_Shards := ss\<rparr> # gs', rn'))"

fun renumber_policies :: "RetentionPolicyInfo list \<Rightarrow> renumbering \<Rightarrow> RetentionPolicyInfo list \<times> renumbering" where
  "renumber_policies [] rn = ([], rn)"
| "renumber_policies (rp # rps) rn =
     (let (gs, rn) = renumber_groups (rp_ShardGroups rp) rn;
          (rps', rn') = renumber_policies rps rn
      in (rp\<lparr>rp_ShardGroups := gs\<rparr> # rps', rn'))"

text \<open>The policies to import with the new default: one policy, renamed, or all of them.\<close>

definition import_policies ::
  "DatabaseInfo \<Rightarrow> string \<Rightarrow> string \<Rightarrow> (string \<times> RetentionPolicyInfo list) option" where
  "import_policies dbPtr backupRPName restoreRPName =
     (if backupRPName \<noteq> '''' then
        (case db_RetentionPolicy dbPtr backupRPName of
           Some rp \<Rightarrow>
             let restoreRPName = (if restoreRPName = '''' then backupRPName else restoreRPName)
             in Some (restoreRPName, [rp\<lparr>rp_Name := restoreRPName\<rparr>])
         | None \<Rightarrow> None)
      else Some (db_DefaultRetentionPolicy dbPtr, db_RetentionPolicies dbPtr))"

text \<open>
  \<open>importOneDB\<close> may fail after it has created the database, so the data is returned with the error.
  The policies of the other catalogue are copied; sharing of their subscription slices is not kept.
\<close>

definition importOneDB ::
  "Data \<Rightarrow> Data \<Rightarrow> string \<Rightarrow> string \<Rightarrow> string \<Rightarrow> string \<Rightarrow> (u64 \<times> u64) list \<Rightarrow>
   (meta_err + string \<times> (u64 \<times> u64) list) \<times> Data" where
  "importOneDB data other backupDBName restoreDBName backupRPName restoreRPName shardIDMap =
     (case Database other backupDBName of
        None \<Rightarrow> (Inl (ErrText ''imported metadata does not have datbase named''), data)
      | Some dbPtr \<Rightarrow>
          let restoreDBName = (if restoreDBName = '''' then backupDBName else restoreDBName)
          in if Database data restoreDBName \<noteq> None then (Inl (ErrText ''database already exists''), data)
             else case CreateDatabase data restoreDBName of
               Inl e \<Rightarrow> (Inl e, data)
             | Inr data \<Rightarrow>
                 (case import_policies dbPtr backupRPName restoreRPName of
                    None \<Rightarrow> (Inl (ErrText ''retention Policy not found in meta backup''), data)
                  | Some (defaultRP, rps) \<Rightarrow>
                      let (rps', rn) = renumber_policies rps
                            \<lparr>rn_group = d_MaxShardGroupID data, rn_shard = d_MaxShardID data, rn_map = shardIDMap\<rparr>;
                          data = upd_db restoreDBName
                            (\<lambda>di. di\<lparr>db_DefaultRetentionPolicy := defaultRP, db_RetentionPolicies := rps'\<rparr>) data
                      in (Inr (restoreDBName, rn_map rn),
                          data\<lparr>d_MaxShardGroupID := rn_group rn, d_MaxShardID := rn_shard rn\<rparr>)))"

fun import_all ::
  "Data \<Rightarrow> Data \<Rightarrow> DatabaseInfo list \<Rightarrow> (u64 \<times> u64) list \<Rightarrow> string list \<Rightarrow>
   (meta_err + (u64 \<times> u64) list \<times> string list) \<times> Data" where
  "import_all data other [] shardIDMap newDBs = (Inr (shardIDMap, newDBs), data)"
| "import_all data other (dbi # dbs) shardIDMap newDBs =
     (if db_Name dbi = ''_internal'' then import_all data other dbs shardIDMap newDBs
      else case importOneDB data other (db_Name dbi) '''' '''' '''' shardIDMap of
             (Inl e, data) \<Rightarrow> (Inl e, data)
           | (Inr (dbName, m), data) \<Rightarrow> import_all data other dbs m (newDBs @ [dbName]))"

definition ImportData ::
  "Data \<Rightarrow> Data \<Rightarrow> string \<Rightarrow> string \<Rightarrow> string \<Rightarrow> string \<Rightarrow>
   (meta_err + (u64 \<times> u64) list \<times> string list) \<times> Data" where
  "ImportData data other backupDBName restoreDBName backupRPName restoreRPName =
     (if backupDBName \<noteq> '''' then
        (case importOneDB data other backupDBName restoreDBName backupRPName restoreRPName [] of
           (Inl e, data) \<Rightarrow> (Inl e, data)
         | (Inr (dbName, m), data) \<Rightarrow> (Inr (m, [dbName]), data))
      else import_all data other (d_Databases other) [] [])"

end
