(* ===== verification/MetaGroups.thy ===== *)
theory MetaGroups
  imports MetaShards "HOL-Library.Multiset"
begin

text \<open>
  What \<open>CreateShardGroup\<close> and \<open>TruncateShardGroups\<close> of \<open>src/backend/v1/services/meta/data.go\<close> guarantee
  about the time ranges of the groups of one retention policy.
\<close>

subsection \<open>Ranges\<close>

text \<open>The end of a group where writes stop: \<open>endI\<close> in \<open>CreateShardGroup\<close>, \<open>iEnd\<close> in \<open>ShardGroupInfos.Less\<close>.\<close>

definition eff_end :: "ShardGroupInfo \<Rightarrow> time" where
  "eff_end g = (if sg_Truncated g then sg_TruncatedAt g else sg_EndTime g)"

text \<open>The test of \<open>RetentionPolicyInfo.ShardGroupByTimestamp\<close>.\<close>

definition covers :: "ShardGroupInfo \<Rightarrow> time \<Rightarrow> bool" where
  "covers g t \<longleftrightarrow> sg_Contains g t \<and> \<not> sg_Deleted g \<and> (\<not> sg_Truncated g \<or> t < sg_TruncatedAt g)"

definition group_wf :: "ShardGroupInfo \<Rightarrow> bool" where
  "group_wf g \<longleftrightarrow> 0 < sg_StartTime g \<and> sg_StartTime g \<le> eff_end g \<and> eff_end g \<le> sg_EndTime g"

text \<open>The condition that the comment in \<open>CreateShardGroup\<close> asks of a new range.\<close>

definition clear_of :: "ShardGroupInfo \<Rightarrow> time \<Rightarrow> time \<Rightarrow> bool" where
  "clear_of g s e \<longleftrightarrow> sg_Deleted g \<or> \<not> (sg_StartTime g < e \<and> s < eff_end g)"

definition groups_disjoint :: "ShardGroupInfo \<Rightarrow> ShardGroupInfo \<Rightarrow> bool" where
  "groups_disjoint g h \<longleftrightarrow> sg_Deleted g \<or> clear_of h (sg_StartTime g) (eff_end g)"

lemma rp_ShardGroupByTimestamp_alt:
  "rp_ShardGroupByTimestamp rpi t = find (\<lambda>g. covers g t) (rp_ShardGroups rpi)"
  unfolding rp_ShardGroupByTimestamp_def covers_def ..

lemma covers_iff:
  assumes "group_wf g"
  shows "covers g t \<longleftrightarrow> \<not> sg_Deleted g \<and> sg_StartTime g \<le> t \<and> t < eff_end g"
  using assms unfolding group_wf_def covers_def sg_Contains_def eff_end_def by (auto split: if_splits)

lemma groups_disjoint_covers:
  assumes "groups_disjoint g h" "group_wf g" "group_wf h" "covers g t"
  shows "\<not> covers h t"
  using assms covers_iff [OF assms(2)] covers_iff [OF assms(3)]
  unfolding groups_disjoint_def clear_of_def by auto

lemma groups_disjoint_sym: "groups_disjoint g h \<longleftrightarrow> groups_disjoint h g"
  unfolding groups_disjoint_def clear_of_def by auto

subsection \<open>Sorting\<close>

lemma set_insert_group [simp]: "set (insert_group g gs) = insert g (set gs)"
  by (induction gs) auto

lemma mset_insert_group [simp]: "mset (insert_group g gs) = add_mset g (mset gs)"
  by (induction gs) auto

lemma mset_sort_groups [simp]: "mset (sort_groups gs) = mset gs"
  unfolding sort_groups_def by (induction gs) auto

lemma set_sort_groups [simp]: "set (sort_groups gs) = set gs"
  using mset_sort_groups [of gs] by (metis set_mset_mset)

lemma sg_Less_trans: "sg_Less a b \<Longrightarrow> sg_Less b c \<Longrightarrow> sg_Less a c"
  unfolding sg_Less_def by (auto simp: Let_def split: if_splits)

lemma sg_Less_asym: "sg_Less a b \<Longrightarrow> \<not> sg_Less b a"
  unfolding sg_Less_def by (auto simp: Let_def split: if_splits)

lemma not_sg_Less_trans: "\<not> sg_Less b a \<Longrightarrow> \<not> sg_Less c b \<Longrightarrow> \<not> sg_Less c a"
  unfolding sg_Less_def by (auto simp: Let_def split: if_splits)

definition groups_sorted :: "ShardGroupInfo list \<Rightarrow> bool" where
  "groups_sorted = sorted_wrt (\<lambda>a b. \<not> sg_Less b a)"

lemma insert_group_sorted: "groups_sorted gs \<Longrightarrow> groups_sorted (insert_group g gs)"
proof (induction gs)
  case (Cons x xs)
  show ?case
  proof (cases "sg_Less x g")
    case True
    then show ?thesis using Cons sg_Less_asym by (auto simp: groups_sorted_def)
  next
    case False
    then show ?thesis using Cons.prems not_sg_Less_trans [of x g] by (auto simp: groups_sorted_def)
  qed
qed (simp add: groups_sorted_def)

lemma sort_groups_sorted: "groups_sorted (sort_groups gs)"
  unfolding sort_groups_def by (induction gs) (auto simp: insert_group_sorted, simp add: groups_sorted_def)

subsection \<open>The range of a new group\<close>

lemma group_range_around:
  assumes "0 < rp_ShardGroupDuration rpi" and "timestamp \<le> time_Unix MaxNanoTime"
    and "group_range rpi timestamp = (s, e)"
  shows "s \<le> timestamp" "timestamp < e"
  using assms Truncate_le [of timestamp "rp_ShardGroupDuration rpi"] Truncate_less [of "rp_ShardGroupDuration rpi" timestamp]
  by (auto simp: group_range_def Let_def time_Unix_def split: if_splits)

lemma narrow_range_live:
  "\<not> sg_Deleted g \<Longrightarrow> narrow_range timestamp (g # gs) (s, e) =
     narrow_range timestamp gs
       (if \<not> timestamp < eff_end g \<and> eff_end g > s then eff_end g else s,
        if sg_StartTime g > timestamp \<and> sg_StartTime g < e then sg_StartTime g else e)"
  unfolding narrow_range.simps eff_end_def Let_def by (simp only: if_False)

text \<open>Each step of the loop stays around the timestamp, moves inwards, and clears the group.\<close>

lemma narrow_range_spec:
  assumes "\<forall>g\<in>set gs. group_wf g \<and> \<not> covers g timestamp" and "s \<le> timestamp" "timestamp < e"
    and "narrow_range timestamp gs (s, e) = (s', e')"
  shows "s \<le> s' \<and> s' \<le> timestamp \<and> timestamp < e' \<and> e' \<le> e \<and> (\<forall>g\<in>set gs. clear_of g s' e')"
  using assms
proof (induction gs arbitrary: s e)
  case (Cons g gs)
  note g = Cons.prems(1) [rule_format, of g, OF list.set_intros(1)]
  show ?case
  proof (cases "sg_Deleted g")
    case True
    then show ?thesis using Cons.IH [of s e] Cons.prems by (simp add: clear_of_def)
  next
    case False
    define s1 where "s1 = (if \<not> timestamp < eff_end g \<and> eff_end g > s then eff_end g else s)"
    define e1 where "e1 = (if sg_StartTime g > timestamp \<and> sg_StartTime g < e then sg_StartTime g else e)"
    have bounds: "s \<le> s1" "s1 \<le> timestamp" "timestamp < e1" "e1 \<le> e"
      using Cons.prems(2,3) by (auto simp: s1_def e1_def)
    have "clear_of g s1 e1"
      using g False covers_iff [of g timestamp] unfolding clear_of_def s1_def e1_def by auto
    moreover have "narrow_range timestamp gs (s1, e1) = (s', e')"
      using Cons.prems(4) unfolding narrow_range_live [OF False] s1_def e1_def .
    ultimately show ?thesis
      using Cons.IH [of s1 e1] Cons.prems(1) bounds by (auto simp: clear_of_def)
  qed
qed simp

text \<open>No wider range would do.\<close>

lemma narrow_range_largest:
  assumes "narrow_range timestamp gs (s, e) = (s', e')"
    and "s \<le> a" "a \<le> timestamp" "timestamp < b" "b \<le> e"
    and "\<forall>g\<in>set gs. group_wf g \<and> clear_of g a b"
  shows "s' \<le> a \<and> b \<le> e'"
  using assms
proof (induction gs arbitrary: s e)
  case (Cons g gs)
  show ?case
  proof (cases "sg_Deleted g")
    case True
    then show ?thesis using Cons.IH [of s e] Cons.prems by simp
  next
    case False
    define s1 where "s1 = (if \<not> timestamp < eff_end g \<and> eff_end g > s then eff_end g else s)"
    define e1 where "e1 = (if sg_StartTime g > timestamp \<and> sg_StartTime g < e then sg_StartTime g else e)"
    have "clear_of g a b" "group_wf g" using Cons.prems(6) by simp_all
    then have "s1 \<le> a" "b \<le> e1"
      using False Cons.prems(2-5) by (auto simp: clear_of_def group_wf_def s1_def e1_def)
    moreover have "narrow_range timestamp gs (s1, e1) = (s', e')"
      using Cons.prems(1) unfolding narrow_range_live [OF False] s1_def e1_def .
    ultimately show ?thesis using Cons.IH [of s1 e1] Cons.prems by simp
  qed
qed simp

subsection \<open>One policy of the catalogue\<close>

lemma Database_upd_db:
  assumes "\<And>x. db_Name (f x) = db_Name x"
  shows "Database (upd_db n f d) m = (if m = n then map_option f (Database d m) else Database d m)"
  using assms by (simp add: Database_def upd_db_def find_update_first)

lemma find_policy_upd_rp:
  assumes "find_policy d db rp = Inr rpi" and "\<And>x. rp_Name (f x) = rp_Name x"
  shows "find_policy (upd_rp db rp f d) db rp = Inr (f rpi)"
  using assms
  by (auto simp: find_policy_def RetentionPolicy_def upd_rp_def Database_upd_db find_update_first
      split: option.splits sum.splits)

lemma find_policy_ids [simp]:
  "find_policy (d\<lparr>d_MaxShardGroupID := i\<rparr>) db rp = find_policy d db rp"
  "find_policy (d\<lparr>d_MaxShardID := i\<rparr>) db rp = find_policy d db rp"
  by (simp_all add: find_policy_def RetentionPolicy_def Database_def)

definition new_group :: "Data \<Rightarrow> RetentionPolicyInfo \<Rightarrow> time \<Rightarrow> ShardInfo list \<Rightarrow> ShardGroupInfo" where
  "new_group d rpi timestamp shards =
     (let (s, e) = narrow_range timestamp (rp_ShardGroups rpi) (group_range rpi timestamp)
      in \<lparr>sg_ID = d_MaxShardGroupID d + 1, sg_StartTime = s, sg_EndTime = e, sg_DeletedAt = 0,
          sg_Shards = (if shards \<noteq> [] then shards else [\<lparr>si_ID = d_MaxShardID d + 1, si_Owners = []\<rparr>]),
          sg_TruncatedAt = 0\<rparr>)"

definition next_shard_id :: "Data \<Rightarrow> ShardInfo list \<Rightarrow> u64" where
  "next_shard_id d shards =
     (if shards \<noteq> [] then fold (\<lambda>si mx. if si_ID si > mx then si_ID si else mx) shards (d_MaxShardID d)
      else d_MaxShardID d + 1)"

lemma CreateShardGroup_cases:
  assumes "find_policy d db rp = Inr rpi"
  shows "CreateShardGroup d db rp timestamp shards =
     (if rp_ShardGroupByTimestamp rpi timestamp \<noteq> None then Inr d
      else Inr ((upd_rp db rp
             (\<lambda>r. r\<lparr>rp_ShardGroups := sort_groups (rp_ShardGroups r @ [new_group d rpi timestamp shards])\<rparr>) d)
             \<lparr>d_MaxShardGroupID := d_MaxShardGroupID d + 1, d_MaxShardID := next_shard_id d shards\<rparr>))"
  using assms unfolding CreateShardGroup_def new_group_def next_shard_id_def
  by (simp add: Let_def split: prod.splits)

lemma new_group_fields [simp]:
  "sg_ID (new_group d rpi timestamp shards) = d_MaxShardGroupID d + 1"
  "\<not> sg_Deleted (new_group d rpi timestamp shards)"
  "\<not> sg_Truncated (new_group d rpi timestamp shards)"
  by (simp_all add: new_group_def sg_Deleted_def sg_Truncated_def IsZero_def split: prod.splits)

lemma new_group_range:
  fixes d shards
  assumes "0 < rp_ShardGroupDuration rpi" "timestamp \<le> time_Unix MaxNanoTime"
    and "\<forall>g\<in>set (rp_ShardGroups rpi). group_wf g" "rp_ShardGroupByTimestamp rpi timestamp = None"
  defines "g \<equiv> new_group d rpi timestamp shards"
  shows "fst (group_range rpi timestamp) \<le> sg_StartTime g \<and> sg_StartTime g \<le> timestamp \<and> timestamp < sg_EndTime g \<and>
    sg_EndTime g \<le> snd (group_range rpi timestamp) \<and>
    (\<forall>h\<in>set (rp_ShardGroups rpi). clear_of h (sg_StartTime g) (sg_EndTime g))"
proof -
  obtain s e where r: "group_range rpi timestamp = (s, e)" by (cases "group_range rpi timestamp")
  obtain s' e' where n: "narrow_range timestamp (rp_ShardGroups rpi) (s, e) = (s', e')"
    by (cases "narrow_range timestamp (rp_ShardGroups rpi) (s, e)")
  have "\<forall>h\<in>set (rp_ShardGroups rpi). group_wf h \<and> \<not> covers h timestamp"
    using assms(3,4) by (auto simp: rp_ShardGroupByTimestamp_alt find_None_iff)
  from narrow_range_spec [OF this group_range_around [OF assms(1,2) r] n] r n show ?thesis
    by (simp add: g_def new_group_def)
qed

lemma find_unique:
  assumes "x \<in> set xs" "P x" and "\<And>y. y \<in> set xs \<Longrightarrow> P y \<Longrightarrow> y = x"
  shows "find P xs = Some x"
proof (cases "find P xs")
  case None
  then show ?thesis using assms(1,2) by (auto simp: find_None_iff)
next
  case (Some y)
  then show ?thesis using find_SomeD [OF Some] assms(3) [of y] by simp
qed

text \<open>
  C11. Creating a shard group for a timestamp that no group covers adds exactly one group, with the next
  ID. It covers the timestamp, it meets no live group of the policy, its range is the largest such
  one inside the slot of the policy, lookups at the timestamp find it, and the groups are sorted
  afterwards.
\<close>

theorem CreateShardGroup_new:
  assumes "find_policy d db rp = Inr rpi" and "0 < rp_ShardGroupDuration rpi" and "timestamp \<le> time_Unix MaxNanoTime"
    and "\<forall>g\<in>set (rp_ShardGroups rpi). group_wf g" and "rp_ShardGroupByTimestamp rpi timestamp = None"
  shows "\<exists>d' rpi' g. CreateShardGroup d db rp timestamp shards = Inr d' \<and> find_policy d' db rp = Inr rpi' \<and>
    mset (rp_ShardGroups rpi') = add_mset g (mset (rp_ShardGroups rpi)) \<and> groups_sorted (rp_ShardGroups rpi') \<and>
    sg_ID g = d_MaxShardGroupID d + 1 \<and> d_MaxShardGroupID d' = d_MaxShardGroupID d + 1 \<and>
    ShardGroupByTimestamp d' db rp timestamp = Inr (Some g) \<and>
    (\<forall>h\<in>set (rp_ShardGroups rpi). groups_disjoint g h) \<and>
    (\<forall>a b. fst (group_range rpi timestamp) \<le> a \<and> a \<le> timestamp \<and> timestamp < b \<and> b \<le> snd (group_range rpi timestamp) \<and>
       (\<forall>h\<in>set (rp_ShardGroups rpi). clear_of h a b) \<longrightarrow> sg_StartTime g \<le> a \<and> b \<le> sg_EndTime g)"
proof -
  define g where "g = new_group d rpi timestamp shards"
  define f where "f = (\<lambda>r :: RetentionPolicyInfo. r\<lparr>rp_ShardGroups := sort_groups (rp_ShardGroups r @ [g])\<rparr>)"
  define d' where "d' = (upd_rp db rp f d)\<lparr>d_MaxShardGroupID := d_MaxShardGroupID d + 1, d_MaxShardID := next_shard_id d shards\<rparr>"
  have range: "sg_StartTime g \<le> timestamp" "timestamp < sg_EndTime g"
    "\<forall>h\<in>set (rp_ShardGroups rpi). clear_of h (sg_StartTime g) (sg_EndTime g)"
    using new_group_range [OF assms(2-5), of d shards] by (simp_all add: g_def)
  have pol: "find_policy d' db rp = Inr (f rpi)"
    using find_policy_upd_rp [OF assms(1), of f] by (simp add: d'_def f_def)
  have "CreateShardGroup d db rp timestamp shards = Inr d'"
    using assms(5) by (simp add: CreateShardGroup_cases [OF assms(1)] d'_def f_def g_def)
  moreover have "find (\<lambda>h. covers h timestamp) (rp_ShardGroups (f rpi)) = Some g"
  proof (rule find_unique)
    show "covers g timestamp" using range by (simp add: covers_def sg_Contains_def g_def)
  next
    fix h assume "h \<in> set (rp_ShardGroups (f rpi))" "covers h timestamp"
    then show "h = g" using assms(5) by (auto simp: f_def rp_ShardGroupByTimestamp_alt find_None_iff)
  qed (simp add: f_def)
  moreover have "\<forall>h\<in>set (rp_ShardGroups rpi). groups_disjoint g h"
    using range(3) by (simp add: groups_disjoint_def eff_end_def g_def)
  moreover have "sg_StartTime g \<le> a \<and> b \<le> sg_EndTime g"
    if "fst (group_range rpi timestamp) \<le> a" "a \<le> timestamp" "timestamp < b" "b \<le> snd (group_range rpi timestamp)"
      "\<forall>h\<in>set (rp_ShardGroups rpi). clear_of h a b" for a b
    using narrow_range_largest [of timestamp "rp_ShardGroups rpi" "fst (group_range rpi timestamp)" "snd (group_range rpi timestamp)"
        "sg_StartTime g" "sg_EndTime g" a b] that assms(4)
    by (simp add: g_def new_group_def split: prod.splits)
  ultimately show ?thesis
    using pol sort_groups_sorted
    by (intro exI [of _ d'] exI [of _ "f rpi"] exI [of _ g])
      (auto simp: f_def g_def d'_def ShardGroupByTimestamp_def rp_ShardGroupByTimestamp_alt)
qed

lemma sample_policy:
  obtains rpi where "find_policy sample_data ''db'' ''rp'' = Inr rpi" "rp_ShardGroupDuration rpi = 168 * hour"
    "rp_ShardGroupByTimestamp rpi (unix_epoch + 2 * hour) = None" "\<forall>g\<in>set (rp_ShardGroups rpi). group_wf g"
proof
  show "find_policy sample_data ''db'' ''rp'' = Inr (hd (db_RetentionPolicies (hd (d_Databases sample_data))))"
    by (simp add: sample_data_def find_policy_def RetentionPolicy_def Database_def)
qed (simp_all add: sample_data_def rp_ShardGroupByTimestamp_def sg_Contains_def sg_Deleted_def sg_Truncated_def IsZero_def
    group_wf_def eff_end_def unix_epoch_def hour_def)

theorem CreateShardGroup_new_witness:
  "\<exists>d' g. CreateShardGroup sample_data ''db'' ''rp'' (unix_epoch + 2 * hour) [] = Inr d' \<and>
     ShardGroupByTimestamp d' ''db'' ''rp'' (unix_epoch + 2 * hour) = Inr (Some g) \<and> sg_ID g = d_MaxShardGroupID sample_data + 1"
proof -
  obtain rpi where *: "find_policy sample_data ''db'' ''rp'' = Inr rpi" "rp_ShardGroupDuration rpi = 168 * hour"
    "rp_ShardGroupByTimestamp rpi (unix_epoch + 2 * hour) = None" "\<forall>g\<in>set (rp_ShardGroups rpi). group_wf g"
    by (rule sample_policy)
  have "0 < rp_ShardGroupDuration rpi" "unix_epoch + 2 * hour \<le> time_Unix MaxNanoTime"
    by (simp_all add: *(2) hour_def time_Unix_def MaxNanoTime_def)
  from CreateShardGroup_new [OF *(1) this *(4,3), of "[]"] show ?thesis by blast
qed

subsection \<open>Truncation\<close>

lemma truncate_group_covers:
  assumes "group_wf g" "0 < t"
  shows "covers (truncate_group t g) ts \<longleftrightarrow> covers g ts \<and> ts < t"
  using assms
  by (auto simp: truncate_group_def covers_def sg_Contains_def sg_Deleted_def sg_Truncated_def IsZero_def
      group_wf_def eff_end_def split: if_splits)

lemma truncate_group_wf:
  assumes "group_wf g" "0 < t"
  shows "group_wf (truncate_group t g)" "eff_end (truncate_group t g) \<le> eff_end g"
  using assms
  by (auto simp: truncate_group_def sg_Deleted_def sg_Truncated_def IsZero_def group_wf_def eff_end_def split: if_splits)

lemma truncate_group_fields [simp]:
  "sg_ID (truncate_group t g) = sg_ID g" "sg_StartTime (truncate_group t g) = sg_StartTime g"
  "sg_Deleted (truncate_group t g) = sg_Deleted g" "sg_Shards (truncate_group t g) = sg_Shards g"
  by (simp_all add: truncate_group_def sg_Deleted_def)

lemma find_map_conj:
  assumes "\<And>x. x \<in> set xs \<Longrightarrow> P (f x) \<longleftrightarrow> P x \<and> c"
  shows "find P (map f xs) = (if c then map_option f (find P xs) else None)"
  using assms by (induction xs) auto

lemma find_policy_map_policies:
  assumes "find_policy d db rp = Inr rpi" and "\<And>x. rp_Name (f x) = rp_Name x"
  shows "find_policy (map_policies f d) db rp = Inr (f rpi)"
proof -
  have "Database (map_policies f d) db =
      map_option (\<lambda>di. di\<lparr>db_RetentionPolicies := map f (db_RetentionPolicies di)\<rparr>) (Database d db)"
    unfolding Database_def map_policies_def by (simp add: find_map_key)
  then show ?thesis
    using assms by (auto simp: find_policy_def RetentionPolicy_def find_map_key split: option.splits sum.splits)
qed

text \<open>
  After truncation at a time, lookups find the same group as before (truncated) for every earlier
  timestamp, and none for the time itself or a later one: the next write there creates a new group.
\<close>

theorem TruncateShardGroups_lookup:
  assumes "find_policy d db rp = Inr rpi" and "\<forall>g\<in>set (rp_ShardGroups rpi). group_wf g" and "0 < t"
  shows "ShardGroupByTimestamp (TruncateShardGroups d t) db rp ts =
    Inr (if ts < t then map_option (truncate_group t) (rp_ShardGroupByTimestamp rpi ts) else None)"
proof -
  let ?f = "\<lambda>rp :: RetentionPolicyInfo. rp\<lparr>rp_ShardGroups := map (truncate_group t) (rp_ShardGroups rp)\<rparr>"
  have "find_policy (TruncateShardGroups d t) db rp = Inr (?f rpi)"
    unfolding TruncateShardGroups_def by (rule find_policy_map_policies [OF assms(1)]) simp
  moreover have "find (\<lambda>g. covers g ts) (map (truncate_group t) (rp_ShardGroups rpi)) =
      (if ts < t then map_option (truncate_group t) (find (\<lambda>g. covers g ts) (rp_ShardGroups rpi)) else None)"
    by (rule find_map_conj) (use assms(2,3) truncate_group_covers in blast)
  ultimately show ?thesis by (simp add: ShardGroupByTimestamp_def rp_ShardGroupByTimestamp_alt)
qed

theorem TruncateShardGroups_lookup_witness:
  "ShardGroupByTimestamp (TruncateShardGroups sample_data (unix_epoch + 1)) ''db'' ''rp'' (unix_epoch + 1) = Inr None"
proof -
  obtain rpi where *: "find_policy sample_data ''db'' ''rp'' = Inr rpi" "\<forall>g\<in>set (rp_ShardGroups rpi). group_wf g"
    by (rule sample_policy)
  have "0 < unix_epoch + 1" by (simp add: unix_epoch_def)
  from TruncateShardGroups_lookup [OF * this, of "unix_epoch + 1"] show ?thesis by simp
qed

end
