(* ===== verification/MetaCatalogue.thy ===== *)
theory MetaCatalogue
  imports MetaGroups
begin

text \<open>
  The invariant of the metadata and that every operation of
  \<open>src/backend/v1/services/meta/data.go\<close> keeps it, by induction over the catalogues that sequences of
  operations and imports reach.
\<close>

subsection \<open>The invariant\<close>

definition MaxDuration :: duration where "MaxDuration = 9223372036854775807"

definition MinNanoTime :: int where "MinNanoTime = - 9223372036854775806"

text \<open>
  A policy has a shard group duration of at least an hour, keeps its data at least that long, and
  its live groups do not overlap.
\<close>

definition policy_ok :: "RetentionPolicyInfo \<Rightarrow> bool" where
  "policy_ok rp \<longleftrightarrow>
     hour \<le> rp_ShardGroupDuration rp \<and> rp_ShardGroupDuration rp \<le> MaxDuration \<and>
     (0 < rp_Duration rp \<longrightarrow> rp_ShardGroupDuration rp \<le> rp_Duration rp) \<and>
     list_all group_wf (rp_ShardGroups rp) \<and> sorted_wrt groups_disjoint (rp_ShardGroups rp) \<and>
     distinct (map sub_Name (rp_Subscriptions rp))"

text \<open>
  The names of the policies of a database are unique, apart from the empty name, which
  \<open>UpdateRetentionPolicy\<close> lets several policies take.
\<close>

definition proper_names :: "RetentionPolicyInfo list \<Rightarrow> string list" where
  "proper_names rps = filter (\<lambda>n. n \<noteq> '''') (map rp_Name rps)"

definition database_ok :: "DatabaseInfo \<Rightarrow> bool" where
  "database_ok db \<longleftrightarrow>
     db_Name db \<noteq> '''' \<and> length (db_Name db) \<le> MaxNameLen \<and> distinct (proper_names (db_RetentionPolicies db)) \<and>
     list_all policy_ok (db_RetentionPolicies db) \<and> distinct (map cq_Name (db_ContinuousQueries db))"

definition user_ok :: "string set \<Rightarrow> UserInfo \<Rightarrow> bool" where
  "user_ok dbs u \<longleftrightarrow> u_Name u \<noteq> '''' \<and> distinct (map fst (u_Privileges u)) \<and> fst ` set (u_Privileges u) \<subseteq> dbs"

definition catalogue_ok :: "Data \<Rightarrow> bool" where
  "catalogue_ok d \<longleftrightarrow>
     distinct (map db_Name (d_Databases d)) \<and> list_all database_ok (d_Databases d) \<and>
     distinct (map u_Name (d_Users d)) \<and> list_all (user_ok (db_Name ` set (d_Databases d))) (d_Users d) \<and>
     d_adminUserExists d = hasAdminUser d"

text \<open>The IDs of the groups and of the shards, over the whole catalogue.\<close>

definition db_groups :: "DatabaseInfo \<Rightarrow> ShardGroupInfo list" where
  "db_groups db = concat (map rp_ShardGroups (db_RetentionPolicies db))"

definition all_groups :: "Data \<Rightarrow> ShardGroupInfo list" where
  "all_groups d = concat (map db_groups (d_Databases d))"

definition shard_ids :: "ShardGroupInfo list \<Rightarrow> u64 list" where
  "shard_ids gs = map si_ID (concat (map sg_Shards gs))"

definition ids_below :: "u64 list \<Rightarrow> u64 \<Rightarrow> bool" where
  "ids_below is m \<longleftrightarrow> distinct is \<and> (\<forall>i\<in>set is. i \<le> m)"

definition ids_ok :: "Data \<Rightarrow> bool" where
  "ids_ok d \<longleftrightarrow> ids_below (map sg_ID (all_groups d)) (d_MaxShardGroupID d) \<and>
     ids_below (shard_ids (all_groups d)) (d_MaxShardID d)"

subsection \<open>Steps\<close>

definition result :: "Data \<Rightarrow> meta_err + Data \<Rightarrow> Data" where
  "result d r = (case r of Inl e \<Rightarrow> d | Inr d' \<Rightarrow> d')"

datatype meta_op =
    OpCreateDatabase string
  | OpDropDatabase string
  | OpCreateRetentionPolicy string "RetentionPolicyInfo option" bool
  | OpDropRetentionPolicy string string
  | OpUpdateRetentionPolicy string string RetentionPolicyUpdate bool
  | OpCreateContinuousQuery string string string
  | OpDropContinuousQuery string string
  | OpCreateSubscription string string string string "string list"
  | OpDropSubscription string string string
  | OpCreateUser string string bool
  | OpDropUser string
  | OpUpdateUser string string
  | OpSetPrivilege string string privilege
  | OpSetAdminPrivilege string bool
  | OpCreateShardGroup string string time "ShardInfo list"
  | OpDeleteShardGroup time string string u64
  | OpDropShard time u64
  | OpPruneShardGroups time
  | OpTruncateShardGroups time

fun perform :: "url_lib \<Rightarrow> meta_op \<Rightarrow> Data \<Rightarrow> meta_err + Data" where
  "perform ul (OpCreateDatabase n) d = CreateDatabase d n"
| "perform ul (OpDropDatabase n) d = DropDatabase d n"
| "perform ul (OpCreateRetentionPolicy db rpi dflt) d = CreateRetentionPolicy d db rpi dflt"
| "perform ul (OpDropRetentionPolicy db n) d = DropRetentionPolicy d db n"
| "perform ul (OpUpdateRetentionPolicy db n rpu dflt) d = UpdateRetentionPolicy d db n rpu dflt"
| "perform ul (OpCreateContinuousQuery db n q) d = CreateContinuousQuery d db n q"
| "perform ul (OpDropContinuousQuery db n) d = DropContinuousQuery d db n"
| "perform ul (OpCreateSubscription db rp n m ds) d = CreateSubscription ul d db rp n m ds"
| "perform ul (OpDropSubscription db rp n) d = DropSubscription d db rp n"
| "perform ul (OpCreateUser n h a) d = CreateUser d n h a"
| "perform ul (OpDropUser n) d = DropUser d n"
| "perform ul (OpUpdateUser n h) d = UpdateUser d n h"
| "perform ul (OpSetPrivilege n db p) d = SetPrivilege d n db p"
| "perform ul (OpSetAdminPrivilege n a) d = SetAdminPrivilege d n a"
| "perform ul (OpCreateShardGroup db rp t ss) d = CreateShardGroup d db rp t ss"
| "perform ul (OpDeleteShardGroup now db rp i) d = DeleteShardGroup now d db rp i"
| "perform ul (OpDropShard now i) d = Inr (DropShard now d i)"
| "perform ul (OpPruneShardGroups t) d = Inr (snd (PruneShardGroups d t))"
| "perform ul (OpTruncateShardGroups t) d = Inr (TruncateShardGroups d t)"

text \<open>
  What the types and the callers give: durations are 64-bit, timestamps lie in the range of
  \<open>models.MinNanoTime\<close> to \<open>models.MaxNanoTime\<close>, the clock is not at the zero time, a policy is created
  without groups, shards that come with a group are new, and the ID counters do not wrap around.
\<close>

fun op_ok :: "meta_op \<Rightarrow> Data \<Rightarrow> bool" where
  "op_ok (OpCreateRetentionPolicy db rpi dflt) d =
     (case rpi of None \<Rightarrow> True
      | Some rp \<Rightarrow> rp_ShardGroups rp = [] \<and> rp_Subscriptions rp = [] \<and> rp_ShardGroupDuration rp \<le> MaxDuration)"
| "op_ok (OpUpdateRetentionPolicy db n rpu dflt) d =
     (case rpu_ShardGroupDuration rpu of None \<Rightarrow> True | Some sgd \<Rightarrow> sgd \<le> MaxDuration)"
| "op_ok (OpCreateShardGroup db rp t ss) d =
     (time_Unix MinNanoTime \<le> t \<and> t \<le> time_Unix MaxNanoTime \<and> d_MaxShardGroupID d \<noteq> - 1 \<and> d_MaxShardID d \<noteq> - 1 \<and>
      distinct (map si_ID ss) \<and> list_all (\<lambda>s. d_MaxShardID d < si_ID s) ss)"
| "op_ok (OpDeleteShardGroup now db rp i) d = (now \<noteq> 0)"
| "op_ok (OpDropShard now i) d = (now \<noteq> 0)"
| "op_ok (OpTruncateShardGroups t) d = (0 < t)"
| "op_ok _ d = True"

definition import_fits :: "Data \<Rightarrow> Data \<Rightarrow> bool" where
  "import_fits d other \<longleftrightarrow>
     unat (d_MaxShardGroupID d) + length (all_groups other) < 2 ^ 64 \<and>
     unat (d_MaxShardID d) + length (shard_ids (all_groups other)) < 2 ^ 64"

definition empty_data :: "u64 \<Rightarrow> Data" where
  "empty_data cluster =
     \<lparr>d_Term = 0, d_Index = 1, d_ClusterID = cluster, d_Databases = [], d_Users = [], d_adminUserExists = False,
      d_MaxShardGroupID = 0, d_MaxShardID = 0\<rparr>"

inductive reachable :: "url_lib \<Rightarrow> Data \<Rightarrow> bool" where
  reach_empty: "reachable ul (empty_data cluster)"
| reach_op: "reachable ul d \<Longrightarrow> op_ok op d \<Longrightarrow> reachable ul (result d (perform ul op d))"
| reach_import: "reachable ul d \<Longrightarrow> reachable ul other \<Longrightarrow> import_fits d other \<Longrightarrow>
    reachable ul (snd (ImportData d other backupDB restoreDB backupRP restoreRP))"

subsection \<open>Changes at one database or policy\<close>

lemma Database_SomeD: "Database d n = Some di \<Longrightarrow> di \<in> set (d_Databases d) \<and> db_Name di = n"
  unfolding Database_def by (drule find_SomeD) simp

lemma Database_None_iff: "Database d n = None \<longleftrightarrow> n \<notin> db_Name ` set (d_Databases d)"
  unfolding Database_def by (simp add: find_None_iff_keys)

lemma db_RetentionPolicy_SomeD:
  assumes "db_RetentionPolicy di n = Some rpi"
  shows "rpi \<in> set (db_RetentionPolicies di)"
    "find (\<lambda>rp. rp_Name rp = rp_Name rpi) (db_RetentionPolicies di) = Some rpi"
    "n \<noteq> '''' \<Longrightarrow> rp_Name rpi = n"
proof -
  obtain m where m: "find (\<lambda>rp. rp_Name rp = m) (db_RetentionPolicies di) = Some rpi" "n \<noteq> '''' \<longrightarrow> m = n"
    using assms unfolding db_RetentionPolicy_def by (auto simp: Let_def split: if_splits)
  have "rpi \<in> set (db_RetentionPolicies di)" "rp_Name rpi = m" using find_SomeD [OF m(1)] by simp_all
  then show "rpi \<in> set (db_RetentionPolicies di)"
    "find (\<lambda>rp. rp_Name rp = rp_Name rpi) (db_RetentionPolicies di) = Some rpi"
    "n \<noteq> '''' \<Longrightarrow> rp_Name rpi = n" using m by simp_all
qed

lemma find_policy_InrD:
  assumes "find_policy d db rp = Inr rpi"
  obtains di where "Database d db = Some di" "find (\<lambda>r. rp_Name r = rp) (db_RetentionPolicies di) = Some rpi"
  using assms unfolding find_policy_def RetentionPolicy_def by (auto split: option.splits sum.splits)

lemma catalogue_ok_upd_db:
  assumes "catalogue_ok d" and "\<And>x. db_Name (f x) = db_Name x"
    and "\<And>di. Database d n = Some di \<Longrightarrow> database_ok di \<Longrightarrow> database_ok (f di)"
  shows "catalogue_ok (upd_db n f d)"
proof -
  have names: "map db_Name (d_Databases (upd_db n f d)) = map db_Name (d_Databases d)"
    unfolding upd_db_def using assms(2) by (simp add: map_update_first)
  have "list_all database_ok (d_Databases (upd_db n f d))"
    using assms(1,3) by (simp add: upd_db_def catalogue_ok_def Database_def list_all_update_first)
  moreover have "db_Name ` set (d_Databases (upd_db n f d)) = db_Name ` set (d_Databases d)"
    using arg_cong [OF names, of set] by simp
  ultimately show ?thesis
    using assms(1) names by (simp add: catalogue_ok_def) (simp add: upd_db_def hasAdminUser_def)
qed

lemma database_ok_upd_policy:
  assumes "database_ok di" and "\<And>x. rp_Name (f x) = rp_Name x"
    and "\<And>rp. find P (db_RetentionPolicies di) = Some rp \<Longrightarrow> policy_ok rp \<Longrightarrow> policy_ok (f rp)"
  shows "database_ok (di\<lparr>db_RetentionPolicies := update_first P f (db_RetentionPolicies di)\<rparr>)"
  using assms by (simp add: database_ok_def proper_names_def map_update_first list_all_update_first)

lemma catalogue_ok_upd_rp:
  assumes "catalogue_ok d" and "\<And>x. rp_Name (f x) = rp_Name x" and "\<And>rp. policy_ok rp \<Longrightarrow> policy_ok (f rp)"
  shows "catalogue_ok (upd_rp n p f d)"
  unfolding upd_rp_def using assms by (auto intro!: catalogue_ok_upd_db database_ok_upd_policy)

lemma catalogue_ok_ids [simp]:
  "catalogue_ok (d\<lparr>d_MaxShardGroupID := i\<rparr>) = catalogue_ok d" "catalogue_ok (d\<lparr>d_MaxShardID := i\<rparr>) = catalogue_ok d"
  by (simp_all add: catalogue_ok_def hasAdminUser_def)

subsection \<open>Databases and policies\<close>

lemma user_ok_mono: "user_ok A u \<Longrightarrow> A \<subseteq> B \<Longrightarrow> user_ok B u"
  unfolding user_ok_def by auto

lemma CreateDatabase_ok:
  assumes "catalogue_ok d" "CreateDatabase d n = Inr d'"
  shows "catalogue_ok d'"
proof (cases "Database d n")
  case None
  then have n: "n \<notin> db_Name ` set (d_Databases d)" by (simp add: Database_None_iff)
  have "n \<noteq> ''''" "length n \<le> MaxNameLen" and d': "d' = d\<lparr>d_Databases := d_Databases d @ [new_database n]\<rparr>"
    using assms(2) None by (auto simp: CreateDatabase_def split: if_splits)
  then have "database_ok (new_database n)" by (simp add: database_ok_def new_database_def proper_names_def)
  moreover have "list_all (user_ok (insert n (db_Name ` set (d_Databases d)))) (d_Users d)"
    using assms(1) unfolding catalogue_ok_def list_all_iff by (blast intro: user_ok_mono)
  ultimately show ?thesis
    using assms(1) n by (auto simp: catalogue_ok_def d' new_database_def hasAdminUser_def)
qed (use assms in \<open>auto simp: CreateDatabase_def split: if_splits\<close>)

lemma set_remove_first_key:
  assumes "distinct (map key xs)"
  shows "key ` set (remove_first (\<lambda>x. key x = k) xs) = key ` set xs - {k}"
proof -
  have "k \<notin> key ` set (remove_first (\<lambda>x. key x = k) xs)"
    using find_remove_first [OF assms, of k k] by (auto simp: find_None_iff)
  moreover have "x \<in> set (remove_first (\<lambda>x. key x = k) xs)" if "x \<in> set xs" "key x \<noteq> k" for x
    using that by (induction xs) auto
  ultimately show ?thesis using set_remove_first [of "\<lambda>x. key x = k" xs] by blast
qed

lemma DropDatabase_ok:
  assumes "catalogue_ok d"
  shows "catalogue_ok (result d (DropDatabase d n))"
proof (cases "Database d n = None")
  case False
  define dbs where "dbs = remove_first (\<lambda>db. db_Name db = n) (d_Databases d)"
  have names: "db_Name ` set dbs = db_Name ` set (d_Databases d) - {n}"
    using assms by (simp add: dbs_def catalogue_ok_def set_remove_first_key)
  have "user_ok (db_Name ` set dbs) (u\<lparr>u_Privileges := AList.delete n (u_Privileges u)\<rparr>)"
    if "user_ok (db_Name ` set (d_Databases d)) u" for u
    using that by (auto simp: names user_ok_def AList.delete_eq intro!: distinct_map_filter)
  then have "list_all (user_ok (db_Name ` set dbs)) (map (\<lambda>u. u\<lparr>u_Privileges := AList.delete n (u_Privileges u)\<rparr>) (d_Users d))"
    using assms by (simp add: catalogue_ok_def list_all_iff)
  moreover have "list_all database_ok dbs" "distinct (map db_Name dbs)"
    using assms by (simp_all add: catalogue_ok_def dbs_def list_all_remove_first distinct_remove_first)
  ultimately show ?thesis
    using assms False by (simp add: DropDatabase_def result_def dbs_def [symmetric] catalogue_ok_def comp_def hasAdminUser_def list_ex_iff)
qed (use assms in \<open>simp add: DropDatabase_def result_def\<close>)

lemma shardGroupDuration_le: "hour \<le> d \<Longrightarrow> shardGroupDuration d \<le> d"
  by (simp add: shardGroupDuration_def hour_def)

lemma NormalisedShardDuration_le:
  assumes "hour \<le> d" "sgd \<le> d"
  shows "NormalisedShardDuration sgd d \<le> d"
  using assms shardGroupDuration_le [of hour] shardGroupDuration_le [of d]
  by (auto simp: NormalisedShardDuration_def MinRetentionPolicyDuration_def)

lemma NormalisedShardDuration_max: "sgd \<le> MaxDuration \<Longrightarrow> NormalisedShardDuration sgd d \<le> MaxDuration"
  by (auto simp: NormalisedShardDuration_def shardGroupDuration_def MaxDuration_def hour_def)

lemma CreateRetentionPolicy_ok:
  assumes "catalogue_ok d" "op_ok (OpCreateRetentionPolicy db rpi dflt) d"
  shows "catalogue_ok (result d (CreateRetentionPolicy d db rpi dflt))"
proof (cases "\<exists>d'. CreateRetentionPolicy d db rpi dflt = Inr d' \<and> d' \<noteq> d")
  case True
  then obtain rp di where rpi: "rpi = Some rp" "rp_Name rp \<noteq> ''''" and di: "Database d db = Some di"
    "db_RetentionPolicy di (rp_Name rp) = None"
    by (auto simp: CreateRetentionPolicy_def Let_def split: option.splits if_splits)
  define rp' where "rp' = rp\<lparr>rp_ShardGroupDuration := NormalisedShardDuration (rp_ShardGroupDuration rp) (rp_Duration rp)\<rparr>"
  define f where "f = (\<lambda>di :: DatabaseInfo. di\<lparr>db_RetentionPolicies := db_RetentionPolicies di @ [rp'],
    db_DefaultRetentionPolicy := (if dflt then rp_Name rp' else db_DefaultRetentionPolicy di)\<rparr>)"
  have res: "CreateRetentionPolicy d db rpi dflt = Inr (upd_db db f d)"
    and dur: "\<not> (0 < rp_Duration rp \<and> rp_Duration rp < rp_ShardGroupDuration rp')"
    using True di rpi unfolding CreateRetentionPolicy_def Let_def f_def rp'_def by (auto split: if_splits)
  have "policy_ok rp'"
    using assms(2) rpi dur NormalisedShardDuration_ge_hour NormalisedShardDuration_max
    by (auto simp: policy_ok_def rp'_def)
  moreover have "rp_Name rp \<notin> set (map rp_Name (db_RetentionPolicies di))"
    using di(2) rpi(2) by (auto simp: db_RetentionPolicy_def find_None_iff)
  ultimately have "database_ok (f di)" if "database_ok di"
    using that rpi(2) by (auto simp: database_ok_def f_def proper_names_def rp'_def)
  then have "catalogue_ok (upd_db db f d)"
    using di(1) by (intro catalogue_ok_upd_db assms(1)) (auto simp: f_def)
  then show ?thesis by (simp add: res result_def)
qed (use assms in \<open>auto simp: result_def split: sum.splits\<close>)

lemma DropRetentionPolicy_ok:
  assumes "catalogue_ok d"
  shows "catalogue_ok (result d (DropRetentionPolicy d db n))"
proof -
  have "distinct (proper_names (remove_first P rps))" if "distinct (proper_names rps)" for P rps
    using that
  proof (induction rps)
    case (Cons rp rps)
    then show ?case using set_remove_first [of P rps] by (auto simp: proper_names_def split: if_splits)
  qed (simp add: proper_names_def)
  then show ?thesis
    using assms
    by (auto simp: DropRetentionPolicy_def result_def database_ok_def list_all_remove_first intro!: catalogue_ok_upd_db
        split: option.splits)
qed

lemma apply_update_policy_ok:
  assumes "policy_ok rpi" "\<not> incompatible_update rpu rpi"
    and "case rpu_Duration rpu of Some dur \<Rightarrow> \<not> (dur < MinRetentionPolicyDuration \<and> dur \<noteq> 0) | None \<Rightarrow> True"
    and "case rpu_ShardGroupDuration rpu of None \<Rightarrow> True | Some sgd \<Rightarrow> sgd \<le> MaxDuration"
  shows "policy_ok (apply_update rpu rpi)"
proof -
  have d: "hour \<le> rp_Duration rpi" if "0 < rp_Duration rpi"
    using assms(1) that unfolding policy_ok_def by simp
  show ?thesis
    using assms d NormalisedShardDuration_ge_hour NormalisedShardDuration_max NormalisedShardDuration_le
    by (auto simp: policy_ok_def apply_update_def incompatible_update_def MinRetentionPolicyDuration_def Let_def
        split: option.splits)
qed

lemma rp_Name_apply_update: "rp_Name (apply_update rpu rpi) = (case rpu_Name rpu of Some n \<Rightarrow> n | None \<Rightarrow> rp_Name rpi)"
  by (simp add: apply_update_def Let_def split: option.splits)

lemma proper_names_rename:
  assumes "distinct (proper_names rps)" "find P rps = Some rpi"
    and "rp_Name rpi' = rp_Name rpi \<or> rp_Name rpi' = '''' \<or> rp_Name rpi' \<notin> set (map rp_Name rps)"
  shows "distinct (proper_names (update_first P (\<lambda>_. rpi') rps))"
proof -
  obtain ys zs where "rps = ys @ rpi # zs" "update_first P (\<lambda>_. rpi') rps = ys @ rpi' # zs"
    by (rule update_first_split [OF assms(2)])
  then show ?thesis using assms(1,3) by (auto simp: proper_names_def image_iff split: if_splits)
qed

lemma UpdateRetentionPolicy_ok:
  assumes "catalogue_ok d" "op_ok (OpUpdateRetentionPolicy db n rpu dflt) d"
  shows "catalogue_ok (result d (UpdateRetentionPolicy d db n rpu dflt))"
proof (cases "UpdateRetentionPolicy d db n rpu dflt")
  case (Inr d')
  then obtain di rpi where di: "Database d db = Some di" "db_RetentionPolicy di n = Some rpi"
    and rename: "\<And>m. rpu_Name rpu = Some m \<Longrightarrow> m = n \<or> db_RetentionPolicy di m = None"
    and dur: "case rpu_Duration rpu of Some dur \<Rightarrow> \<not> (dur < MinRetentionPolicyDuration \<and> dur \<noteq> 0) | None \<Rightarrow> True"
    and comp: "\<not> incompatible_update rpu rpi"
    by (auto simp: UpdateRetentionPolicy_def split: option.splits if_splits)
  define rpi' where "rpi' = apply_update rpu rpi"
  define f where "f = (\<lambda>di :: DatabaseInfo. di\<lparr>db_RetentionPolicies :=
        update_first (\<lambda>rp. rp_Name rp = rp_Name rpi) (\<lambda>_. rpi') (db_RetentionPolicies di),
      db_DefaultRetentionPolicy := (if db_DefaultRetentionPolicy di \<noteq> rp_Name rpi' \<and> dflt then rp_Name rpi'
        else db_DefaultRetentionPolicy di)\<rparr>)"
  have d': "d' = upd_db db f d"
    using Inr di unfolding UpdateRetentionPolicy_def f_def rpi'_def Let_def by (auto split: if_splits)
  note found = db_RetentionPolicy_SomeD [OF di(2)]
  have names: "rp_Name rpi' = rp_Name rpi \<or> rp_Name rpi' = '''' \<or> rp_Name rpi' \<notin> set (map rp_Name (db_RetentionPolicies di))"
    using rename found(3)
    by (auto simp: rpi'_def rp_Name_apply_update db_RetentionPolicy_def Let_def find_None_iff split: option.splits if_splits)
  have "database_ok (f di)" if "database_ok di"
  proof -
    have "policy_ok rpi" using that found(1) by (simp add: database_ok_def list_all_iff)
    then have "policy_ok rpi'"
      unfolding rpi'_def by (rule apply_update_policy_ok [OF _ comp dur]) (use assms(2) in simp)
    then show ?thesis
      using that names proper_names_rename [OF _ found(2), of rpi']
      by (simp add: database_ok_def f_def list_all_update_first)
  qed
  then show ?thesis
    using di(1) by (simp add: Inr d' result_def) (intro catalogue_ok_upd_db assms(1), auto simp: f_def)
qed (use assms in \<open>simp add: result_def\<close>)

subsection \<open>Queries, subscriptions, users\<close>

lemma CreateContinuousQuery_ok:
  assumes "catalogue_ok d"
  shows "catalogue_ok (result d (CreateContinuousQuery d db n q))"
proof -
  have "database_ok (di\<lparr>db_ContinuousQueries := db_ContinuousQueries di @ [\<lparr>cq_Name = n, cq_Query = q\<rparr>]\<rparr>)"
    if "database_ok di" "find (\<lambda>cq. cq_Name cq = n) (db_ContinuousQueries di) = None" for di
    using that by (auto simp: database_ok_def find_None_iff)
  then show ?thesis
    using assms by (auto simp: CreateContinuousQuery_def result_def intro!: catalogue_ok_upd_db split: option.splits)
qed

lemma DropContinuousQuery_ok:
  "catalogue_ok d \<Longrightarrow> catalogue_ok (result d (DropContinuousQuery d db n))"
  by (auto simp: DropContinuousQuery_def result_def database_ok_def distinct_remove_first intro!: catalogue_ok_upd_db
      split: option.splits)

lemma CreateSubscription_ok:
  assumes "catalogue_ok d"
  shows "catalogue_ok (result d (CreateSubscription ul d db rp n m ds))"
proof (cases "\<exists>d'. CreateSubscription ul d db rp n m ds = Inr d'")
  case True
  define f where "f = (\<lambda>rpi :: RetentionPolicyInfo. rpi\<lparr>rp_Subscriptions := rp_Subscriptions rpi @
    [\<lparr>sub_Name = n, sub_Mode = m, sub_Destinations = ds\<rparr>]\<rparr>)"
  obtain rpi where rpi: "find_policy d db rp = Inr rpi" "\<not> list_ex (\<lambda>s. sub_Name s = n) (rp_Subscriptions rpi)"
    "CreateSubscription ul d db rp n m ds = Inr (upd_rp db rp f d)"
    using True by (auto simp: CreateSubscription_def f_def split: list.splits sum.splits if_splits)
  have "policy_ok (f rpi)" if "policy_ok rpi"
    using that rpi(2) by (auto simp: policy_ok_def f_def list_ex_iff)
  then have "catalogue_ok (upd_rp db rp f d)"
    unfolding upd_rp_def using assms rpi(1)
    by (intro catalogue_ok_upd_db database_ok_upd_policy) (auto simp: f_def elim!: find_policy_InrD)
  then show ?thesis by (simp add: rpi(3) result_def)
qed (use assms in \<open>auto simp: result_def split: sum.splits\<close>)

lemma DropSubscription_ok:
  assumes "catalogue_ok d"
  shows "catalogue_ok (result d (DropSubscription d db rp n))"
proof -
  have "policy_ok (r\<lparr>rp_Subscriptions := remove_first P (rp_Subscriptions r)\<rparr>)" if "policy_ok r" for r P
    using that by (simp add: policy_ok_def distinct_remove_first)
  then show ?thesis
    using assms by (auto simp: DropSubscription_def result_def intro!: catalogue_ok_upd_rp split: sum.splits)
qed

lemma CreateUser_ok:
  "catalogue_ok d \<Longrightarrow> catalogue_ok (result d (CreateUser d n h a))"
  by (auto simp: CreateUser_def result_def catalogue_ok_def user_def find_None_iff_keys new_user_def user_ok_def hasAdminUser_def
      split: if_splits)

lemma list_ex_remove_first:
  assumes "find P xs = Some x" "\<not> g x"
  shows "list_ex g (remove_first P xs) = list_ex g xs"
  using assms by (induction xs) (auto split: if_splits)

lemma DropUser_ok:
  assumes "catalogue_ok d"
  shows "catalogue_ok (result d (DropUser d n))"
proof (cases "user d n")
  case (Some u)
  let ?us = "remove_first (\<lambda>u. u_Name u = n) (d_Users d)"
  have "list_ex u_Admin ?us = list_ex u_Admin (d_Users d)" if "\<not> u_Admin u"
    using Some that unfolding user_def by (rule list_ex_remove_first)
  then show ?thesis
    using assms Some
    by (auto simp: DropUser_def result_def catalogue_ok_def list_all_remove_first distinct_remove_first hasAdminUser_def Let_def)
qed (use assms in \<open>simp add: DropUser_def result_def\<close>)

lemma users_ok_upd_user:
  assumes "catalogue_ok d" "\<And>u. u_Name (f u) = u_Name u"
    and "\<And>u. user_ok (db_Name ` set (d_Databases d)) u \<Longrightarrow> user_ok (db_Name ` set (d_Databases d)) (f u)"
  shows "distinct (map u_Name (d_Users (upd_user n f d)))"
    "list_all (user_ok (db_Name ` set (d_Databases d))) (d_Users (upd_user n f d))"
  using assms by (simp_all add: upd_user_def catalogue_ok_def map_update_first list_all_update_first)

lemma list_ex_update_first:
  assumes "\<And>x. P x \<Longrightarrow> g (f x) = g x"
  shows "list_ex g (update_first P f xs) = list_ex g xs"
  using assms by (induction xs) auto

lemma catalogue_ok_upd_user:
  assumes "catalogue_ok d" "\<And>u. u_Name (f u) = u_Name u" "\<And>u. u_Admin (f u) = u_Admin u"
    and "\<And>u. user_ok (db_Name ` set (d_Databases d)) u \<Longrightarrow> user_ok (db_Name ` set (d_Databases d)) (f u)"
  shows "catalogue_ok (upd_user n f d)"
  using users_ok_upd_user [OF assms(1,2,4), of n] assms(1,3)
  by (simp add: catalogue_ok_def upd_user_def hasAdminUser_def list_ex_update_first)

lemma UpdateUser_ok: "catalogue_ok d \<Longrightarrow> catalogue_ok (result d (UpdateUser d n h))"
  by (auto simp: UpdateUser_def result_def user_ok_def intro!: catalogue_ok_upd_user)

lemma SetPrivilege_ok:
  assumes "catalogue_ok d"
  shows "catalogue_ok (result d (SetPrivilege d n db p))"
proof (cases "user d n = None \<or> Database d db = None")
  case False
  then have "db \<in> db_Name ` set (d_Databases d)" using Database_None_iff [of d db] by simp
  then have "catalogue_ok (upd_user n (\<lambda>u. u\<lparr>u_Privileges := AList.update db p (u_Privileges u)\<rparr>) d)"
    using assms by (intro catalogue_ok_upd_user) (auto simp: user_ok_def distinct_update dom_update)
  then show ?thesis using False by (auto simp: SetPrivilege_def result_def)
qed (use assms in \<open>auto simp: SetPrivilege_def result_def\<close>)

lemma SetAdminPrivilege_ok:
  assumes "catalogue_ok d"
  shows "catalogue_ok (result d (SetAdminPrivilege d n a))"
proof -
  have "distinct (map u_Name (d_Users (upd_user n (\<lambda>u. u\<lparr>u_Admin := a\<rparr>) d)))"
    "list_all (user_ok (db_Name ` set (d_Databases d))) (d_Users (upd_user n (\<lambda>u. u\<lparr>u_Admin := a\<rparr>) d))"
    by (rule users_ok_upd_user [OF assms]; simp add: user_ok_def)+
  then show ?thesis
    using assms by (simp add: SetAdminPrivilege_def result_def catalogue_ok_def hasAdminUser_def Let_def upd_user_def)
qed

subsection \<open>Shard groups\<close>

lemma sorted_wrt_insert_group:
  "sorted_wrt groups_disjoint (insert_group g gs) \<longleftrightarrow>
     (\<forall>h\<in>set gs. groups_disjoint g h) \<and> sorted_wrt groups_disjoint gs"
  by (induction gs) (auto simp: groups_disjoint_sym)

lemma sorted_wrt_sort_groups [simp]:
  "sorted_wrt groups_disjoint (sort_groups gs) = sorted_wrt groups_disjoint gs"
proof (induction gs)
  case (Cons g gs)
  then show ?case
    using sorted_wrt_insert_group [of g "sort_groups gs"] by (simp add: sort_groups_def) (simp add: sort_groups_def [symmetric])
qed (simp add: sort_groups_def)

lemma Truncate_pos: "0 < d \<Longrightarrow> d \<le> t \<Longrightarrow> 0 < Truncate t d"
  using Truncate_less [of d t] by linarith

lemma new_group_ok:
  assumes "policy_ok rpi" "time_Unix MinNanoTime \<le> t" "t \<le> time_Unix MaxNanoTime" "rp_ShardGroupByTimestamp rpi t = None"
  shows "policy_ok (rpi\<lparr>rp_ShardGroups := sort_groups (rp_ShardGroups rpi @ [new_group d rpi t shards])\<rparr>)"
proof -
  define g where "g = new_group d rpi t shards"
  have dur: "0 < rp_ShardGroupDuration rpi" using assms(1) hour_pos by (simp add: policy_ok_def)
  have wf: "\<forall>h\<in>set (rp_ShardGroups rpi). group_wf h" using assms(1) by (simp add: policy_ok_def list_all_iff)
  note range = new_group_range [OF dur assms(3) wf assms(4), of d shards, folded g_def]
  have "rp_ShardGroupDuration rpi \<le> t"
    using assms(1,2) by (simp add: policy_ok_def MaxDuration_def MinNanoTime_def time_Unix_def unix_epoch_def)
  then have "0 < sg_StartTime g"
    using Truncate_pos [OF dur, of t] range by (simp add: group_range_def Let_def)
  then have "group_wf g" using range by (simp add: group_wf_def eff_end_def g_def)
  moreover have "groups_disjoint h g" if "h \<in> set (rp_ShardGroups rpi)" for h
    unfolding groups_disjoint_sym [of h g] using that range by (simp add: groups_disjoint_def eff_end_def g_def)
  ultimately show ?thesis
    using assms(1) unfolding g_def [symmetric] by (auto simp: policy_ok_def list_all_iff sorted_wrt_append)
qed

lemma CreateShardGroup_ok:
  assumes "catalogue_ok d" "op_ok (OpCreateShardGroup db rp t shards) d"
  shows "catalogue_ok (result d (CreateShardGroup d db rp t shards))"
proof (cases "\<exists>rpi. find_policy d db rp = Inr rpi \<and> rp_ShardGroupByTimestamp rpi t = None")
  case True
  then obtain rpi where rpi: "find_policy d db rp = Inr rpi" "rp_ShardGroupByTimestamp rpi t = None" by blast
  define f where "f = (\<lambda>r :: RetentionPolicyInfo. r\<lparr>rp_ShardGroups := sort_groups (rp_ShardGroups r @ [new_group d rpi t shards])\<rparr>)"
  have "policy_ok (f rpi)" if "policy_ok rpi"
    unfolding f_def using that assms(2) rpi(2) by (intro new_group_ok) auto
  then have "catalogue_ok (upd_rp db rp f d)"
    unfolding upd_rp_def using assms(1) rpi(1)
    by (intro catalogue_ok_upd_db database_ok_upd_policy) (auto simp: f_def elim!: find_policy_InrD)
  then show ?thesis
    using rpi(2) by (simp add: CreateShardGroup_cases [OF rpi(1)] result_def f_def)
next
  case False
  then have "result d (CreateShardGroup d db rp t shards) = d"
    by (cases "find_policy d db rp") (auto simp: CreateShardGroup_cases result_def, simp add: CreateShardGroup_def)
  then show ?thesis using assms by simp
qed

text \<open>A change of one group that keeps its range and does not bring it back to life.\<close>

definition shrinks :: "(ShardGroupInfo \<Rightarrow> ShardGroupInfo) \<Rightarrow> bool" where
  "shrinks f \<longleftrightarrow> (\<forall>g. group_wf g \<longrightarrow> group_wf (f g) \<and> sg_StartTime (f g) = sg_StartTime g \<and>
     eff_end (f g) \<le> eff_end g \<and> (sg_Deleted g \<longrightarrow> sg_Deleted (f g)))"

lemma shrinks_disjoint:
  assumes "shrinks f" "group_wf g" "groups_disjoint g h"
  shows "groups_disjoint (f g) h"
  using assms unfolding shrinks_def groups_disjoint_def clear_of_def by fastforce

lemma shrinks_update_first:
  assumes "shrinks f" "list_all group_wf gs" "sorted_wrt groups_disjoint gs"
  shows "list_all group_wf (update_first P f gs) \<and> sorted_wrt groups_disjoint (update_first P f gs)"
  using assms
proof (induction gs)
  case (Cons g gs)
  have "set (update_first P f gs) \<subseteq> set gs \<union> f ` set gs" by (rule set_update_first)
  moreover have "groups_disjoint g (f h)" if "h \<in> set gs" for h
    using Cons.prems that shrinks_disjoint [OF Cons.prems(1), of h g] by (auto simp: groups_disjoint_sym list_all_iff)
  ultimately have "\<forall>h\<in>set (update_first P f gs). groups_disjoint g h" using Cons.prems by auto
  then show ?case using Cons shrinks_disjoint [OF Cons.prems(1)] by (auto simp: shrinks_def)
qed simp

lemma shrinks_map:
  assumes "shrinks f" "list_all group_wf gs" "sorted_wrt groups_disjoint gs"
  shows "list_all group_wf (map f gs) \<and> sorted_wrt groups_disjoint (map f gs)"
  using assms
proof (induction gs)
  case (Cons g gs)
  have "groups_disjoint (f g) (f h)" if "h \<in> set gs" for h
    using Cons.prems that shrinks_disjoint [OF Cons.prems(1), of h "f g"] shrinks_disjoint [OF Cons.prems(1), of g h]
    by (auto simp: groups_disjoint_sym list_all_iff)
  then show ?case using Cons by (auto simp: shrinks_def)
qed simp

lemma policy_ok_groups:
  assumes "policy_ok rp" "list_all group_wf gs" "sorted_wrt groups_disjoint gs"
  shows "policy_ok (rp\<lparr>rp_ShardGroups := gs\<rparr>)"
  using assms by (simp add: policy_ok_def)

lemma policy_okD: "policy_ok rp \<Longrightarrow> list_all group_wf (rp_ShardGroups rp) \<and> sorted_wrt groups_disjoint (rp_ShardGroups rp)"
  by (simp add: policy_ok_def)

lemma shrinks_delete: "now \<noteq> 0 \<Longrightarrow> shrinks (\<lambda>g. g\<lparr>sg_DeletedAt := now\<rparr>)"
  by (simp add: shrinks_def group_wf_def eff_end_def sg_Truncated_def sg_Deleted_def IsZero_def)

lemma shrinks_group_drop: "now \<noteq> 0 \<Longrightarrow> shrinks (group_drop now i)"
  by (simp add: shrinks_def group_wf_def eff_end_def sg_Truncated_def sg_Deleted_def IsZero_def group_drop_def)

lemma shrinks_truncate: "0 < t \<Longrightarrow> shrinks (truncate_group t)"
  by (simp add: shrinks_def truncate_group_wf)

lemma DeleteShardGroup_ok:
  assumes "catalogue_ok d" "now \<noteq> 0"
  shows "catalogue_ok (result d (DeleteShardGroup now d db rp i))"
proof -
  have "policy_ok (r\<lparr>rp_ShardGroups := update_first P (\<lambda>g. g\<lparr>sg_DeletedAt := now\<rparr>) (rp_ShardGroups r)\<rparr>)" if "policy_ok r" for r P
    using that policy_okD [OF that] shrinks_update_first [OF shrinks_delete [OF assms(2)]] by (simp add: policy_ok_groups)
  then show ?thesis
    using assms(1) by (auto simp: DeleteShardGroup_def result_def intro!: catalogue_ok_upd_rp split: sum.splits)
qed

lemma catalogue_ok_map_databases:
  assumes "catalogue_ok d" "d' = d\<lparr>d_Databases := dbs\<rparr>" "map db_Name dbs = map db_Name (d_Databases d)" "list_all database_ok dbs"
  shows "catalogue_ok d'"
proof -
  have "db_Name ` set dbs = db_Name ` set (d_Databases d)" using arg_cong [OF assms(3), of set] by simp
  then show ?thesis using assms by (simp add: catalogue_ok_def hasAdminUser_def)
qed

lemma DropShard_ok:
  assumes "catalogue_ok d" "now \<noteq> 0"
  shows "catalogue_ok (DropShard now d i)"
proof (rule catalogue_ok_map_databases [OF assms(1) DropShard_def])
  have "policy_ok (policy_drop now i rp)" if "policy_ok rp" for rp
    using that policy_okD [OF that] shrinks_update_first [OF shrinks_group_drop [OF assms(2)]]
    by (simp add: policy_ok_groups policy_drop_def)
  then have "database_ok (database_drop now i db)" if "database_ok db" for db
    unfolding database_drop_def using that by (intro database_ok_upd_policy) (auto simp: policy_drop_def)
  then show "list_all database_ok (update_first (database_has i) (database_drop now i) (d_Databases d))"
    using assms(1) by (simp add: catalogue_ok_def list_all_update_first)
qed (simp add: map_update_first database_drop_def)

lemma map_policies_ok:
  assumes "catalogue_ok d" "\<And>rp. rp_Name (f rp) = rp_Name rp" "\<And>rp. policy_ok rp \<Longrightarrow> policy_ok (f rp)"
  shows "catalogue_ok (map_policies f d)"
proof (rule catalogue_ok_map_databases [OF assms(1) map_policies_def])
  show "list_all database_ok (map (\<lambda>di. di\<lparr>db_RetentionPolicies := map f (db_RetentionPolicies di)\<rparr>) (d_Databases d))"
    using assms by (auto simp: catalogue_ok_def database_ok_def proper_names_def list_all_iff comp_def)
qed simp

lemma PruneShardGroups_ok: "catalogue_ok d \<Longrightarrow> catalogue_ok (snd (PruneShardGroups d t))"
  unfolding PruneShardGroups_def snd_conv
  by (rule map_policies_ok) (auto simp: policy_ok_def list_all_iff sorted_wrt_filter)

lemma TruncateShardGroups_ok:
  assumes "catalogue_ok d" "0 < t"
  shows "catalogue_ok (TruncateShardGroups d t)"
  unfolding TruncateShardGroups_def
  using shrinks_map [OF shrinks_truncate [OF assms(2)]] policy_okD by (intro map_policies_ok assms(1)) (auto intro: policy_ok_groups)

lemma result_Inr: "result d (Inr d') = d'"
  by (simp add: result_def)

lemma perform_ok:
  assumes "catalogue_ok d" "op_ok op d"
  shows "catalogue_ok (result d (perform ul op d))"
proof (cases op)
  case (OpCreateDatabase n)
  then show ?thesis
    using assms(1) CreateDatabase_ok [OF assms(1), of n] by (cases "CreateDatabase d n") (auto simp: result_def)
qed (use assms in \<open>simp_all add: DropDatabase_ok CreateRetentionPolicy_ok DropRetentionPolicy_ok UpdateRetentionPolicy_ok
    CreateContinuousQuery_ok DropContinuousQuery_ok CreateSubscription_ok DropSubscription_ok CreateUser_ok DropUser_ok
    UpdateUser_ok SetPrivilege_ok SetAdminPrivilege_ok CreateShardGroup_ok DeleteShardGroup_ok DropShard_ok PruneShardGroups_ok
    TruncateShardGroups_ok result_Inr del: op_ok.simps(1-3)\<close>)

subsection \<open>Imports\<close>

lemma renumber_groups_ranges:
  "map (\<lambda>g. (sg_StartTime g, eff_end g, sg_EndTime g, sg_Deleted g)) (fst (renumber_groups gs rn)) =
   map (\<lambda>g. (sg_StartTime g, eff_end g, sg_EndTime g, sg_Deleted g)) gs"
proof (induction gs arbitrary: rn)
  case (Cons g gs)
  obtain ss rn' where s: "renumber_shards (sg_Shards g) (rn\<lparr>rn_group := rn_group rn + 1\<rparr>) = (ss, rn')" by fastforce
  obtain gs' rn'' where "renumber_groups gs rn' = (gs', rn'')" by fastforce
  then show ?case
    using Cons.IH [of rn'] s by (simp add: Let_def eff_end_def sg_Truncated_def sg_Deleted_def)
qed simp

text \<open>The invariant of a policy only looks at the ranges of its groups.\<close>

lemma groups_ok_ranges:
  assumes "map (\<lambda>g. (sg_StartTime g, eff_end g, sg_EndTime g, sg_Deleted g)) gs =
      map (\<lambda>g. (sg_StartTime g, eff_end g, sg_EndTime g, sg_Deleted g)) hs"
    and "list_all group_wf hs" "sorted_wrt groups_disjoint hs"
  shows "list_all group_wf gs \<and> sorted_wrt groups_disjoint gs"
proof -
  have len: "length gs = length hs" using assms(1) by (rule map_eq_imp_length_eq)
  have nth: "sg_StartTime (gs ! i) = sg_StartTime (hs ! i) \<and> eff_end (gs ! i) = eff_end (hs ! i) \<and>
      sg_EndTime (gs ! i) = sg_EndTime (hs ! i) \<and> sg_Deleted (gs ! i) = sg_Deleted (hs ! i)" if "i < length hs" for i
    using arg_cong [OF assms(1), of "\<lambda>xs. xs ! i"] that len by simp
  have "list_all group_wf gs"
    using assms(2) len nth by (simp add: list_all_length group_wf_def)
  moreover have "sorted_wrt groups_disjoint gs"
    using assms(3) len nth by (simp add: sorted_wrt_iff_nth_less groups_disjoint_def clear_of_def)
  ultimately show ?thesis ..
qed

lemma renumber_policies_ok:
  "list_all policy_ok rps \<Longrightarrow> list_all policy_ok (fst (renumber_policies rps rn)) \<and>
     map rp_Name (fst (renumber_policies rps rn)) = map rp_Name rps"
proof (induction rps arbitrary: rn)
  case (Cons rp rps)
  obtain gs rn' where g: "renumber_groups (rp_ShardGroups rp) rn = (gs, rn')" by (cases "renumber_groups (rp_ShardGroups rp) rn")
  have "policy_ok (rp\<lparr>rp_ShardGroups := gs\<rparr>)"
    using Cons.prems groups_ok_ranges [OF renumber_groups_ranges [of "rp_ShardGroups rp" rn]]
    by (intro policy_ok_groups) (auto simp: g policy_ok_def)
  moreover obtain rps' rn'' where "renumber_policies rps rn' = (rps', rn'')" by fastforce
  ultimately show ?case using Cons.IH [of rn'] Cons.prems by (simp add: g)
qed simp

text \<open>The outcome of one import: an error with at most a new empty database, or one new database.\<close>

definition imported :: "Data \<Rightarrow> string \<Rightarrow> string \<Rightarrow> RetentionPolicyInfo list \<Rightarrow> renumbering \<Rightarrow> Data" where
  "imported d n defaultRP rps rn =
     (upd_db n (\<lambda>di. di\<lparr>db_DefaultRetentionPolicy := defaultRP, db_RetentionPolicies := rps\<rparr>)
        (d\<lparr>d_Databases := d_Databases d @ [new_database n]\<rparr>))
     \<lparr>d_MaxShardGroupID := rn_group rn, d_MaxShardID := rn_shard rn\<rparr>"

lemma importOneDB_cases:
  assumes "importOneDB d other b r brp rrp m = (res, d')"
  obtains (same) "d' = d"
  | (empty) n where "CreateDatabase d n = Inr d'"
  | (import) n di rps rps' rn dflt where "Database d n = None" "n \<noteq> ''''" "length n \<le> MaxNameLen" "Database other b = Some di"
      "rps = db_RetentionPolicies di \<or> (\<exists>rp\<in>set (db_RetentionPolicies di). \<exists>x. rps = [rp\<lparr>rp_Name := x\<rparr>])"
      "renumber_policies rps \<lparr>rn_group = d_MaxShardGroupID d, rn_shard = d_MaxShardID d, rn_map = m\<rparr> = (rps', rn)"
      "d' = imported d n dflt rps' rn"
proof (cases "Database other b")
  case None
  then show ?thesis using assms by (intro same) (simp add: importOneDB_def)
next
  case (Some di)
  define n where "n = (if r = '''' then b else r)"
  show ?thesis
  proof (cases "Database d n = None \<and> n \<noteq> '''' \<and> length n \<le> MaxNameLen")
    case False
    then show ?thesis
      using assms Some by (intro same) (auto simp: importOneDB_def n_def [symmetric] Let_def CreateDatabase_def split: if_splits)
  next
    case True
    then have c: "CreateDatabase d n = Inr (d\<lparr>d_Databases := d_Databases d @ [new_database n]\<rparr>)"
      by (simp add: CreateDatabase_def)
    show ?thesis
    proof (cases "import_policies di brp rrp")
      case None
      then have "d' = d\<lparr>d_Databases := d_Databases d @ [new_database n]\<rparr>"
        using assms \<open>Database other b = Some di\<close> True c unfolding importOneDB_def by (simp add: n_def [symmetric] Let_def)
      then show ?thesis using empty c by simp
    next
      case (Some ch)
      obtain dflt rps where ch: "import_policies di brp rrp = Some (dflt, rps)" using Some by (cases ch) auto
      obtain rps' rn where rn: "renumber_policies rps \<lparr>rn_group = d_MaxShardGroupID d, rn_shard = d_MaxShardID d, rn_map = m\<rparr> = (rps', rn)"
        by fastforce
      have "d' = imported d n dflt rps' rn"
        using assms \<open>Database other b = Some di\<close> True c rn ch
        unfolding importOneDB_def by (simp add: n_def [symmetric] Let_def imported_def)
      moreover have "rps = db_RetentionPolicies di \<or> (\<exists>rp\<in>set (db_RetentionPolicies di). \<exists>x. rps = [rp\<lparr>rp_Name := x\<rparr>])"
        using ch db_RetentionPolicy_SomeD(1) by (auto simp: import_policies_def Let_def split: if_splits option.splits)
      ultimately show ?thesis
        using True \<open>Database other b = Some di\<close> rn by (intro import [of n di rps rps' rn dflt]) simp_all
    qed
  qed
qed

lemma imported_ok:
  assumes "catalogue_ok d" "Database d n = None" "n \<noteq> ''''" "length n \<le> MaxNameLen"
    and "list_all policy_ok rps" "distinct (proper_names rps)"
  shows "catalogue_ok (imported d n dflt rps rn)"
proof -
  have "catalogue_ok (d\<lparr>d_Databases := d_Databases d @ [new_database n]\<rparr>)" (is "catalogue_ok ?d")
    using assms(1-4) by (intro CreateDatabase_ok [OF assms(1), of n]) (simp add: CreateDatabase_def)
  moreover have "database_ok (di\<lparr>db_DefaultRetentionPolicy := dflt, db_RetentionPolicies := rps\<rparr>)" if "database_ok di" for di
    using that assms(5,6) by (simp add: database_ok_def)
  ultimately show ?thesis unfolding imported_def by (simp add: catalogue_ok_upd_db)
qed

lemma proper_names_cong: "map rp_Name rps = map rp_Name rps' \<Longrightarrow> proper_names rps = proper_names rps'"
  by (simp add: proper_names_def)

lemma importOneDB_ok:
  assumes "catalogue_ok d" "catalogue_ok other" "importOneDB d other b r brp rrp m = (res, d')"
  shows "catalogue_ok d'"
  using assms(3)
proof (cases rule: importOneDB_cases)
  case (import n di rps rps' rn dflt)
  have di: "database_ok di"
    using Database_SomeD [OF import(4)] assms(2) by (simp add: catalogue_ok_def list_all_iff)
  have "policy_ok (rp\<lparr>rp_Name := x\<rparr>)" if "policy_ok rp" for rp x
    using that by (simp add: policy_ok_def)
  then have "list_all policy_ok rps" "distinct (proper_names rps)"
    using import(5) di by (auto simp: database_ok_def list_all_iff proper_names_def)
  with renumber_policies_ok [of rps "\<lparr>rn_group = d_MaxShardGroupID d, rn_shard = d_MaxShardID d, rn_map = m\<rparr>"]
  have "list_all policy_ok rps'" "distinct (proper_names rps')"
    using import(6) proper_names_cong [of rps' rps] by simp_all
  then show ?thesis using imported_ok assms(1) import(1-3,7) by simp
qed (use assms CreateDatabase_ok in auto)

lemma import_all_ok:
  assumes "catalogue_ok d" "catalogue_ok other"
  shows "catalogue_ok (snd (import_all d other dbs m new))"
  using assms(1)
proof (induction dbs arbitrary: d m new)
  case (Cons db dbs)
  obtain res d' where i: "importOneDB d other (db_Name db) '''' '''' '''' m = (res, d')" by fastforce
  then have "catalogue_ok d'" using Cons.prems assms(2) importOneDB_ok by blast
  then show ?case using Cons i by (auto split: sum.splits)
qed simp

lemma ImportData_ok:
  assumes "catalogue_ok d" "catalogue_ok other"
  shows "catalogue_ok (snd (ImportData d other b r brp rrp))"
proof (cases "b = ''''")
  case False
  obtain res d' where i: "importOneDB d other b r brp rrp [] = (res, d')" by fastforce
  then have "catalogue_ok d'" using assms importOneDB_ok by blast
  then show ?thesis using False i by (auto simp: ImportData_def split: sum.splits)
qed (simp add: ImportData_def import_all_ok assms)

end
