(* ===== verification/MetaIds.thy ===== *)
theory MetaIds
  imports MetaCatalogue
begin

text \<open>
  The IDs of shard groups and shards: every operation of
  \<open>src/backend/v1/services/meta/data.go\<close> keeps them unique and at most the counters of the catalogue.
  With the invariant of \<open>MetaCatalogue\<close>, this holds in every catalogue that operations and imports reach.
\<close>

subsection \<open>Operations that add no group\<close>

definition fewer :: "ShardGroupInfo list \<Rightarrow> ShardGroupInfo list \<Rightarrow> bool" where
  "fewer gs hs \<longleftrightarrow> mset (map sg_ID gs) \<subseteq># mset (map sg_ID hs) \<and> mset (shard_ids gs) \<subseteq># mset (shard_ids hs)"

lemma fewer_refl [simp]: "fewer gs gs"
  by (simp add: fewer_def)

lemma shard_ids_append [simp]: "shard_ids (gs @ hs) = shard_ids gs @ shard_ids hs"
  by (simp add: shard_ids_def)

lemma shard_ids_Cons [simp]: "shard_ids (g # gs) = map si_ID (sg_Shards g) @ shard_ids gs" "shard_ids [] = []"
  by (simp_all add: shard_ids_def)

lemma fewer_append: "fewer a b \<Longrightarrow> fewer c d \<Longrightarrow> fewer (a @ c) (b @ d)"
  by (simp add: fewer_def subset_mset.add_mono)

lemma fewer_appendI2: "fewer a b \<Longrightarrow> fewer a (c @ b)"
  unfolding fewer_def by (simp add: subset_mset.add_increasing)

lemma fewer_concat_map: "(\<And>x. x \<in> set xs \<Longrightarrow> fewer (h x) (k x)) \<Longrightarrow> fewer (concat (map h xs)) (concat (map k xs))"
  by (induction xs) (auto intro: fewer_append)

lemma fewer_remove_first: "fewer (concat (map h (remove_first P xs))) (concat (map h xs))"
  by (induction xs) (auto intro: fewer_append fewer_appendI2)

lemma fewer_update_first:
  assumes "\<And>x. find P xs = Some x \<Longrightarrow> fewer (h (f x)) (h x)"
  shows "fewer (concat (map h (update_first P f xs))) (concat (map h xs))"
proof (cases "find P xs")
  case None
  then show ?thesis by (simp add: update_first_absent)
next
  case (Some x)
  obtain ys zs where "xs = ys @ x # zs" "update_first P f xs = ys @ f x # zs" by (rule update_first_split [OF Some])
  then show ?thesis using assms [OF Some] by (auto intro!: fewer_append)
qed

lemma distinct_mset_subset:
  assumes "distinct xs" "mset ys \<subseteq># mset xs"
  shows "distinct ys"
  using assms
proof (induction ys arbitrary: xs)
  case (Cons y ys)
  then have y: "y \<in> set xs" by (auto dest: mset_subset_eqD)
  have sub: "mset ys \<subseteq># mset (remove1 y xs)" using Cons.prems(2) y by (simp add: insert_subset_eq_iff)
  then have "set ys \<subseteq> set (remove1 y xs)" by (metis set_mset_mono set_mset_mset)
  then have "y \<notin> set ys" using Cons.prems(1) by auto
  moreover have "distinct ys" using Cons.IH [OF _ sub] Cons.prems(1) by simp
  ultimately show ?case by simp
qed simp

lemma ids_below_subset:
  assumes "ids_below xs m" "mset ys \<subseteq># mset xs"
  shows "ids_below ys m"
proof -
  have "set ys \<subseteq> set xs" using set_mset_mono [OF assms(2)] by simp
  then show ?thesis using assms distinct_mset_subset unfolding ids_below_def by blast
qed

lemma ids_ok_fewer:
  assumes "ids_ok d" "fewer (all_groups d') (all_groups d)"
    and "d_MaxShardGroupID d' = d_MaxShardGroupID d" "d_MaxShardID d' = d_MaxShardID d"
  shows "ids_ok d'"
  using assms ids_below_subset unfolding ids_ok_def fewer_def by metis

lemma fewer_upd_db:
  assumes "\<And>di. Database d n = Some di \<Longrightarrow> fewer (db_groups (f di)) (db_groups di)"
  shows "fewer (all_groups (upd_db n f d)) (all_groups d)"
  unfolding all_groups_def upd_db_def using assms by (simp add: fewer_update_first Database_def)

lemma fewer_upd_policies:
  assumes "\<And>rp. find P (db_RetentionPolicies di) = Some rp \<Longrightarrow> fewer (rp_ShardGroups (f rp)) (rp_ShardGroups rp)"
  shows "fewer (db_groups (di\<lparr>db_RetentionPolicies := update_first P f (db_RetentionPolicies di)\<rparr>)) (db_groups di)"
  unfolding db_groups_def using assms by (simp add: fewer_update_first)

lemma fewer_upd_rp:
  assumes "\<And>rp. fewer (rp_ShardGroups (f rp)) (rp_ShardGroups rp)"
  shows "fewer (all_groups (upd_rp n p f d)) (all_groups d)"
  unfolding upd_rp_def by (intro fewer_upd_db fewer_upd_policies assms)

lemma fewer_map_policies:
  assumes "\<And>rp. fewer (rp_ShardGroups (f rp)) (rp_ShardGroups rp)"
  shows "fewer (all_groups (map_policies f d)) (all_groups d)"
  using assms by (auto simp: all_groups_def map_policies_def db_groups_def comp_def intro!: fewer_concat_map)

lemma fewer_same_ids:
  assumes "map sg_ID gs = map sg_ID hs" "mset (shard_ids gs) \<subseteq># mset (shard_ids hs)"
  shows "fewer gs hs"
  using assms(2) unfolding fewer_def assms(1) by simp

lemma fewer_filter: "fewer (filter P gs) gs"
  by (induction gs) (auto simp: fewer_def subset_mset.add_increasing intro: subset_mset.order_trans)

text \<open>Each operation in turn.\<close>

lemma CreateDatabase_fewer: "fewer (all_groups (result d (CreateDatabase d n))) (all_groups d)"
  by (auto simp: CreateDatabase_def result_def all_groups_def db_groups_def new_database_def)

lemma DropDatabase_fewer: "fewer (all_groups (result d (DropDatabase d n))) (all_groups d)"
  by (auto simp: DropDatabase_def result_def all_groups_def fewer_remove_first)

lemma CreateRetentionPolicy_fewer:
  assumes "op_ok (OpCreateRetentionPolicy db rpi dflt) d"
  shows "fewer (all_groups (result d (CreateRetentionPolicy d db rpi dflt))) (all_groups d)"
proof (cases rpi)
  case (Some rp)
  have "fewer (db_groups (di\<lparr>db_RetentionPolicies := db_RetentionPolicies di @ [rp\<lparr>rp_ShardGroupDuration := x\<rparr>],
      db_DefaultRetentionPolicy := y\<rparr>)) (db_groups di)" for di x y
    using assms Some by (simp add: db_groups_def)
  then show ?thesis
    using Some by (auto simp: CreateRetentionPolicy_def result_def Let_def intro!: fewer_upd_db split: option.splits)
qed (simp add: CreateRetentionPolicy_def result_def)

lemma DropRetentionPolicy_fewer: "fewer (all_groups (result d (DropRetentionPolicy d db n))) (all_groups d)"
  by (auto simp: DropRetentionPolicy_def result_def db_groups_def fewer_remove_first intro!: fewer_upd_db split: option.splits)

lemma rp_ShardGroups_apply_update [simp]: "rp_ShardGroups (apply_update rpu rpi) = rp_ShardGroups rpi"
  by (simp add: apply_update_def Let_def split: option.splits)

lemma UpdateRetentionPolicy_fewer: "fewer (all_groups (result d (UpdateRetentionPolicy d db n rpu dflt))) (all_groups d)"
proof (cases "UpdateRetentionPolicy d db n rpu dflt")
  case (Inr d')
  then obtain di rpi where di: "Database d db = Some di" "db_RetentionPolicy di n = Some rpi"
    by (auto simp: UpdateRetentionPolicy_def split: option.splits)
  have d': "d' = upd_db db (\<lambda>di. di\<lparr>db_RetentionPolicies :=
        update_first (\<lambda>rp. rp_Name rp = rp_Name rpi) (\<lambda>_. apply_update rpu rpi) (db_RetentionPolicies di),
      db_DefaultRetentionPolicy :=
        (if db_DefaultRetentionPolicy di \<noteq> rp_Name (apply_update rpu rpi) \<and> dflt then rp_Name (apply_update rpu rpi)
         else db_DefaultRetentionPolicy di)\<rparr>) d"
    using Inr di by (auto simp: UpdateRetentionPolicy_def Let_def split: if_splits)
  show ?thesis
    unfolding Inr result_Inr d' using di(1) db_RetentionPolicy_SomeD(2) [OF di(2)]
    by (intro fewer_upd_db) (auto simp: db_groups_def intro!: fewer_update_first)
qed (simp add: result_def)

lemma queries_fewer:
  "fewer (all_groups (result d (CreateContinuousQuery d db n q))) (all_groups d)"
  "fewer (all_groups (result d (DropContinuousQuery d db n))) (all_groups d)"
  by (auto simp: CreateContinuousQuery_def DropContinuousQuery_def result_def db_groups_def intro!: fewer_upd_db
      split: option.splits)

lemma subscriptions_fewer:
  "fewer (all_groups (result d (CreateSubscription ul d db rp n m ds))) (all_groups d)"
  "fewer (all_groups (result d (DropSubscription d db rp n))) (all_groups d)"
  by (auto simp: CreateSubscription_def DropSubscription_def result_def intro!: fewer_upd_rp split: sum.splits list.splits)

lemma users_groups:
  "all_groups (result d (CreateUser d n h a)) = all_groups d" "all_groups (result d (DropUser d n)) = all_groups d"
  "all_groups (result d (UpdateUser d n h)) = all_groups d" "all_groups (result d (SetPrivilege d n db p)) = all_groups d"
  "all_groups (result d (SetAdminPrivilege d n a)) = all_groups d"
  by (auto simp: CreateUser_def DropUser_def UpdateUser_def SetPrivilege_def SetAdminPrivilege_def upd_user_def result_def
      all_groups_def Let_def split: option.splits)

lemma DeleteShardGroup_fewer: "fewer (all_groups (result d (DeleteShardGroup now d db rp i))) (all_groups d)"
proof -
  have "fewer (update_first P (\<lambda>g. g\<lparr>sg_DeletedAt := now\<rparr>) gs) gs" for P and gs :: "ShardGroupInfo list"
    by (induction gs) (auto simp: fewer_def)
  then show ?thesis by (auto simp: DeleteShardGroup_def result_def intro!: fewer_upd_rp split: sum.splits)
qed

lemma DropShard_fewer: "fewer (all_groups (DropShard now d i)) (all_groups d)"
proof -
  have "mset (remove_first P xs) \<subseteq># mset xs" for P and xs :: "ShardInfo list"
    by (induction xs) (auto intro: subset_mset.order_trans)
  then have "mset (map si_ID (sg_Shards (group_drop now i g))) \<subseteq># mset (map si_ID (sg_Shards g))" for g
    by (simp add: group_drop_def image_mset_subseteq_mono)
  then have "fewer [group_drop now i g] [g]" for g
    by (simp add: fewer_def) (simp add: group_drop_def)
  then have "fewer (update_first P (group_drop now i) gs) gs" for P gs
    using fewer_update_first [of P gs "\<lambda>g. [g]" "group_drop now i"] by simp
  then have "fewer (db_groups (database_drop now i di)) (db_groups di)" for di
    unfolding database_drop_def policy_drop_def by (intro fewer_upd_policies) simp
  then show ?thesis unfolding all_groups_def DropShard_def by (simp add: fewer_update_first)
qed

lemma PruneShardGroups_fewer: "fewer (all_groups (snd (PruneShardGroups d t))) (all_groups d)"
  unfolding PruneShardGroups_def snd_conv by (rule fewer_map_policies) (simp add: fewer_filter)

lemma TruncateShardGroups_fewer: "fewer (all_groups (TruncateShardGroups d t)) (all_groups d)"
proof -
  have "map sg_ID (map (truncate_group t) gs) = map sg_ID gs" "shard_ids (map (truncate_group t) gs) = shard_ids gs" for gs
    by (simp_all add: shard_ids_def comp_def)
  then show ?thesis unfolding TruncateShardGroups_def by (intro fewer_map_policies fewer_same_ids) simp_all
qed

lemma upd_counters [simp]:
  "d_MaxShardGroupID (upd_db n f d) = d_MaxShardGroupID d" "d_MaxShardID (upd_db n f d) = d_MaxShardID d"
  "d_MaxShardGroupID (upd_rp n p g d) = d_MaxShardGroupID d" "d_MaxShardID (upd_rp n p g d) = d_MaxShardID d"
  "d_MaxShardGroupID (upd_user u k d) = d_MaxShardGroupID d" "d_MaxShardID (upd_user u k d) = d_MaxShardID d"
  "d_MaxShardGroupID (map_policies g d) = d_MaxShardGroupID d" "d_MaxShardID (map_policies g d) = d_MaxShardID d"
  by (simp_all add: upd_db_def upd_rp_def upd_user_def map_policies_def)

lemmas perform_fewer = CreateDatabase_fewer DropDatabase_fewer DropRetentionPolicy_fewer UpdateRetentionPolicy_fewer
  queries_fewer subscriptions_fewer users_groups DeleteShardGroup_fewer DropShard_fewer PruneShardGroups_fewer
  TruncateShardGroups_fewer CreateRetentionPolicy_fewer

lemmas perform_defs = CreateDatabase_def DropDatabase_def CreateRetentionPolicy_def DropRetentionPolicy_def
  UpdateRetentionPolicy_def CreateContinuousQuery_def DropContinuousQuery_def CreateSubscription_def DropSubscription_def
  CreateUser_def DropUser_def UpdateUser_def SetPrivilege_def SetAdminPrivilege_def DeleteShardGroup_def DropShard_def
  PruneShardGroups_def TruncateShardGroups_def

lemma perform_counters:
  assumes "\<forall>db rp t ss. op \<noteq> OpCreateShardGroup db rp t ss"
  shows "d_MaxShardGroupID (result d (perform ul op d)) = d_MaxShardGroupID d"
    "d_MaxShardID (result d (perform ul op d)) = d_MaxShardID d"
  using assms
  by (cases op; auto simp: result_def perform_defs Let_def split: option.splits sum.splits list.splits if_splits)+

subsection \<open>New IDs\<close>

lemma unat_succ:
  fixes x :: u64
  assumes "unat x + 1 < 2 ^ 64"
  shows "unat (x + 1) = unat x + 1"
  using assms by (simp add: unat_word_ariths)

lemma unat_not_max:
  fixes x :: u64
  assumes "x \<noteq> - 1"
  shows "unat x + 1 < 2 ^ 64"
proof -
  have "unat x < 2 ^ 64" using unsigned_less [of x, where 'a = nat] by simp
  moreover have "unat x \<noteq> unat (- 1 :: u64)" using assms by (simp only: word_unat_eq_iff [symmetric] not_False_eq_True)
  moreover have "unat (- 1 :: u64) = 2 ^ 64 - 1" by (simp add: unsigned_minus_1_eq_mask mask_eq_exp_minus_1)
  ultimately show ?thesis by linarith
qed

text \<open>IDs taken between two values of a counter.\<close>

definition fresh_ids :: "u64 \<Rightarrow> u64 \<Rightarrow> u64 list \<Rightarrow> bool" where
  "fresh_ids lo hi xs \<longleftrightarrow> distinct xs \<and> lo \<le> hi \<and> (\<forall>x\<in>set xs. lo < x \<and> x \<le> hi)"

lemma fresh_ids_Nil [simp]: "fresh_ids lo lo []"
  by (simp add: fresh_ids_def)

lemma fresh_ids_one: "unat lo + 1 < 2 ^ 64 \<Longrightarrow> fresh_ids lo (lo + 1) [lo + 1]"
  using unat_succ [of lo] by (simp add: fresh_ids_def word_less_nat_alt word_le_nat_alt)

lemma fresh_ids_append: "fresh_ids a b xs \<Longrightarrow> fresh_ids b c ys \<Longrightarrow> fresh_ids a c (xs @ ys)"
  unfolding fresh_ids_def by force

lemma ids_below_fresh: "ids_below xs lo \<Longrightarrow> fresh_ids lo hi ys \<Longrightarrow> ids_below (xs @ ys) hi"
  unfolding ids_below_def fresh_ids_def by force

lemma ids_below_mset: "mset xs = mset ys \<Longrightarrow> ids_below xs m = ids_below ys m"
  unfolding ids_below_def by (metis mset_eq_imp_distinct_iff mset_eq_setD)

subsection \<open>Creating a group\<close>

lemma mset_shard_ids: "mset gs = mset hs \<Longrightarrow> mset (shard_ids gs) = mset (shard_ids hs)"
  unfolding shard_ids_def by (simp add: mset_concat sum_mset_sum_list [symmetric] mset_map flip: image_mset.compositionality)

lemma find_policy_groups:
  assumes "find_policy d db rp = Inr rpi"
  obtains A B where "all_groups d = A @ rp_ShardGroups rpi @ B"
    "\<And>f. all_groups (upd_rp db rp f d) = A @ rp_ShardGroups (f rpi) @ B"
proof -
  obtain di where di: "Database d db = Some di" "find (\<lambda>r. rp_Name r = rp) (db_RetentionPolicies di) = Some rpi"
    by (rule find_policy_InrD [OF assms])
  have "\<exists>A B. concat (map h xs) = A @ h x @ B \<and> (\<forall>f. concat (map h (update_first P f xs)) = A @ h (f x) @ B)"
    if "find P xs = Some x" for P and h :: "'c \<Rightarrow> 'd list" and xs x
    using that
  proof (induction xs)
    case (Cons y xs)
    show ?case
    proof (cases "P y")
      case False
      then obtain A B where "concat (map h xs) = A @ h x @ B" "\<forall>f. concat (map h (update_first P f xs)) = A @ h (f x) @ B"
        using Cons by auto
      then show ?thesis using False by (intro exI [of _ "h y @ A"] exI [of _ B]) simp
    next
      case True
      then show ?thesis using Cons.prems by (intro exI [of _ "[]"] exI [of _ "concat (map h xs)"]) simp
    qed
  qed simp
  note split = this
  obtain A B where a: "all_groups d = A @ db_groups di @ B" "\<And>f. all_groups (upd_db db f d) = A @ db_groups (f di) @ B"
    using split [OF di(1) [unfolded Database_def], of db_groups] unfolding all_groups_def upd_db_def by auto
  obtain A' B' where b: "db_groups di = A' @ rp_ShardGroups rpi @ B'"
    "\<And>f. db_groups (di\<lparr>db_RetentionPolicies := update_first (\<lambda>r. rp_Name r = rp) f (db_RetentionPolicies di)\<rparr>) =
       A' @ rp_ShardGroups (f rpi) @ B'"
    using split [OF di(2), of rp_ShardGroups] unfolding db_groups_def by auto
  show ?thesis by (rule that [of "A @ A'" "B' @ B"]) (simp_all add: a b upd_rp_def)
qed

lemma fold_max_fresh:
  assumes "distinct (map si_ID ss)" "list_all (\<lambda>s. m < si_ID s) ss"
  shows "fresh_ids m (fold (\<lambda>si mx. if si_ID si > mx then si_ID si else mx) ss m) (map si_ID ss)"
proof -
  have "m' \<le> fold (\<lambda>si mx. if si_ID si > mx then si_ID si else mx) ss m' \<and>
      (\<forall>s\<in>set ss. si_ID s \<le> fold (\<lambda>si mx. if si_ID si > mx then si_ID si else mx) ss m')" for m'
  proof (induction ss arbitrary: m')
    case (Cons s ss)
    let ?m = "if si_ID s > m' then si_ID s else m'"
    have "m' \<le> ?m" "si_ID s \<le> ?m" by auto
    with Cons.IH [of ?m] show ?case by (auto simp del: if_split intro: order_trans)
  qed simp
  then show ?thesis using assms by (auto simp: fresh_ids_def list_all_iff)
qed

lemma next_shard_id_fresh:
  assumes "op_ok (OpCreateShardGroup db rp t ss) d"
  shows "fresh_ids (d_MaxShardID d) (next_shard_id d ss) (map si_ID (sg_Shards (new_group d rpi t ss)))"
proof (cases "ss = []")
  case True
  then show ?thesis
    using fresh_ids_one [OF unat_not_max] assms by (simp add: next_shard_id_def new_group_def split: prod.splits)
next
  case False
  then show ?thesis
    using fold_max_fresh [of ss "d_MaxShardID d"] assms by (simp add: next_shard_id_def new_group_def split: prod.splits)
qed

lemma CreateShardGroup_ids_ok:
  assumes "ids_ok d" "op_ok (OpCreateShardGroup db rp t ss) d"
  shows "ids_ok (result d (CreateShardGroup d db rp t ss))"
proof (cases "\<exists>rpi. find_policy d db rp = Inr rpi \<and> rp_ShardGroupByTimestamp rpi t = None")
  case True
  then obtain rpi where rpi: "find_policy d db rp = Inr rpi" "rp_ShardGroupByTimestamp rpi t = None" by blast
  define g where "g = new_group d rpi t ss"
  define f where "f = (\<lambda>r :: RetentionPolicyInfo. r\<lparr>rp_ShardGroups := sort_groups (rp_ShardGroups r @ [g])\<rparr>)"
  define d' where "d' = (upd_rp db rp f d)\<lparr>d_MaxShardGroupID := d_MaxShardGroupID d + 1, d_MaxShardID := next_shard_id d ss\<rparr>"
  obtain A B where "all_groups d = A @ rp_ShardGroups rpi @ B" "all_groups (upd_rp db rp f d) = A @ rp_ShardGroups (f rpi) @ B"
    using find_policy_groups [OF rpi(1)] by metis
  then have groups: "mset (all_groups d') = mset (all_groups d @ [g])"
    by (simp add: d'_def f_def all_groups_def)
  have "ids_below (map sg_ID (all_groups d) @ [sg_ID g]) (d_MaxShardGroupID d + 1)"
    using assms fresh_ids_one [OF unat_not_max, of "d_MaxShardGroupID d"]
    by (intro ids_below_fresh [of _ "d_MaxShardGroupID d"]) (simp_all add: ids_ok_def g_def)
  moreover have "ids_below (shard_ids (all_groups d) @ map si_ID (sg_Shards g)) (next_shard_id d ss)"
    using assms next_shard_id_fresh [OF assms(2)]
    by (intro ids_below_fresh [of _ "d_MaxShardID d"]) (simp_all add: ids_ok_def g_def)
  moreover have ids: "mset (map sg_ID (all_groups d')) = mset (map sg_ID (all_groups d) @ [sg_ID g])"
    "mset (shard_ids (all_groups d')) = mset (shard_ids (all_groups d) @ map si_ID (sg_Shards g))"
    using arg_cong [OF groups, of "image_mset sg_ID"] mset_shard_ids [OF groups] by simp_all
  ultimately have "ids_ok d'"
    unfolding ids_ok_def ids_below_mset [OF ids(1)] ids_below_mset [OF ids(2)] by (simp add: d'_def)
  then show ?thesis
    using rpi(2) by (simp add: CreateShardGroup_cases [OF rpi(1)] result_def d'_def f_def g_def)
next
  case False
  then have "result d (CreateShardGroup d db rp t ss) = d"
    by (cases "find_policy d db rp") (auto simp: CreateShardGroup_cases result_def, simp add: CreateShardGroup_def)
  then show ?thesis using assms by simp
qed

subsection \<open>Renumbering\<close>

lemma renumber_shards_fresh:
  assumes "renumber_shards ss rn = (ss', rn')" "unat (rn_shard rn) + length ss < 2 ^ 64"
  shows "fresh_ids (rn_shard rn) (rn_shard rn') (map si_ID ss') \<and> length ss' = length ss \<and>
    unat (rn_shard rn') = unat (rn_shard rn) + length ss \<and> rn_group rn' = rn_group rn"
  using assms
proof (induction ss arbitrary: rn ss')
  case (Cons s ss)
  define r where "r = rn\<lparr>rn_shard := rn_shard rn + 1, rn_map := AList.update (si_ID s) (rn_shard rn + 1) (rn_map rn)\<rparr>"
  obtain ts where ts: "renumber_shards ss r = (ts, rn')" "ss' = s\<lparr>si_ID := rn_shard rn + 1, si_Owners := []\<rparr> # ts"
    using Cons.prems(1) by (auto simp: Let_def r_def split: prod.splits)
  have succ: "unat (rn_shard rn + 1) = unat (rn_shard rn) + 1" using Cons.prems(2) by (intro unat_succ) simp
  have "fresh_ids (rn_shard rn) (rn_shard r) [rn_shard rn + 1]"
    using Cons.prems(2) fresh_ids_one [of "rn_shard rn"] by (simp add: r_def)
  moreover have "unat (rn_shard r) + length ss < 2 ^ 64" using Cons.prems(2) succ by (simp add: r_def)
  ultimately show ?case
    using Cons.IH [OF ts(1)] fresh_ids_append [of "rn_shard rn" "rn_shard r" "[rn_shard rn + 1]" "rn_shard rn'" "map si_ID ts"] ts(2) succ
    by (simp add: r_def)
qed simp

lemma renumber_groups_fresh:
  assumes "renumber_groups gs rn = (gs', rn')" "unat (rn_group rn) + length gs < 2 ^ 64"
    and "unat (rn_shard rn) + length (shard_ids gs) < 2 ^ 64"
  shows "fresh_ids (rn_group rn) (rn_group rn') (map sg_ID gs') \<and> fresh_ids (rn_shard rn) (rn_shard rn') (shard_ids gs') \<and>
    unat (rn_group rn') = unat (rn_group rn) + length gs \<and> unat (rn_shard rn') = unat (rn_shard rn) + length (shard_ids gs)"
  using assms
proof (induction gs arbitrary: rn gs')
  case (Cons g gs)
  define r where "r = rn\<lparr>rn_group := rn_group rn + 1\<rparr>"
  obtain ss r' hs where s: "renumber_shards (sg_Shards g) r = (ss, r')" and h: "renumber_groups gs r' = (hs, rn')"
    and gs': "gs' = g\<lparr>sg_ID := rn_group rn + 1, sg_Shards := ss\<rparr> # hs"
    using Cons.prems(1) by (auto simp: Let_def r_def split: prod.splits)
  have succ: "unat (rn_group rn + 1) = unat (rn_group rn) + 1" using Cons.prems(2) by (intro unat_succ) simp
  have sh: "fresh_ids (rn_shard rn) (rn_shard r') (map si_ID ss)" "unat (rn_shard r') = unat (rn_shard rn) + length (sg_Shards g)"
    "rn_group r' = rn_group rn + 1"
    using renumber_shards_fresh [OF s] Cons.prems(3) by (simp_all add: r_def)
  have "fresh_ids (rn_group rn) (rn_group r') [rn_group rn + 1]"
    using Cons.prems(2) fresh_ids_one [of "rn_group rn"] by (simp add: sh(3))
  moreover note ih = Cons.IH [OF h]
  ultimately show ?case
    using Cons.prems sh succ gs' fresh_ids_append [of "rn_group rn" "rn_group r'" "[rn_group rn + 1]" "rn_group rn'" "map sg_ID hs"]
      fresh_ids_append [of "rn_shard rn" "rn_shard r'" "map si_ID ss" "rn_shard rn'" "shard_ids hs"]
    by simp
qed simp

lemma renumber_policies_fresh:
  assumes "renumber_policies rps rn = (rps', rn')"
    and "unat (rn_group rn) + length (concat (map rp_ShardGroups rps)) < 2 ^ 64"
    and "unat (rn_shard rn) + length (shard_ids (concat (map rp_ShardGroups rps))) < 2 ^ 64"
  shows "fresh_ids (rn_group rn) (rn_group rn') (map sg_ID (concat (map rp_ShardGroups rps'))) \<and>
    fresh_ids (rn_shard rn) (rn_shard rn') (shard_ids (concat (map rp_ShardGroups rps'))) \<and>
    unat (rn_group rn') = unat (rn_group rn) + length (concat (map rp_ShardGroups rps)) \<and>
    unat (rn_shard rn') = unat (rn_shard rn) + length (shard_ids (concat (map rp_ShardGroups rps)))"
  using assms
proof (induction rps arbitrary: rn rps')
  case (Cons rp rps)
  obtain gs r qs where g: "renumber_groups (rp_ShardGroups rp) rn = (gs, r)" and q: "renumber_policies rps r = (qs, rn')"
    and rps': "rps' = rp\<lparr>rp_ShardGroups := gs\<rparr> # qs"
    using Cons.prems(1) by (auto simp: Let_def split: prod.splits)
  have gr: "fresh_ids (rn_group rn) (rn_group r) (map sg_ID gs)" "fresh_ids (rn_shard rn) (rn_shard r) (shard_ids gs)"
    "unat (rn_group r) = unat (rn_group rn) + length (rp_ShardGroups rp)"
    "unat (rn_shard r) = unat (rn_shard rn) + length (shard_ids (rp_ShardGroups rp))"
    using renumber_groups_fresh [OF g] Cons.prems(2,3) by simp_all
  note ih = Cons.IH [OF q]
  show ?case
    using ih Cons.prems(2,3) gr rps' fresh_ids_append [OF gr(1), of "rn_group rn'" "map sg_ID (concat (map rp_ShardGroups qs))"]
      fresh_ids_append [OF gr(2), of "rn_shard rn'" "shard_ids (concat (map rp_ShardGroups qs))"]
    by simp
qed simp

lemma update_first_append_absent: "find P xs = None \<Longrightarrow> update_first P f (xs @ ys) = xs @ update_first P f ys"
  by (induction xs) (auto split: if_splits)

lemma all_groups_imported:
  assumes "Database d n = None"
  shows "all_groups (imported d n dflt rps rn) = all_groups d @ concat (map rp_ShardGroups rps)"
  using assms
  by (simp add: Database_def imported_def all_groups_def upd_db_def db_groups_def update_first_append_absent new_database_def)

text \<open>One import uses at most as many IDs as the database has groups and shards.\<close>

definition room :: "Data \<Rightarrow> ShardGroupInfo list \<Rightarrow> bool" where
  "room d gs \<longleftrightarrow> unat (d_MaxShardGroupID d) + length gs < 2 ^ 64 \<and> unat (d_MaxShardID d) + length (shard_ids gs) < 2 ^ 64"

lemma shard_ids_concat: "shard_ids (concat gss) = concat (map shard_ids gss)"
  by (induction gss) simp_all

lemma length_concat_member: "x \<in> set xs \<Longrightarrow> length (h x) \<le> length (concat (map h xs))"
  by (induction xs) auto

lemma importOneDB_ids_ok:
  assumes "ids_ok d" "importOneDB d other b r brp rrp m = (res, d')"
    and "Database other b = Some di" "room d (db_groups di @ rest)"
  shows "ids_ok d' \<and> room d' rest"
  using assms(2)
proof (cases rule: importOneDB_cases)
  case same
  then show ?thesis using assms(1,4) by (simp add: room_def)
next
  case (empty n)
  then have "all_groups d' = all_groups d" "d_MaxShardGroupID d' = d_MaxShardGroupID d" "d_MaxShardID d' = d_MaxShardID d"
    by (auto simp: CreateDatabase_def all_groups_def db_groups_def new_database_def split: if_splits)
  then show ?thesis using assms(1,4) by (simp add: ids_ok_def room_def)
next
  case (import n di' rps rps' rn dflt)
  let ?gs = "concat (map rp_ShardGroups rps)" and ?gs' = "concat (map rp_ShardGroups rps')"
  have "length ?gs \<le> length (db_groups di) \<and> length (shard_ids ?gs) \<le> length (shard_ids (db_groups di))"
    using import(4,5) assms(3) length_concat_member [of _ "db_RetentionPolicies di" rp_ShardGroups]
      length_concat_member [of _ "db_RetentionPolicies di" "\<lambda>rp. shard_ids (rp_ShardGroups rp)"]
    by (auto simp: db_groups_def shard_ids_concat comp_def)
  then have fits: "unat (d_MaxShardGroupID d) + length ?gs + length rest < 2 ^ 64"
    "unat (d_MaxShardID d) + length (shard_ids ?gs) + length (shard_ids rest) < 2 ^ 64"
    using assms(4) by (simp_all add: room_def)
  have fresh: "fresh_ids (d_MaxShardGroupID d) (rn_group rn) (map sg_ID ?gs')" "fresh_ids (d_MaxShardID d) (rn_shard rn) (shard_ids ?gs')"
    "unat (rn_group rn) = unat (d_MaxShardGroupID d) + length ?gs" "unat (rn_shard rn) = unat (d_MaxShardID d) + length (shard_ids ?gs)"
    using renumber_policies_fresh [OF import(6)] fits by simp_all
  have counters: "d_MaxShardGroupID d' = rn_group rn" "d_MaxShardID d' = rn_shard rn"
    by (simp_all add: import(7) imported_def)
  have "ids_ok d'"
    using assms(1) ids_below_fresh [OF _ fresh(1)] ids_below_fresh [OF _ fresh(2)] counters
    unfolding ids_ok_def import(7) all_groups_imported [OF import(1)] by simp
  then show ?thesis using fits fresh(3,4) counters by (simp add: room_def)
qed

lemma import_all_ids_ok:
  assumes "ids_ok d" "catalogue_ok other" "set dbs \<subseteq> set (d_Databases other)" "room d (concat (map db_groups dbs))"
  shows "ids_ok (snd (import_all d other dbs m new))"
  using assms(1,3,4)
proof (induction dbs arbitrary: d m new)
  case (Cons db dbs)
  show ?case
  proof (cases "db_Name db = ''_internal''")
    case True
    have "room d (concat (map db_groups dbs))" using Cons.prems(3) by (simp add: room_def)
    then show ?thesis using True Cons.IH [OF Cons.prems(1)] Cons.prems(2) by simp
  next
    case False
    obtain res d' where i: "importOneDB d other (db_Name db) '''' '''' '''' m = (res, d')" by fastforce
    have "inj_on db_Name (set (d_Databases other))" using assms(2) by (simp add: catalogue_ok_def distinct_map)
    then have "find (\<lambda>x. db_Name x = db_Name db) (d_Databases other) = Some db"
      using Cons.prems(2) by (intro find_unique) (auto dest: inj_onD)
    then have "ids_ok d' \<and> room d' (concat (map db_groups dbs))"
      using importOneDB_ids_ok [OF Cons.prems(1) i] Cons.prems(3) by (simp add: Database_def)
    then show ?thesis
      using False i Cons.prems(2) Cons.IH [of d'] by (auto split: sum.splits)
  qed
qed simp

lemma ImportData_ids_ok:
  assumes "ids_ok d" "catalogue_ok other" "import_fits d other"
  shows "ids_ok (snd (ImportData d other b r brp rrp))"
proof (cases "b = ''''")
  case True
  have "room d (concat (map db_groups (d_Databases other)))"
    using assms(3) by (simp add: room_def import_fits_def all_groups_def)
  then show ?thesis using True assms(1,2) import_all_ids_ok [of d other "d_Databases other"] by (simp add: ImportData_def)
next
  case False
  obtain res d' where i: "importOneDB d other b r brp rrp [] = (res, d')" by fastforce
  have "ids_ok d'"
  proof (cases "Database other b")
    case None
    then show ?thesis using i assms(1) by (auto simp: importOneDB_def)
  next
    case (Some di)
    have "room d (db_groups di @ [])"
      using assms(3) Database_SomeD [OF Some] length_concat_member [of di "d_Databases other" db_groups]
        length_concat_member [of di "d_Databases other" "\<lambda>db. shard_ids (db_groups db)"]
      by (simp add: room_def import_fits_def all_groups_def shard_ids_concat comp_def)
    then show ?thesis using importOneDB_ids_ok [OF assms(1) i Some] by blast
  qed
  then show ?thesis using False i by (auto simp: ImportData_def split: sum.splits)
qed

subsection \<open>Every reachable catalogue\<close>

lemma perform_ids_ok:
  assumes "ids_ok d" "op_ok op d"
  shows "ids_ok (result d (perform ul op d))"
proof (cases "\<exists>db rp t ss. op = OpCreateShardGroup db rp t ss")
  case True
  then show ?thesis using assms CreateShardGroup_ids_ok by auto
next
  case False
  then have "fewer (all_groups (result d (perform ul op d))) (all_groups d)"
    using assms(2) by (cases op) (simp_all add: perform_fewer result_Inr del: op_ok.simps(1))
  then show ?thesis using ids_ok_fewer [OF assms(1)] perform_counters [of op d ul] False by simp
qed

lemma reachable_ok: "reachable ul d \<Longrightarrow> catalogue_ok d \<and> ids_ok d"
proof (induction rule: reachable.induct)
  case (reach_empty ul cluster)
  then show ?case
    by (simp add: catalogue_ok_def ids_ok_def ids_below_def all_groups_def shard_ids_def empty_data_def hasAdminUser_def)
next
  case (reach_op ul d op)
  then show ?case by (simp add: perform_ok perform_ids_ok)
next
  case (reach_import ul d other b r brp rrp)
  then show ?case by (simp add: ImportData_ok ImportData_ids_ok)
qed

text \<open>An example of a run.\<close>

fun run :: "url_lib \<Rightarrow> meta_op list \<Rightarrow> Data \<Rightarrow> Data" where
  "run ul [] d = d"
| "run ul (op # ops) d = run ul ops (result d (perform ul op d))"

fun run_ok :: "url_lib \<Rightarrow> meta_op list \<Rightarrow> Data \<Rightarrow> bool" where
  "run_ok ul [] d = True"
| "run_ok ul (op # ops) d = (op_ok op d \<and> run_ok ul ops (result d (perform ul op d)))"

lemma reachable_run: "reachable ul d \<Longrightarrow> run_ok ul ops d \<Longrightarrow> reachable ul (run ul ops d)"
  by (induction ops arbitrary: d) (auto intro: reach_op)

definition sample_urls :: url_lib where
  "sample_urls = \<lparr>url_Parse = (\<lambda>_. None), net_SplitHostPort = (\<lambda>_. None)\<rparr>"

definition sample_ops :: "meta_op list" where
  "sample_ops =
     [OpCreateDatabase ''db'', OpCreateRetentionPolicy ''db'' (Some (NewRetentionPolicyInfo ''rp'')) True,
      OpCreateUser ''root'' ''h'' True, OpCreateShardGroup ''db'' ''rp'' unix_epoch []]"

definition sample_run :: Data where
  "sample_run = run sample_urls sample_ops (empty_data 7)"

lemma sample_run_reachable: "reachable sample_urls sample_run"
proof -
  have "run_ok sample_urls sample_ops (empty_data 7)" by code_simp
  then show ?thesis unfolding sample_run_def by (intro reachable_run reach_empty)
qed



lemma policy_ok_find_policy:
  assumes "catalogue_ok d" "find_policy d db rp = Inr rpi"
  shows "policy_ok rpi"
proof -
  obtain di where di: "Database d db = Some di" "find (\<lambda>r. rp_Name r = rp) (db_RetentionPolicies di) = Some rpi"
    by (rule find_policy_InrD [OF assms(2)])
  have "database_ok di" using assms(1) Database_SomeD [OF di(1)] by (simp add: catalogue_ok_def list_all_iff)
  then show ?thesis using find_SomeD [OF di(2)] by (simp add: database_ok_def list_all_iff)
qed

lemma covers_unique:
  assumes "policy_ok rpi" "g \<in> set (rp_ShardGroups rpi)" "covers g t" "h \<in> set (rp_ShardGroups rpi)" "covers h t"
  shows "h = g"
proof (rule ccontr)
  assume ne: "h \<noteq> g"
  obtain i j where ij: "i < length (rp_ShardGroups rpi)" "rp_ShardGroups rpi ! i = g" "j < length (rp_ShardGroups rpi)"
    "rp_ShardGroups rpi ! j = h" using assms(2,4) by (auto simp: in_set_conv_nth)
  have "\<forall>i j. i < j \<longrightarrow> j < length (rp_ShardGroups rpi) \<longrightarrow> groups_disjoint (rp_ShardGroups rpi ! i) (rp_ShardGroups rpi ! j)"
    using assms(1) by (simp add: policy_ok_def sorted_wrt_iff_nth_less)
  then have "groups_disjoint g h \<or> groups_disjoint h g"
    using ij ne by (cases i j rule: linorder_cases) blast+
  moreover have "group_wf g" "group_wf h" using assms by (simp_all add: policy_ok_def list_all_iff)
  ultimately show False using groups_disjoint_covers assms(3,5) by blast
qed

text \<open>
  At most one live shard group of a policy takes writes for a timestamp, so a lookup does not depend
  on the order of the groups.
\<close>

theorem ShardGroupByTimestamp_unique:
  assumes "reachable ul d" and "find_policy d db rp = Inr rpi"
    and "g \<in> set (rp_ShardGroups rpi)" and "covers g t"
  shows "ShardGroupByTimestamp d db rp t = Inr (Some g)"
proof -
  have "policy_ok rpi" using reachable_ok [OF assms(1)] policy_ok_find_policy [OF _ assms(2)] by blast
  note unique = covers_unique [OF this assms(3,4)]
  have "rp_ShardGroupByTimestamp rpi t = Some g"
    unfolding rp_ShardGroupByTimestamp_alt using assms(3,4) by (rule find_unique) (rule unique)
  then show ?thesis using assms(2) by (simp add: ShardGroupByTimestamp_def)
qed

theorem ShardGroupByTimestamp_unique_witness:
  "\<exists>g. ShardGroupByTimestamp sample_run ''db'' ''rp'' unix_epoch = Inr (Some g)"
proof -
  define rpi where "rpi = hd (db_RetentionPolicies (hd (d_Databases sample_run)))"
  have "find_policy sample_run ''db'' ''rp'' = Inr rpi" unfolding rpi_def by code_simp
  moreover have "hd (rp_ShardGroups rpi) \<in> set (rp_ShardGroups rpi)" unfolding rpi_def by code_simp
  moreover have "covers (hd (rp_ShardGroups rpi)) unix_epoch" unfolding rpi_def by code_simp
  ultimately show ?thesis using ShardGroupByTimestamp_unique [OF sample_run_reachable] by blast
qed

end
