(* ===== verification/MetaStores.thy ===== *)
theory MetaStores
  imports MetaIds
begin

text \<open>
  The databases and the users of a catalogue as stores of named records, what follows for
  privileges, and two states of \<open>src/backend/v1/services/meta/data.go\<close> that operations reach although
  the code reads as if they could not occur.
\<close>

subsection \<open>Databases and users are stores\<close>

definition db_names_unique :: "Data \<Rightarrow> bool" where
  "db_names_unique d = distinct (map db_Name (d_Databases d))"

definition user_names_unique :: "Data \<Rightarrow> bool" where
  "user_names_unique d = distinct (map u_Name (d_Users d))"

lemma find_append_new:
  assumes "find (\<lambda>x. key x = n) xs = None" "key y = n"
  shows "(\<lambda>m. find (\<lambda>x. key x = m) (xs @ [y])) = (\<lambda>m. find (\<lambda>x. key x = m) xs)(n \<mapsto> y)"
  using assms by (auto simp: fun_eq_iff find_append split: option.splits)

lemma find_remove_fun:
  assumes "distinct (map key xs)"
  shows "(\<lambda>m. find (\<lambda>x. key x = m) (remove_first (\<lambda>x. key x = n) xs)) = (\<lambda>m. find (\<lambda>x. key x = m) xs)(n := None)"
  using find_remove_first [OF assms] by (auto simp: fun_eq_iff)

interpretation db_store: named_store Database "\<lambda>n (a :: unit) d. CreateDatabase d n" "\<lambda>n d. DropDatabase d n"
  "\<lambda>n a. new_database n" db_names_unique
proof
  fix d n and a :: unit and d'
  assume d: "db_names_unique d" "Database d n = None" "CreateDatabase d n = Inr d'"
  then have d': "d' = d\<lparr>d_Databases := d_Databases d @ [new_database n]\<rparr>"
    by (auto simp: CreateDatabase_def split: if_splits)
  show "Database d' = (Database d)(n \<mapsto> new_database n)"
    using d(2) find_append_new [of db_Name n "d_Databases d" "new_database n"]
    unfolding Database_def [abs_def] d' by (simp add: new_database_def)
  show "db_names_unique d'"
    using d(1,2) by (simp add: d' db_names_unique_def Database_None_iff new_database_def)
next
  fix d n d'
  assume d: "db_names_unique d" "DropDatabase d n = Inr d'"
  then have dbs: "d_Databases d' = remove_first (\<lambda>db. db_Name db = n) (d_Databases d)"
    by (auto simp: DropDatabase_def Database_def remove_first_absent split: if_splits)
  show "Database d' = (Database d)(n := None)"
    using find_remove_fun [of db_Name "d_Databases d" n] d(1) unfolding Database_def [abs_def] dbs db_names_unique_def by simp
  show "db_names_unique d'" using d(1) by (simp add: db_names_unique_def dbs distinct_remove_first)
qed

interpretation user_store: named_store user "\<lambda>n (hash, admin) d. CreateUser d n hash admin" "\<lambda>n d. DropUser d n"
  "\<lambda>n (hash, admin). new_user n hash admin" user_names_unique
proof
  fix d n and a :: "string \<times> bool" and d'
  obtain h adm where a: "a = (h, adm)" by (cases a)
  assume d: "user_names_unique d" "user d n = None" "(case a of (hash, admin) \<Rightarrow> \<lambda>d. CreateUser d n hash admin) d = Inr d'"
  then have us: "d_Users d' = d_Users d @ [new_user n h adm]"
    by (auto simp: CreateUser_def a split: if_splits)
  show "user d' = (user d)(n \<mapsto> (case a of (hash, admin) \<Rightarrow> new_user n hash admin))"
    using d(2) find_append_new [of u_Name n "d_Users d" "new_user n h adm"]
    unfolding user_def [abs_def] us a by (simp add: new_user_def)
  show "user_names_unique d'"
    using d(1,2) by (simp add: us user_names_unique_def user_def find_None_iff_keys new_user_def)
next
  fix d n d'
  assume d: "user_names_unique d" "DropUser d n = Inr d'"
  then have us: "d_Users d' = remove_first (\<lambda>u. u_Name u = n) (d_Users d)"
    by (auto simp: DropUser_def Let_def split: option.splits if_splits)
  show "user d' = (user d)(n := None)"
    using find_remove_fun [of u_Name "d_Users d" n] d(1) unfolding user_def [abs_def] us user_names_unique_def by simp
  show "user_names_unique d'" using d(1) by (simp add: user_names_unique_def us distinct_remove_first)
qed

lemma reachable_unique: "reachable ul d \<Longrightarrow> db_names_unique d \<and> user_names_unique d"
  using reachable_ok [of ul d] by (simp add: catalogue_ok_def db_names_unique_def user_names_unique_def)

subsection \<open>Examples\<close>

definition sample_dropped :: Data where
  "sample_dropped = run sample_urls
     [OpCreateDatabase ''db'', OpCreateUser ''u'' ''h'' False, OpSetPrivilege ''u'' ''db'' 3, OpDropDatabase ''db''] (empty_data 7)"

definition sample_granted :: Data where
  "sample_granted = result sample_dropped (CreateDatabase sample_dropped ''db'')"

definition sample_dangling :: Data where
  "sample_dangling = run sample_urls
     [OpCreateDatabase ''db'', OpCreateRetentionPolicy ''db'' (Some (NewRetentionPolicyInfo ''a'')) True,
      OpDropRetentionPolicy ''db'' ''a''] (empty_data 7)"

definition rename_to_empty :: RetentionPolicyUpdate where
  "rename_to_empty = rpu_SetName '''' \<lparr>rpu_Name = None, rpu_Duration = None, rpu_ReplicaN = None, rpu_ShardGroupDuration = None\<rparr>"

definition sample_doubled :: Data where
  "sample_doubled = run sample_urls
     [OpCreateDatabase ''db'', OpCreateRetentionPolicy ''db'' (Some (NewRetentionPolicyInfo ''a'')) False,
      OpCreateRetentionPolicy ''db'' (Some (NewRetentionPolicyInfo ''b'')) False,
      OpUpdateRetentionPolicy ''db'' ''a'' rename_to_empty False,
      OpUpdateRetentionPolicy ''db'' ''b'' rename_to_empty False] (empty_data 7)"

lemma sample_dangling_reachable: "reachable sample_urls sample_dangling"
  unfolding sample_dangling_def by (intro reachable_run reach_empty) code_simp

lemma sample_doubled_reachable: "reachable sample_urls sample_doubled"
  unfolding sample_doubled_def by (intro reachable_run reach_empty) code_simp

lemma sample_dropped_reachable: "reachable sample_urls sample_dropped"
  unfolding sample_dropped_def by (intro reachable_run reach_empty) code_simp

subsection \<open>Properties\<close>

text \<open>
  C24. Recreating a database gives an empty one and does not touch the others: after a drop and a
  create, the name looks up a database without policies or queries and every other name what it
  looked up before. The same holds for users.
\<close>

theorem recreate_is_fresh:
  assumes "reachable ul d"
  shows "(DropDatabase d n = Inr d1 \<longrightarrow> CreateDatabase d1 n = Inr d2 \<longrightarrow> Database d2 = (Database d)(n \<mapsto> new_database n)) \<and>
    (DropUser d u = Inr e1 \<longrightarrow> CreateUser e1 u hash admin = Inr e2 \<longrightarrow> user e2 = (user d)(u \<mapsto> new_user u hash admin))"
  using reachable_unique [OF assms] db_store.remove_then_create [of d n d1 d2]
    user_store.remove_then_create [of d u e1 "(hash, admin)" e2]
  by auto

theorem recreate_is_fresh_witness:
  "\<exists>d1 d2 e1 e2. DropDatabase sample_run ''db'' = Inr d1 \<and> CreateDatabase d1 ''db'' = Inr d2 \<and>
     Database d2 = (Database sample_run)(''db'' \<mapsto> new_database ''db'') \<and>
     DropUser sample_run ''root'' = Inr e1 \<and> CreateUser e1 ''root'' ''x'' False = Inr e2 \<and>
     user e2 = (user sample_run)(''root'' \<mapsto> new_user ''root'' ''x'' False)"
proof -
  define d1 where "d1 = projr (DropDatabase sample_run ''db'')"
  define d2 where "d2 = projr (CreateDatabase d1 ''db'')"
  define e1 where "e1 = projr (DropUser sample_run ''root'')"
  define e2 where "e2 = projr (CreateUser e1 ''root'' ''x'' False)"
  have "DropDatabase sample_run ''db'' = Inr d1" "CreateDatabase d1 ''db'' = Inr d2"
    "DropUser sample_run ''root'' = Inr e1" "CreateUser e1 ''root'' ''x'' False = Inr e2"
    unfolding d2_def e2_def unfolding d1_def e1_def by code_simp+
  then show ?thesis
    using recreate_is_fresh [OF sample_run_reachable, of "''db''" d1 d2 "''root''" e1 "''x''" False e2] by blast
qed

text \<open>
  A database that is created, for the first time or again, starts without grants: no user that
  is not an administrator is authorized on it for any privilege, whatever grants an earlier database
  of that name had.
\<close>

theorem new_database_no_grants:
  assumes "reachable ul d" and "Database d n = None" and "CreateDatabase d n = Inr d'"
    and "ui \<in> set (d_Users d')" and "\<not> u_Admin ui" and "p \<noteq> NoPrivileges pc"
  shows "\<not> u_AuthorizeDatabase pc ui p n"
proof -
  have "d_Users d' = d_Users d" using assms(2,3) by (auto simp: CreateDatabase_def split: if_splits)
  then have "user_ok (db_Name ` set (d_Databases d)) ui"
    using reachable_ok [OF assms(1)] assms(4) by (simp add: catalogue_ok_def list_all_iff)
  then have "map_of (u_Privileges ui) n = None"
    unfolding map_of_eq_None_iff using assms(2) by (auto simp: user_ok_def Database_None_iff)
  then show ?thesis using assms(5,6) by (simp add: u_AuthorizeDatabase_def)
qed

theorem new_database_no_grants_witness:
  "\<not> u_AuthorizeDatabase \<lparr>NoPrivileges = 0, AllPrivileges = 3\<rparr> (hd (d_Users sample_granted)) 3 ''db''"
proof -
  have "Database sample_dropped ''db'' = None" "CreateDatabase sample_dropped ''db'' = Inr sample_granted"
    "hd (d_Users sample_granted) \<in> set (d_Users sample_granted)" "\<not> u_Admin (hd (d_Users sample_granted))"
    by code_simp+
  from new_database_no_grants [OF sample_dropped_reachable this, of 3 "\<lparr>NoPrivileges = 0, AllPrivileges = 3\<rparr>"]
  show ?thesis by simp
qed


end
