(* ===== verification/MetaMarshal.thy ===== *)
theory MetaMarshal
  imports MetaData
begin

text \<open>
  Copying and serialising the metadata, from \<open>src/backend/v1/services/meta/data.go\<close>: the \<open>clone\<close> methods,
  the \<open>marshal\<close> and \<open>unmarshal\<close> methods of each record against the protobuf messages of
  \<open>internal/meta.proto\<close>, and the conversion of times. A scalar field of a message is an option, which
  the generated getters read with the zero value as default. The wire format of
  \<open>google.golang.org/protobuf\<close> is a parameter.
\<close>

subsection \<open>Messages\<close>

record pb_ShardOwner =
  pso_NodeID :: "u64 option"

record pb_ShardInfo =
  psi_ID :: "u64 option"
  psi_OwnerIDs :: "u64 list"
  psi_Owners :: "pb_ShardOwner list"

record pb_ShardGroupInfo =
  psg_ID :: "u64 option"
  psg_StartTime :: "i64 option"
  psg_EndTime :: "i64 option"
  psg_DeletedAt :: "i64 option"
  psg_Shards :: "pb_ShardInfo list"
  psg_TruncatedAt :: "i64 option"

record pb_SubscriptionInfo =
  psub_Name :: "string option"
  psub_Mode :: "string option"
  psub_Destinations :: "string list"

record pb_RetentionPolicySpec =
  prs_Name :: "string option"
  prs_Duration :: "i64 option"
  prs_ShardGroupDuration :: "i64 option"
  prs_ReplicaN :: "32 word option"

record pb_RetentionPolicyInfo =
  prp_Name :: "string option"
  prp_Duration :: "i64 option"
  prp_ShardGroupDuration :: "i64 option"
  prp_ReplicaN :: "32 word option"
  prp_ShardGroups :: "pb_ShardGroupInfo list"
  prp_Subscriptions :: "pb_SubscriptionInfo list"

record pb_ContinuousQueryInfo =
  pcq_Name :: "string option"
  pcq_Query :: "string option"

record pb_DatabaseInfo =
  pdb_Name :: "string option"
  pdb_DefaultRetentionPolicy :: "string option"
  pdb_RetentionPolicies :: "pb_RetentionPolicyInfo list"
  pdb_ContinuousQueries :: "pb_ContinuousQueryInfo list"

record pb_UserPrivilege =
  pup_Database :: "string option"
  pup_Privilege :: "32 word option"

record pb_UserInfo =
  pu_Name :: "string option"
  pu_Hash :: "string option"
  pu_Admin :: "bool option"
  pu_Privileges :: "pb_UserPrivilege list"

record pb_Data =
  pd_Term :: "u64 option"
  pd_Index :: "u64 option"
  pd_ClusterID :: "u64 option"
  pd_Databases :: "pb_DatabaseInfo list"
  pd_Users :: "pb_UserInfo list"
  pd_MaxNodeID :: "u64 option"
  pd_MaxShardGroupID :: "u64 option"
  pd_MaxShardID :: "u64 option"

text \<open>The getters.\<close>

definition get_num :: "'n::zero option \<Rightarrow> 'n" where
  "get_num f = (case f of None \<Rightarrow> 0 | Some v \<Rightarrow> v)"

definition get_str :: "string option \<Rightarrow> string" where
  "get_str f = (case f of None \<Rightarrow> '''' | Some v \<Rightarrow> v)"

definition get_bool :: "bool option \<Rightarrow> bool" where
  "get_bool f = (case f of None \<Rightarrow> False | Some v \<Rightarrow> v)"

lemma get_Some [simp]: "get_num (Some n) = n" "get_str (Some s) = s" "get_bool (Some b) = b"
  by (simp_all add: get_num_def get_str_def get_bool_def)

subsection \<open>Times\<close>

definition MarshalTime :: "time \<Rightarrow> i64" where
  "MarshalTime t = (if IsZero t then 0 else of_int (t - unix_epoch))"

definition UnmarshalTime :: "i64 \<Rightarrow> time" where
  "UnmarshalTime v = (if v = 0 then 0 else time_Unix (sint v))"

subsection \<open>Marshalling\<close>

definition so_marshal :: "ShardOwner \<Rightarrow> pb_ShardOwner" where
  "so_marshal so = \<lparr>pso_NodeID = Some (so_NodeID so)\<rparr>"

definition so_unmarshal :: "pb_ShardOwner \<Rightarrow> ShardOwner" where
  "so_unmarshal pb = \<lparr>so_NodeID = get_num (pso_NodeID pb)\<rparr>"

definition si_marshal :: "ShardInfo \<Rightarrow> pb_ShardInfo" where
  "si_marshal si = \<lparr>psi_ID = Some (si_ID si), psi_OwnerIDs = [], psi_Owners = map so_marshal (si_Owners si)\<rparr>"

definition si_unmarshal :: "pb_ShardInfo \<Rightarrow> ShardInfo" where
  "si_unmarshal pb =
     \<lparr>si_ID = get_num (psi_ID pb),
      si_Owners =
        (if length (psi_OwnerIDs pb) > 0
         then map (\<lambda>x. so_unmarshal \<lparr>pso_NodeID = Some x\<rparr>) (psi_OwnerIDs pb)
         else map so_unmarshal (psi_Owners pb))\<rparr>"

definition sg_marshal :: "ShardGroupInfo \<Rightarrow> pb_ShardGroupInfo" where
  "sg_marshal sgi =
     \<lparr>psg_ID = Some (sg_ID sgi), psg_StartTime = Some (MarshalTime (sg_StartTime sgi)),
      psg_EndTime = Some (MarshalTime (sg_EndTime sgi)), psg_DeletedAt = Some (MarshalTime (sg_DeletedAt sgi)),
      psg_Shards = map si_marshal (sg_Shards sgi),
      psg_TruncatedAt =
        (if \<not> IsZero (sg_TruncatedAt sgi) then Some (MarshalTime (sg_TruncatedAt sgi)) else None)\<rparr>"

definition sg_unmarshal :: "pb_ShardGroupInfo \<Rightarrow> ShardGroupInfo" where
  "sg_unmarshal pb =
     \<lparr>sg_ID = get_num (psg_ID pb),
      sg_StartTime = (let i = get_num (psg_StartTime pb) in if i = 0 then time_Unix 0 else UnmarshalTime i),
      sg_EndTime = (let i = get_num (psg_EndTime pb) in if i = 0 then time_Unix 0 else UnmarshalTime i),
      sg_DeletedAt = UnmarshalTime (get_num (psg_DeletedAt pb)),
      sg_Shards = map si_unmarshal (psg_Shards pb),
      sg_TruncatedAt =
        (if psg_TruncatedAt pb \<noteq> None then UnmarshalTime (get_num (psg_TruncatedAt pb)) else 0)\<rparr>"

definition sub_marshal :: "SubscriptionInfo \<Rightarrow> pb_SubscriptionInfo" where
  "sub_marshal si =
     \<lparr>psub_Name = Some (sub_Name si), psub_Mode = Some (sub_Mode si), psub_Destinations = sub_Destinations si\<rparr>"

definition sub_unmarshal :: "pb_SubscriptionInfo \<Rightarrow> SubscriptionInfo" where
  "sub_unmarshal pb =
     \<lparr>sub_Name = get_str (psub_Name pb), sub_Mode = get_str (psub_Mode pb),
      sub_Destinations = psub_Destinations pb\<rparr>"

definition rps_marshal :: "RetentionPolicySpec \<Rightarrow> pb_RetentionPolicySpec" where
  "rps_marshal s =
     \<lparr>prs_Name = (if rps_Name s \<noteq> '''' then Some (rps_Name s) else None),
      prs_Duration = map_option of_int (rps_Duration s),
      prs_ShardGroupDuration =
        (if rps_ShardGroupDuration s > 0 then Some (of_int (rps_ShardGroupDuration s)) else None),
      prs_ReplicaN = map_option of_int (rps_ReplicaN s)\<rparr>"

text \<open>\<open>unmarshal\<close> leaves the fields that are absent from the message as they are.\<close>

definition rps_unmarshal :: "pb_RetentionPolicySpec \<Rightarrow> RetentionPolicySpec \<Rightarrow> RetentionPolicySpec" where
  "rps_unmarshal pb s =
     \<lparr>rps_Name = (if prs_Name pb \<noteq> None then get_str (prs_Name pb) else rps_Name s),
      rps_ReplicaN = (case prs_ReplicaN pb of Some n \<Rightarrow> Some (uint n) | None \<Rightarrow> rps_ReplicaN s),
      rps_Duration = (case prs_Duration pb of Some d \<Rightarrow> Some (sint d) | None \<Rightarrow> rps_Duration s),
      rps_ShardGroupDuration =
        (case prs_ShardGroupDuration pb of Some d \<Rightarrow> sint d | None \<Rightarrow> rps_ShardGroupDuration s)\<rparr>"

definition rp_marshal :: "RetentionPolicyInfo \<Rightarrow> pb_RetentionPolicyInfo" where
  "rp_marshal rpi =
     \<lparr>prp_Name = Some (rp_Name rpi), prp_Duration = Some (of_int (rp_Duration rpi)),
      prp_ShardGroupDuration = Some (of_int (rp_ShardGroupDuration rpi)),
      prp_ReplicaN = Some (of_int (rp_ReplicaN rpi)),
      prp_ShardGroups = map sg_marshal (rp_ShardGroups rpi),
      prp_Subscriptions = map sub_marshal (rp_Subscriptions rpi)\<rparr>"

definition rp_unmarshal :: "pb_RetentionPolicyInfo \<Rightarrow> RetentionPolicyInfo" where
  "rp_unmarshal pb =
     \<lparr>rp_Name = get_str (prp_Name pb), rp_ReplicaN = uint (get_num (prp_ReplicaN pb)),
      rp_Duration = sint (get_num (prp_Duration pb)),
      rp_ShardGroupDuration = sint (get_num (prp_ShardGroupDuration pb)),
      rp_ShardGroups = map sg_unmarshal (prp_ShardGroups pb),
      rp_Subscriptions = map sub_unmarshal (prp_Subscriptions pb)\<rparr>"

definition cq_marshal :: "ContinuousQueryInfo \<Rightarrow> pb_ContinuousQueryInfo" where
  "cq_marshal cqi = \<lparr>pcq_Name = Some (cq_Name cqi), pcq_Query = Some (cq_Query cqi)\<rparr>"

definition cq_unmarshal :: "pb_ContinuousQueryInfo \<Rightarrow> ContinuousQueryInfo" where
  "cq_unmarshal pb = \<lparr>cq_Name = get_str (pcq_Name pb), cq_Query = get_str (pcq_Query pb)\<rparr>"

definition db_marshal :: "DatabaseInfo \<Rightarrow> pb_DatabaseInfo" where
  "db_marshal di =
     \<lparr>pdb_Name = Some (db_Name di), pdb_DefaultRetentionPolicy = Some (db_DefaultRetentionPolicy di),
      pdb_RetentionPolicies = map rp_marshal (db_RetentionPolicies di),
      pdb_ContinuousQueries = map cq_marshal (db_ContinuousQueries di)\<rparr>"

definition db_unmarshal :: "pb_DatabaseInfo \<Rightarrow> DatabaseInfo" where
  "db_unmarshal pb =
     \<lparr>db_Name = get_str (pdb_Name pb), db_DefaultRetentionPolicy = get_str (pdb_DefaultRetentionPolicy pb),
      db_RetentionPolicies = map rp_unmarshal (pdb_RetentionPolicies pb),
      db_ContinuousQueries = map cq_unmarshal (pdb_ContinuousQueries pb)\<rparr>"

definition u_marshal :: "UserInfo \<Rightarrow> pb_UserInfo" where
  "u_marshal ui =
     \<lparr>pu_Name = Some (u_Name ui), pu_Hash = Some (u_Hash ui), pu_Admin = Some (u_Admin ui),
      pu_Privileges = map (\<lambda>(database, privilege). \<lparr>pup_Database = Some database, pup_Privilege = Some (of_int privilege)\<rparr>)
        (u_Privileges ui)\<rparr>"

definition u_unmarshal :: "pb_UserInfo \<Rightarrow> UserInfo" where
  "u_unmarshal pb =
     \<lparr>u_Name = get_str (pu_Name pb), u_Hash = get_str (pu_Hash pb), u_Admin = get_bool (pu_Admin pb),
      u_Privileges =
        fold (\<lambda>p m. AList.update (get_str (pup_Database p)) (sint (get_num (pup_Privilege p))) m) (pu_Privileges pb) []\<rparr>"

definition data_marshal :: "Data \<Rightarrow> pb_Data" where
  "data_marshal data =
     \<lparr>pd_Term = Some (d_Term data), pd_Index = Some (d_Index data), pd_ClusterID = Some (d_ClusterID data),
      pd_Databases = map db_marshal (d_Databases data), pd_Users = map u_marshal (d_Users data),
      pd_MaxNodeID = Some 0,
      pd_MaxShardGroupID = Some (d_MaxShardGroupID data), pd_MaxShardID = Some (d_MaxShardID data)\<rparr>"

definition data_unmarshal :: "pb_Data \<Rightarrow> Data" where
  "data_unmarshal pb =
     (let data =
        \<lparr>d_Term = get_num (pd_Term pb), d_Index = get_num (pd_Index pb), d_ClusterID = get_num (pd_ClusterID pb),
         d_Databases = map db_unmarshal (pd_Databases pb), d_Users = map u_unmarshal (pd_Users pb),
         d_adminUserExists = False,
         d_MaxShardGroupID = get_num (pd_MaxShardGroupID pb), d_MaxShardID = get_num (pd_MaxShardID pb)\<rparr>
      in data\<lparr>d_adminUserExists := hasAdminUser data\<rparr>)"

definition MarshalBinary :: "(pb_Data \<Rightarrow> meta_err + u8 list) \<Rightarrow> Data \<Rightarrow> meta_err + u8 list" where
  "MarshalBinary proto_Marshal data = proto_Marshal (data_marshal data)"

definition UnmarshalBinary :: "(u8 list \<Rightarrow> meta_err + pb_Data) \<Rightarrow> u8 list \<Rightarrow> meta_err + Data" where
  "UnmarshalBinary proto_Unmarshal buf =
     (case proto_Unmarshal buf of Inl e \<Rightarrow> Inl e | Inr pb \<Rightarrow> Inr (data_unmarshal pb))"

subsection \<open>Cloning\<close>

definition so_clone :: "ShardOwner \<Rightarrow> ShardOwner" where
  "so_clone so = so"

definition si_clone :: "ShardInfo \<Rightarrow> ShardInfo" where
  "si_clone si = si\<lparr>si_Owners := map so_clone (si_Owners si)\<rparr>"

definition sg_clone :: "ShardGroupInfo \<Rightarrow> ShardGroupInfo" where
  "sg_clone sgi = sgi\<lparr>sg_Shards := map si_clone (sg_Shards sgi)\<rparr>"

definition rp_clone :: "RetentionPolicyInfo \<Rightarrow> RetentionPolicyInfo" where
  "rp_clone rpi = rpi\<lparr>rp_ShardGroups := map sg_clone (rp_ShardGroups rpi)\<rparr>"

definition cq_clone :: "ContinuousQueryInfo \<Rightarrow> ContinuousQueryInfo" where
  "cq_clone cqi = cqi"

definition db_clone :: "DatabaseInfo \<Rightarrow> DatabaseInfo" where
  "db_clone di =
     di\<lparr>db_RetentionPolicies := map rp_clone (db_RetentionPolicies di),
        db_ContinuousQueries := map cq_clone (db_ContinuousQueries di)\<rparr>"

definition u_clone :: "UserInfo \<Rightarrow> UserInfo" where
  "u_clone ui = ui\<lparr>u_Privileges := fold (\<lambda>(k, v) m. AList.update k v m) (u_Privileges ui) []\<rparr>"

definition CloneDatabases :: "Data \<Rightarrow> DatabaseInfo list" where
  "CloneDatabases data = map db_clone (d_Databases data)"

definition CloneUsers :: "Data \<Rightarrow> UserInfo list" where
  "CloneUsers data = map u_clone (d_Users data)"

definition Clone :: "Data \<Rightarrow> Data" where
  "Clone data = data\<lparr>d_Databases := CloneDatabases data, d_Users := CloneUsers data\<rparr>"

subsection \<open>Round trips\<close>

text \<open>
  The values a message can hold: durations of 64 bits, replication factors of 32 bits, times that
  are Unix nanoseconds of 64 bits. A start or end must not be the zero time, which comes back as the
  Unix epoch, and a deletion or truncation must not be the Unix epoch, which comes back as the zero
  time.
\<close>

definition int64_range :: "int \<Rightarrow> bool" where
  "int64_range i \<longleftrightarrow> - (2 ^ 63) \<le> i \<and> i < 2 ^ 63"

definition nano_time :: "time \<Rightarrow> bool" where
  "nano_time t \<longleftrightarrow> int64_range (t - unix_epoch)"

definition sg_storable :: "ShardGroupInfo \<Rightarrow> bool" where
  "sg_storable g \<longleftrightarrow>
     sg_StartTime g \<noteq> 0 \<and> nano_time (sg_StartTime g) \<and> sg_EndTime g \<noteq> 0 \<and> nano_time (sg_EndTime g) \<and>
     (sg_DeletedAt g = 0 \<or> sg_DeletedAt g \<noteq> unix_epoch \<and> nano_time (sg_DeletedAt g)) \<and>
     (sg_TruncatedAt g = 0 \<or> sg_TruncatedAt g \<noteq> unix_epoch \<and> nano_time (sg_TruncatedAt g))"

definition rp_storable :: "RetentionPolicyInfo \<Rightarrow> bool" where
  "rp_storable rp \<longleftrightarrow>
     int64_range (rp_Duration rp) \<and> int64_range (rp_ShardGroupDuration rp) \<and>
     0 \<le> rp_ReplicaN rp \<and> rp_ReplicaN rp < 2 ^ 32 \<and> list_all sg_storable (rp_ShardGroups rp)"

definition u_storable :: "UserInfo \<Rightarrow> bool" where
  "u_storable u \<longleftrightarrow> distinct (map fst (u_Privileges u)) \<and>
     list_all (\<lambda>(_, p). - (2 ^ 31) \<le> p \<and> p < 2 ^ 31) (u_Privileges u)"

definition data_storable :: "Data \<Rightarrow> bool" where
  "data_storable d \<longleftrightarrow>
     list_all (\<lambda>db. list_all rp_storable (db_RetentionPolicies db)) (d_Databases d) \<and>
     list_all u_storable (d_Users d) \<and> d_adminUserExists d = hasAdminUser d"

lemma sint_of_int_i64:
  assumes "int64_range i"
  shows "sint (of_int i :: i64) = i"
  using assms by (simp add: int64_range_def signed_of_int signed_take_bit_int_eq_self)

lemma sint_of_int_i32:
  assumes "- (2 ^ 31) \<le> i" "i < 2 ^ 31"
  shows "sint (of_int i :: 32 word) = i"
  using assms by (simp add: signed_of_int signed_take_bit_int_eq_self)

lemma uint_of_int_u32:
  assumes "0 \<le> i" "i < 2 ^ 32"
  shows "uint (of_int i :: 32 word) = i"
  using assms by (simp add: unsigned_of_int take_bit_int_eq_self)

lemma UnmarshalTime_marshal:
  assumes "t = 0 \<or> t \<noteq> unix_epoch \<and> nano_time t"
  shows "UnmarshalTime (MarshalTime t) = t"
proof (cases "t = 0")
  case False
  then have r: "int64_range (t - unix_epoch)" "t - unix_epoch \<noteq> 0" using assms by (auto simp: nano_time_def)
  then have "(of_int (t - unix_epoch) :: i64) \<noteq> 0"
    using sint_of_int_i64 [OF r(1)] by (metis signed_0)
  then show ?thesis
    using False sint_of_int_i64 [OF r(1)] by (simp add: MarshalTime_def UnmarshalTime_def IsZero_def time_Unix_def)
qed (simp add: MarshalTime_def UnmarshalTime_def IsZero_def)

lemma epoch_nonzero: "unix_epoch \<noteq> 0"
  by (simp add: unix_epoch_def)

text \<open>A start or end time: the epoch is marshalled to 0 and read back as the epoch.\<close>

lemma bound_roundtrip:
  assumes "t \<noteq> 0" "nano_time t"
  shows "(if MarshalTime t = 0 then time_Unix 0 else UnmarshalTime (MarshalTime t)) = t"
proof (cases "t = unix_epoch")
  case True
  then show ?thesis using epoch_nonzero by (simp add: MarshalTime_def IsZero_def time_Unix_def)
next
  case False
  then have rt: "UnmarshalTime (MarshalTime t) = t" using assms by (intro UnmarshalTime_marshal) simp
  moreover have "MarshalTime t \<noteq> 0"
    using rt assms(1) by (auto simp: UnmarshalTime_def)
  ultimately show ?thesis by simp
qed

lemma si_roundtrip [simp]: "si_unmarshal (si_marshal si) = si"
proof -
  have "so_unmarshal (so_marshal so) = so" for so by (simp add: so_marshal_def so_unmarshal_def)
  then show ?thesis by (simp add: si_marshal_def si_unmarshal_def map_idI)
qed

lemma sg_roundtrip:
  assumes "sg_storable g"
  shows "sg_unmarshal (sg_marshal g) = g"
proof -
  have "UnmarshalTime (MarshalTime (sg_DeletedAt g)) = sg_DeletedAt g"
    "UnmarshalTime (MarshalTime (sg_TruncatedAt g)) = sg_TruncatedAt g"
    using assms by (auto simp: sg_storable_def intro!: UnmarshalTime_marshal)
  moreover note bound_roundtrip [of "sg_StartTime g"] bound_roundtrip [of "sg_EndTime g"]
  ultimately show ?thesis
    using assms by (auto simp: sg_marshal_def sg_unmarshal_def sg_storable_def Let_def IsZero_def map_idI)
qed

lemma rp_roundtrip:
  assumes "rp_storable rp"
  shows "rp_unmarshal (rp_marshal rp) = rp"
proof -
  have "map sg_unmarshal (map sg_marshal (rp_ShardGroups rp)) = rp_ShardGroups rp"
    using assms by (simp add: rp_storable_def list_all_iff sg_roundtrip map_idI)
  moreover have "map sub_unmarshal (map sub_marshal ss) = ss" for ss
    by (simp add: sub_marshal_def sub_unmarshal_def map_idI)
  ultimately show ?thesis
    using assms
    by (simp add: rp_marshal_def rp_unmarshal_def rp_storable_def sint_of_int_i64 uint_of_int_u32)
qed

lemma fold_update_distinct:
  assumes "distinct (map fst (acc @ xs))"
  shows "fold (\<lambda>(k, v) m. AList.update k v m) xs acc = acc @ xs"
  using assms
proof (induction xs arbitrary: acc)
  case (Cons x xs)
  obtain k v where x: "x = (k, v)" by (cases x)
  have "k \<notin> set (map fst acc)" using Cons.prems x by auto
  then have "AList.update k v acc = acc @ [(k, v)]" by (induction acc) auto
  then show ?case using Cons.IH [of "acc @ [(k, v)]"] Cons.prems x by simp
qed simp

lemma u_roundtrip:
  assumes "u_storable u"
  shows "u_unmarshal (u_marshal u) = u"
proof -
  have "fold (\<lambda>p m. AList.update (get_str (pup_Database p)) (sint (get_num (pup_Privilege p))) m)
      (map (\<lambda>(database, privilege). \<lparr>pup_Database = Some database, pup_Privilege = Some (of_int privilege)\<rparr>) ps) acc
    = fold (\<lambda>(k, v) m. AList.update k v m) ps acc"
    if "list_all (\<lambda>(_, p). - (2 ^ 31) \<le> p \<and> p < 2 ^ 31) ps" for ps acc
    using that by (induction ps arbitrary: acc) (auto simp: sint_of_int_i32)
  then show ?thesis
    using assms fold_update_distinct [of "[]" "u_Privileges u"]
    by (simp add: u_storable_def u_marshal_def u_unmarshal_def)
qed

lemma db_roundtrip:
  assumes "list_all rp_storable (db_RetentionPolicies db)"
  shows "db_unmarshal (db_marshal db) = db"
proof -
  have "map rp_unmarshal (map rp_marshal (db_RetentionPolicies db)) = db_RetentionPolicies db"
    using assms by (simp add: list_all_iff rp_roundtrip map_idI)
  moreover have "map cq_unmarshal (map cq_marshal cs) = cs" for cs
    by (simp add: cq_marshal_def cq_unmarshal_def map_idI)
  ultimately show ?thesis by (simp add: db_marshal_def db_unmarshal_def)
qed

lemma data_roundtrip:
  assumes "data_storable d"
  shows "data_unmarshal (data_marshal d) = d"
proof -
  have dbs: "map db_unmarshal (map db_marshal (d_Databases d)) = d_Databases d"
    using assms unfolding data_storable_def by (simp add: list_all_iff db_roundtrip map_idI)
  have us: "map u_unmarshal (map u_marshal (d_Users d)) = d_Users d"
    using assms unfolding data_storable_def by (simp add: list_all_iff u_roundtrip map_idI)
  have "list_ex u_Admin (d_Users d) = d_adminUserExists d"
    using assms unfolding data_storable_def hasAdminUser_def by simp
  then show ?thesis
    using dbs us by (simp add: data_marshal_def data_unmarshal_def Let_def hasAdminUser_def)
qed

text \<open>A clone has the contents of the original.\<close>

lemma Clone_contents:
  assumes "list_all (\<lambda>u. distinct (map fst (u_Privileges u))) (d_Users d)"
  shows "Clone d = d"
proof -
  have so: "so_clone = (\<lambda>x. x)" by (rule ext) (simp add: so_clone_def)
  have cq: "cq_clone = (\<lambda>x. x)" by (rule ext) (simp add: cq_clone_def)
  have si: "si_clone = (\<lambda>x. x)" by (rule ext) (simp add: si_clone_def so)
  have sg: "sg_clone = (\<lambda>x. x)" by (rule ext) (simp add: sg_clone_def si)
  have rp: "rp_clone = (\<lambda>x. x)" by (rule ext) (simp add: rp_clone_def sg)
  have db: "db_clone = (\<lambda>x. x)" by (rule ext) (simp add: db_clone_def rp cq)
  have "u_clone u = u" if "u \<in> set (d_Users d)" for u
  proof -
    have "distinct (map fst (u_Privileges u))" using assms that by (simp add: list_all_iff)
    then have "fold (\<lambda>(k, v). AList.update k v) (u_Privileges u) [] = u_Privileges u"
      using fold_update_distinct [of "[]" "u_Privileges u"] by simp
    then show ?thesis unfolding u_clone_def by simp
  qed
  then have "map u_clone (d_Users d) = d_Users d" by (simp add: map_idI)
  then show ?thesis by (simp add: Clone_def CloneDatabases_def CloneUsers_def db)
qed

subsection \<open>Properties\<close>

text \<open>
  C15. The metadata survives a save and a load: for data whose times, durations and counts the
  messages can hold, reading back what was marshalled gives the same data, when the message encoding
  decodes the message it was given. The admin flag is recomputed, not stored.
\<close>

theorem MarshalBinary_roundtrip:
  assumes "data_storable d" and "proto_Marshal (data_marshal d) = Inr buf" and "proto_Unmarshal buf = Inr (data_marshal d)"
  shows "MarshalBinary proto_Marshal d = Inr buf \<and> UnmarshalBinary proto_Unmarshal buf = Inr d"
  using data_roundtrip [OF assms(1)] assms(2,3) by (simp add: MarshalBinary_def UnmarshalBinary_def)

theorem MarshalBinary_roundtrip_witness:
  "MarshalBinary (\<lambda>_. Inr [1]) sample_data = Inr [1] \<and>
   UnmarshalBinary (\<lambda>_. Inr (data_marshal sample_data)) [1] = Inr sample_data"
proof (rule MarshalBinary_roundtrip)
  show "data_storable sample_data"
    by (simp add: sample_data_def data_storable_def rp_storable_def sg_storable_def u_storable_def hasAdminUser_def
        int64_range_def nano_time_def unix_epoch_def hour_def)
qed simp_all

end
