(* ===== verification/MetaClient.thy ===== *)
theory MetaClient
  imports MetaStores MetaMarshal
begin

text \<open>
  The client of the metadata store, \<open>src/backend/v1/services/meta/client.go\<close>. Every method that
  changes the data works on a clone and commits it: it writes the bytes to the key-value store first
  and replaces the cached data only when that succeeded.

  \<^item> The methods hold the mutex until they return, so each is one step; \<open>SetData\<close> is the exception
    (\<open>cl_locked\<close>). \<open>Authenticate\<close>, which takes the mutex three times, is in \<open>MetaAuth\<close>.
  \<^item> Everything that comes from outside during one call is in an environment: the clock, the outcome of
    the write to the store, the message encoding, the password hashing. The stored value under
    \<open>metadataKey\<close> is \<open>cl_store\<close>; an \<open>Update\<close> of the store is a transaction, so it writes all or nothing.
  \<^item> \<open>cl_changed\<close> counts how often the channel of \<open>WaitForDataChanged\<close> was closed and replaced.
  \<^item> Logging is left out.
\<close>

subsection \<open>State\<close>

record authUser =
  au_bhash :: string
  au_salt :: string
  au_hash :: string

record Client =
  cl_cacheData :: Data
  cl_authCache :: "(string \<times> authUser) list"
  cl_store :: "u8 list option"
  cl_changed :: nat
  cl_closing :: bool
  cl_retentionAutoCreate :: bool
  cl_locked :: bool

record meta_env =
  me_Now :: time
  me_Marshal :: "pb_Data \<Rightarrow> meta_err + u8 list"
  me_Unmarshal :: "u8 list \<Rightarrow> meta_err + pb_Data"
  me_Update :: "meta_err option"
  me_View :: "meta_err option"
  me_urls :: url_lib
  me_GenerateFromPassword :: "string \<Rightarrow> meta_err + string"
  me_CompareHashAndPassword :: "string \<Rightarrow> string \<Rightarrow> bool"
  me_sha256 :: "string \<Rightarrow> string"
  me_salt :: "meta_err + string"

definition ShardGroupDeletedExpiration :: duration where
  "ShardGroupDeletedExpiration = - 2 * 7 * 24 * hour"

definition NewClient :: "u64 \<Rightarrow> bool \<Rightarrow> u8 list option \<Rightarrow> Client" where
  "NewClient clusterID autoCreate store =
     \<lparr>cl_cacheData = empty_data clusterID, cl_authCache = [], cl_store = store, cl_changed = 0, cl_closing = False,
      cl_retentionAutoCreate = autoCreate, cl_locked = False\<rparr>"

subsection \<open>The store\<close>

definition snapshot :: "meta_env \<Rightarrow> Data \<Rightarrow> Client \<Rightarrow> meta_err option \<times> Client" where
  "snapshot env data c =
     (case MarshalBinary (me_Marshal env) data of
        Inl e \<Rightarrow> (Some e, c)
      | Inr d \<Rightarrow>
          (case me_Update env of
             Some e \<Rightarrow> (Some e, c)
           | None \<Rightarrow> (None, c\<lparr>cl_store := Some d\<rparr>)))"

definition load :: "meta_env \<Rightarrow> Client \<Rightarrow> meta_err option \<times> Client" where
  "load env c =
     (case me_View env of
        Some e \<Rightarrow> (Some e, c)
      | None \<Rightarrow>
          (case cl_store c of
             None \<Rightarrow> (None, c)
           | Some buf \<Rightarrow>
               (case UnmarshalBinary (me_Unmarshal env) buf of
                  Inl e \<Rightarrow> (Some e, c)
                | Inr data \<Rightarrow> (None, c\<lparr>cl_cacheData := data\<rparr>))))"

definition cl_Open :: "meta_env \<Rightarrow> Client \<Rightarrow> meta_err option \<times> Client" where
  "cl_Open env c =
     (case load env c of
        (Some e, c) \<Rightarrow> (Some e, c)
      | (None, c) \<Rightarrow> if d_Index (cl_cacheData c) = 1 then snapshot env (cl_cacheData c) c else (None, c))"

definition cl_Close :: "Client \<Rightarrow> Client" where
  "cl_Close c = c\<lparr>cl_closing := True\<rparr>"

definition Reload :: "meta_env \<Rightarrow> Client \<Rightarrow> meta_err option \<times> Client" where
  "Reload env c = load env c"

text \<open>\<open>Restore\<close> replaces the contents of the store, which may fail, and reloads.\<close>

definition Restore :: "meta_env \<Rightarrow> meta_err + u8 list option \<Rightarrow> Client \<Rightarrow> meta_err option \<times> Client" where
  "Restore env restored c =
     (case restored of
        Inl e \<Rightarrow> (Some e, c)
      | Inr st \<Rightarrow> Reload env (c\<lparr>cl_store := st\<rparr>))"

definition commit :: "meta_env \<Rightarrow> Data \<Rightarrow> Client \<Rightarrow> meta_err option \<times> Client" where
  "commit env data c =
     (let data = data\<lparr>d_Index := d_Index data + 1\<rparr>
      in case snapshot env data c of
           (Some e, c) \<Rightarrow> (Some e, c)
         | (None, c) \<Rightarrow> (None, c\<lparr>cl_cacheData := data, cl_changed := cl_changed c + 1\<rparr>))"

text \<open>The closing of a method: commit, then return a value.\<close>

definition committed :: "meta_env \<Rightarrow> Data \<Rightarrow> 'r \<Rightarrow> Client \<Rightarrow> (meta_err + 'r) \<times> Client" where
  "committed env data r c =
     (case commit env data c of
        (Some e, c) \<Rightarrow> (Inl e, c)
      | (None, c) \<Rightarrow> (Inr r, c))"

subsection \<open>Databases and retention policies\<close>

definition cl_Database :: "string \<Rightarrow> Client \<Rightarrow> DatabaseInfo option" where
  "cl_Database name c = find (\<lambda>d. db_Name d = name) (d_Databases (cl_cacheData c))"

definition cl_Databases :: "Client \<Rightarrow> DatabaseInfo list" where
  "cl_Databases c = d_Databases (cl_cacheData c)"

definition cl_CreateDatabase :: "meta_env \<Rightarrow> string \<Rightarrow> Client \<Rightarrow> (meta_err + DatabaseInfo option) \<times> Client" where
  "cl_CreateDatabase env name c =
     (let data = Clone (cl_cacheData c)
      in case Database data name of
           Some db \<Rightarrow> (Inr (Some db), c)
         | None \<Rightarrow>
             (case CreateDatabase data name of
                Inl e \<Rightarrow> (Inl e, c)
              | Inr data \<Rightarrow>
                  (case (if cl_retentionAutoCreate c
                         then CreateRetentionPolicy data name (Some DefaultRetentionPolicyInfo) True
                         else Inr data) of
                     Inl e \<Rightarrow> (Inl e, c)
                   | Inr data \<Rightarrow> committed env data (Database data name) c)))"

definition cl_CreateDatabaseWithRetentionPolicy ::
  "meta_env \<Rightarrow> string \<Rightarrow> RetentionPolicySpec option \<Rightarrow> Client \<Rightarrow> (meta_err + DatabaseInfo option) \<times> Client" where
  "cl_CreateDatabaseWithRetentionPolicy env name spec c =
     (case spec of
        None \<Rightarrow> (Inl (ErrText ''CreateDatabaseWithRetentionPolicy called with nil spec''), c)
      | Some spec \<Rightarrow>
          let data = Clone (cl_cacheData c)
          in if (case rps_Duration spec of Some dur \<Rightarrow> dur < MinRetentionPolicyDuration \<and> dur \<noteq> 0 | None \<Rightarrow> False)
             then (Inl ErrRetentionPolicyDurationTooLow, c)
             else
               case (if Database data name = None then CreateDatabase data name else Inr data) of
                 Inl e \<Rightarrow> (Inl e, c)
               | Inr data \<Rightarrow>
                   let db = the (Database data name);
                       rpi = rps_NewRetentionPolicyInfo spec
                   in case (if length (db_RetentionPolicies db) = 0 then CreateRetentionPolicy data name (Some rpi) True
                            else if \<not> rps_Matches spec (db_RetentionPolicy db (rp_Name rpi)) then Inl ErrRetentionPolicyConflict
                            else Inr data) of
                        Inl e \<Rightarrow> (Inl e, c)
                      | Inr data \<Rightarrow>
                          if db_DefaultRetentionPolicy (the (Database data name)) \<noteq> rp_Name rpi
                          then (Inl ErrRetentionPolicyConflict, c)
                          else committed env data (Database data name) c)"

definition cl_DropDatabase :: "meta_env \<Rightarrow> string \<Rightarrow> Client \<Rightarrow> (meta_err + unit) \<times> Client" where
  "cl_DropDatabase env name c =
     (case DropDatabase (Clone (cl_cacheData c)) name of
        Inl e \<Rightarrow> (Inl e, c)
      | Inr data \<Rightarrow> committed env data () c)"

definition cl_CreateRetentionPolicy ::
  "meta_env \<Rightarrow> string \<Rightarrow> RetentionPolicySpec \<Rightarrow> bool \<Rightarrow> Client \<Rightarrow> (meta_err + RetentionPolicyInfo) \<times> Client" where
  "cl_CreateRetentionPolicy env database spec makeDefault c =
     (let data = Clone (cl_cacheData c)
      in if (case rps_Duration spec of Some dur \<Rightarrow> dur < MinRetentionPolicyDuration \<and> dur \<noteq> 0 | None \<Rightarrow> False)
         then (Inl ErrRetentionPolicyDurationTooLow, c)
         else
           let rp = rps_NewRetentionPolicyInfo spec
           in case CreateRetentionPolicy data database (Some rp) makeDefault of
                Inl e \<Rightarrow> (Inl e, c)
              | Inr data \<Rightarrow>
                  committed env data
                    (rp\<lparr>rp_ShardGroupDuration := NormalisedShardDuration (rp_ShardGroupDuration rp) (rp_Duration rp)\<rparr>) c)"

definition cl_RetentionPolicy :: "string \<Rightarrow> string \<Rightarrow> Client \<Rightarrow> meta_err + RetentionPolicyInfo option" where
  "cl_RetentionPolicy database name c =
     (case Database (cl_cacheData c) database of
        None \<Rightarrow> Inl (ErrDatabaseNotFound database)
      | Some db \<Rightarrow> Inr (db_RetentionPolicy db name))"

definition cl_DropRetentionPolicy :: "meta_env \<Rightarrow> string \<Rightarrow> string \<Rightarrow> Client \<Rightarrow> (meta_err + unit) \<times> Client" where
  "cl_DropRetentionPolicy env database name c =
     (case DropRetentionPolicy (Clone (cl_cacheData c)) database name of
        Inl e \<Rightarrow> (Inl e, c)
      | Inr data \<Rightarrow> committed env data () c)"

definition cl_UpdateRetentionPolicy ::
  "meta_env \<Rightarrow> string \<Rightarrow> string \<Rightarrow> RetentionPolicyUpdate \<Rightarrow> bool \<Rightarrow> Client \<Rightarrow> (meta_err + unit) \<times> Client" where
  "cl_UpdateRetentionPolicy env database name rpu makeDefault c =
     (case UpdateRetentionPolicy (Clone (cl_cacheData c)) database name rpu makeDefault of
        Inl e \<Rightarrow> (Inl e, c)
      | Inr data \<Rightarrow> committed env data () c)"

subsection \<open>Users\<close>

definition cl_Users :: "Client \<Rightarrow> UserInfo list" where
  "cl_Users c = d_Users (cl_cacheData c)"

definition cl_User :: "string \<Rightarrow> Client \<Rightarrow> meta_err + UserInfo" where
  "cl_User name c =
     (case find (\<lambda>u. u_Name u = name) (d_Users (cl_cacheData c)) of None \<Rightarrow> Inl ErrUserNotFound | Some u \<Rightarrow> Inr u)"

definition cl_CreateUser :: "meta_env \<Rightarrow> string \<Rightarrow> string \<Rightarrow> bool \<Rightarrow> Client \<Rightarrow> (meta_err + UserInfo option) \<times> Client" where
  "cl_CreateUser env name password admin c =
     (let data = Clone (cl_cacheData c)
      in case user data name of
           Some u \<Rightarrow>
             if \<not> me_CompareHashAndPassword env (u_Hash u) password \<or> u_Admin u \<noteq> admin then (Inl ErrUserExists, c)
             else (Inr (Some u), c)
         | None \<Rightarrow>
             (case me_GenerateFromPassword env password of
                Inl e \<Rightarrow> (Inl e, c)
              | Inr hash \<Rightarrow>
                  (case CreateUser data name hash admin of
                     Inl e \<Rightarrow> (Inl e, c)
                   | Inr data \<Rightarrow> committed env data (user data name) c)))"

definition cl_UpdateUser :: "meta_env \<Rightarrow> string \<Rightarrow> string \<Rightarrow> Client \<Rightarrow> (meta_err + unit) \<times> Client" where
  "cl_UpdateUser env name password c =
     (case me_GenerateFromPassword env password of
        Inl e \<Rightarrow> (Inl e, c)
      | Inr hash \<Rightarrow>
          (case UpdateUser (Clone (cl_cacheData c)) name hash of
             Inl e \<Rightarrow> (Inl e, c)
           | Inr data \<Rightarrow> committed env data () (c\<lparr>cl_authCache := AList.delete name (cl_authCache c)\<rparr>)))"

definition cl_DropUser :: "meta_env \<Rightarrow> string \<Rightarrow> Client \<Rightarrow> (meta_err + unit) \<times> Client" where
  "cl_DropUser env name c =
     (case DropUser (Clone (cl_cacheData c)) name of
        Inl e \<Rightarrow> (Inl e, c)
      | Inr data \<Rightarrow> committed env data () c)"

definition cl_SetPrivilege :: "meta_env \<Rightarrow> string \<Rightarrow> string \<Rightarrow> privilege \<Rightarrow> Client \<Rightarrow> (meta_err + unit) \<times> Client" where
  "cl_SetPrivilege env username database p c =
     (case SetPrivilege (Clone (cl_cacheData c)) username database p of
        Inl e \<Rightarrow> (Inl e, c)
      | Inr data \<Rightarrow> committed env data () c)"

definition cl_SetAdminPrivilege :: "meta_env \<Rightarrow> string \<Rightarrow> bool \<Rightarrow> Client \<Rightarrow> (meta_err + unit) \<times> Client" where
  "cl_SetAdminPrivilege env username admin c =
     (case SetAdminPrivilege (Clone (cl_cacheData c)) username admin of
        Inl e \<Rightarrow> (Inl e, c)
      | Inr data \<Rightarrow> committed env data () c)"

definition cl_UserPrivileges :: "string \<Rightarrow> Client \<Rightarrow> meta_err + (string \<times> privilege) list" where
  "cl_UserPrivileges username c = UserPrivileges (cl_cacheData c) username"

definition cl_UserPrivilege :: "privileges \<Rightarrow> string \<Rightarrow> string \<Rightarrow> Client \<Rightarrow> meta_err + privilege" where
  "cl_UserPrivilege pc username database c = UserPrivilege pc (cl_cacheData c) username database"

definition cl_AdminUserExists :: "Client \<Rightarrow> bool" where
  "cl_AdminUserExists c = AdminUserExists (cl_cacheData c)"

definition cl_UserCount :: "Client \<Rightarrow> nat" where
  "cl_UserCount c = length (d_Users (cl_cacheData c))"

subsection \<open>Shards\<close>

definition cl_ShardIDs :: "Client \<Rightarrow> u64 list" where
  "cl_ShardIDs c =
     sort (concat (map (\<lambda>dbi. concat (map (\<lambda>rpi. concat (map (\<lambda>sgi. map si_ID (sg_Shards sgi)) (rp_ShardGroups rpi)))
       (db_RetentionPolicies dbi))) (d_Databases (cl_cacheData c))))"

definition cl_ShardGroupsByTimeRange ::
  "string \<Rightarrow> string \<Rightarrow> time \<Rightarrow> time \<Rightarrow> Client \<Rightarrow> meta_err + ShardGroupInfo list" where
  "cl_ShardGroupsByTimeRange database policy mn mx c =
     (case find_policy (cl_cacheData c) database policy of
        Inl e \<Rightarrow> Inl e
      | Inr rpi \<Rightarrow> Inr (filter (\<lambda>g. \<not> (sg_Deleted g \<or> \<not> sg_Overlaps g mn mx)) (rp_ShardGroups rpi)))"

text \<open>
  The sources are given as the databases and policies of their measurements. The Go map is keyed by
  the addresses of the shards, so a shard occurs once however many sources name its group; the
  addresses are positions (database, policy, index of the group among the selected, index of the
  shard) here. The order of the result is that of ranging over the map.
\<close>

fun shards_by_source ::
  "(string \<times> string) list \<Rightarrow> time \<Rightarrow> time \<Rightarrow> Client \<Rightarrow> ((string \<times> string \<times> nat \<times> nat) \<times> ShardInfo) list \<Rightarrow>
   meta_err + ((string \<times> string \<times> nat \<times> nat) \<times> ShardInfo) list" where
  "shards_by_source [] tmin tmax c m = Inr m"
| "shards_by_source ((db, rp) # sources) tmin tmax c m =
     (case cl_ShardGroupsByTimeRange db rp tmin tmax c of
        Inl e \<Rightarrow> Inl e
      | Inr groups \<Rightarrow>
          shards_by_source sources tmin tmax c
            (fold (\<lambda>(k, g) m. fold (\<lambda>(i, s) m. AList.update (db, rp, k, i) s m)
               (zip [0..<length (sg_Shards g)] (sg_Shards g)) m) (zip [0..<length groups] groups) m))"

definition cl_ShardsByTimeRange :: "(string \<times> string) list \<Rightarrow> time \<Rightarrow> time \<Rightarrow> Client \<Rightarrow> meta_err + ShardInfo list" where
  "cl_ShardsByTimeRange sources tmin tmax c =
     (case shards_by_source sources tmin tmax c [] of Inl e \<Rightarrow> Inl e | Inr m \<Rightarrow> Inr (map snd m))"

definition cl_DropShard :: "meta_env \<Rightarrow> u64 \<Rightarrow> Client \<Rightarrow> (meta_err + unit) \<times> Client" where
  "cl_DropShard env sid c = committed env (DropShard (me_Now env) (Clone (cl_cacheData c)) sid) () c"

definition cl_TruncateShardGroups :: "meta_env \<Rightarrow> time \<Rightarrow> Client \<Rightarrow> (meta_err + unit) \<times> Client" where
  "cl_TruncateShardGroups env t c = committed env (TruncateShardGroups (Clone (cl_cacheData c)) t) () c"

definition cl_PruneShardGroups :: "meta_env \<Rightarrow> Client \<Rightarrow> (meta_err + unit) \<times> Client" where
  "cl_PruneShardGroups env c =
     (let expiration = me_Now env + ShardGroupDeletedExpiration;
          (changed, data) = PruneShardGroups (Clone (cl_cacheData c)) expiration
      in if changed then committed env data () c else (Inr (), c))"

text \<open>\<open>sg, _ := data.ShardGroupByTimestamp(...)\<close>: an error gives no group.\<close>

definition group_at :: "Data \<Rightarrow> string \<Rightarrow> string \<Rightarrow> time \<Rightarrow> ShardGroupInfo option" where
  "group_at data database policy timestamp =
     (case ShardGroupByTimestamp data database policy timestamp of Inl e \<Rightarrow> None | Inr sg \<Rightarrow> sg)"

text \<open>The function \<open>createShardGroup\<close>; it returns the group, which may be \<open>nil\<close>, and the changed data.\<close>

definition create_group ::
  "Data \<Rightarrow> string \<Rightarrow> string \<Rightarrow> time \<Rightarrow> ShardInfo list \<Rightarrow> meta_err + ShardGroupInfo option \<times> Data" where
  "create_group data database policy timestamp shards =
     (if group_at data database policy timestamp \<noteq> None then Inl (ErrText ''shard group already exists'')
      else case CreateShardGroup data database policy timestamp shards of
             Inl e \<Rightarrow> Inl e
           | Inr data \<Rightarrow>
               (case RetentionPolicy data database policy of
                  Inl e \<Rightarrow> Inl e
                | Inr None \<Rightarrow> Inl (ErrText ''retention policy deleted after shard group created'')
                | Inr (Some rpi) \<Rightarrow> Inr (rp_ShardGroupByTimestamp rpi timestamp, data)))"

text \<open>The part under the write lock, and the whole method when nothing happens in between.\<close>

definition create_group_locked ::
  "meta_env \<Rightarrow> string \<Rightarrow> string \<Rightarrow> time \<Rightarrow> ShardInfo list \<Rightarrow> Client \<Rightarrow> (meta_err + ShardGroupInfo option) \<times> Client" where
  "create_group_locked env database policy timestamp shards c =
     (let data = Clone (cl_cacheData c)
      in case group_at data database policy timestamp of
           Some sg \<Rightarrow> (Inr (Some sg), c)
         | None \<Rightarrow>
             (case create_group data database policy timestamp shards of
                Inl e \<Rightarrow> (Inl e, c)
              | Inr (sgi, data) \<Rightarrow> committed env data sgi c))"

definition cl_CreateShardGroupWithShards ::
  "meta_env \<Rightarrow> string \<Rightarrow> string \<Rightarrow> time \<Rightarrow> ShardInfo list \<Rightarrow> Client \<Rightarrow> (meta_err + ShardGroupInfo option) \<times> Client" where
  "cl_CreateShardGroupWithShards env database policy timestamp shards c =
     (case group_at (cl_cacheData c) database policy timestamp of
        Some sg \<Rightarrow> (Inr (Some sg), c)
      | None \<Rightarrow> create_group_locked env database policy timestamp shards c)"

definition cl_CreateShardGroup ::
  "meta_env \<Rightarrow> string \<Rightarrow> string \<Rightarrow> time \<Rightarrow> Client \<Rightarrow> (meta_err + ShardGroupInfo option) \<times> Client" where
  "cl_CreateShardGroup env database policy timestamp c = cl_CreateShardGroupWithShards env database policy timestamp [] c"

definition cl_DeleteShardGroup :: "meta_env \<Rightarrow> string \<Rightarrow> string \<Rightarrow> u64 \<Rightarrow> Client \<Rightarrow> (meta_err + unit) \<times> Client" where
  "cl_DeleteShardGroup env database policy sid c =
     (case DeleteShardGroup (me_Now env) (Clone (cl_cacheData c)) database policy sid of
        Inl e \<Rightarrow> (Inl e, c)
      | Inr data \<Rightarrow> committed env data () c)"

text \<open>
  \<open>PrecreateShardGroups\<close> visits the policies by position, so that each is read as the earlier steps
  left it. Logging the new group dereferences it, so a missing group panics.
\<close>

definition positions :: "Data \<Rightarrow> (nat \<times> nat) list" where
  "positions data =
     concat (map (\<lambda>i. map (Pair i) [0..<length (db_RetentionPolicies (d_Databases data ! i))]) [0..<length (d_Databases data)])"

definition precreate_one :: "time \<Rightarrow> time \<Rightarrow> string \<Rightarrow> RetentionPolicyInfo \<Rightarrow> Data \<times> bool \<Rightarrow> (Data \<times> bool) res" where
  "precreate_one from_t to_t dbname rp = (\<lambda>(data, changed).
     if length (rp_ShardGroups rp) = 0 then Inr (data, changed)
     else
       let g = last (rp_ShardGroups rp)
       in if \<not> sg_Deleted g \<and> sg_EndTime g < to_t \<and> sg_EndTime g > from_t then
            let nextShardGroupTime = sg_EndTime g + 1
            in if group_at data dbname (rp_Name rp) nextShardGroupTime \<noteq> None then Inr (data, changed)
               else case create_group data dbname (rp_Name rp) nextShardGroupTime [] of
                      Inl e \<Rightarrow> Inr (data, changed)
                    | Inr (None, data) \<Rightarrow> Inl Panic
                    | Inr (Some newGroup, data) \<Rightarrow> Inr (data, True)
          else Inr (data, changed))"

fun precreate_loop :: "time \<Rightarrow> time \<Rightarrow> (nat \<times> nat) list \<Rightarrow> Data \<times> bool \<Rightarrow> (Data \<times> bool) res" where
  "precreate_loop from_t to_t [] s = Inr s"
| "precreate_loop from_t to_t ((i, j) # ps) s =
     (let di = d_Databases (fst s) ! i; rp = db_RetentionPolicies di ! j
      in case precreate_one from_t to_t (db_Name di) rp s of
           Inl e \<Rightarrow> Inl e
         | Inr s \<Rightarrow> precreate_loop from_t to_t ps s)"

definition cl_PrecreateShardGroups :: "meta_env \<Rightarrow> time \<Rightarrow> time \<Rightarrow> Client \<Rightarrow> (meta_err + unit) res \<times> Client" where
  "cl_PrecreateShardGroups env from_t to_t c =
     (let data = Clone (cl_cacheData c)
      in case precreate_loop from_t to_t (positions data) (data, False) of
           Inl e \<Rightarrow> (Inl e, c)
         | Inr (data, changed) \<Rightarrow>
             if changed then (case committed env data () c of (r, c) \<Rightarrow> (Inr r, c)) else (Inr (Inr ()), c))"

definition cl_ShardOwner :: "u64 \<Rightarrow> Client \<Rightarrow> (string \<times> string \<times> ShardGroupInfo) option" where
  "cl_ShardOwner shardID c =
     List.find (\<lambda>(_, _, g). \<not> sg_Deleted g \<and> list_ex (\<lambda>sh. si_ID sh = shardID) (sg_Shards g))
       (concat (map (\<lambda>dbi. concat (map (\<lambda>rpi. map (\<lambda>g. (db_Name dbi, rp_Name rpi, g)) (rp_ShardGroups rpi))
          (db_RetentionPolicies dbi))) (d_Databases (cl_cacheData c))))"

subsection \<open>Queries, subscriptions, the data as a whole\<close>

definition cl_CreateContinuousQuery :: "meta_env \<Rightarrow> string \<Rightarrow> string \<Rightarrow> string \<Rightarrow> Client \<Rightarrow> (meta_err + unit) \<times> Client" where
  "cl_CreateContinuousQuery env database name query c =
     (case CreateContinuousQuery (Clone (cl_cacheData c)) database name query of
        Inl e \<Rightarrow> (Inl e, c)
      | Inr data \<Rightarrow> committed env data () c)"

definition cl_DropContinuousQuery :: "meta_env \<Rightarrow> string \<Rightarrow> string \<Rightarrow> Client \<Rightarrow> (meta_err + unit) \<times> Client" where
  "cl_DropContinuousQuery env database name c =
     (case DropContinuousQuery (Clone (cl_cacheData c)) database name of
        Inl e \<Rightarrow> (Inl e, c)
      | Inr data \<Rightarrow> committed env data () c)"

definition cl_CreateSubscription ::
  "meta_env \<Rightarrow> string \<Rightarrow> string \<Rightarrow> string \<Rightarrow> string \<Rightarrow> string list \<Rightarrow> Client \<Rightarrow> (meta_err + unit) \<times> Client" where
  "cl_CreateSubscription env database rp name mode destinations c =
     (case CreateSubscription (me_urls env) (Clone (cl_cacheData c)) database rp name mode destinations of
        Inl e \<Rightarrow> (Inl e, c)
      | Inr data \<Rightarrow> committed env data () c)"

definition cl_DropSubscription :: "meta_env \<Rightarrow> string \<Rightarrow> string \<Rightarrow> string \<Rightarrow> Client \<Rightarrow> (meta_err + unit) \<times> Client" where
  "cl_DropSubscription env database rp name c =
     (case DropSubscription (Clone (cl_cacheData c)) database rp name of
        Inl e \<Rightarrow> (Inl e, c)
      | Inr data \<Rightarrow> committed env data () c)"

text \<open>\<open>SetData\<close> returns from a failed commit without unlocking the mutex.\<close>

definition cl_SetData :: "meta_env \<Rightarrow> Data \<Rightarrow> Client \<Rightarrow> (meta_err + unit) \<times> Client" where
  "cl_SetData env data c =
     (case commit env (Clone data) c of
        (Some e, c) \<Rightarrow> (Inl e, c\<lparr>cl_locked := True\<rparr>)
      | (None, c) \<Rightarrow> (Inr (), c))"

definition cl_Data :: "Client \<Rightarrow> Data" where
  "cl_Data c = Clone (cl_cacheData c)"

definition cl_MarshalBinary :: "meta_env \<Rightarrow> Client \<Rightarrow> meta_err + u8 list" where
  "cl_MarshalBinary env c = MarshalBinary (me_Marshal env) (cl_cacheData c)"

subsection \<open>Steps of the client\<close>

datatype client_op =
    ClCreateDatabase string
  | ClCreateDatabaseWithRetentionPolicy string "RetentionPolicySpec option"
  | ClCreateRetentionPolicy string RetentionPolicySpec bool
  | ClCreateUser string string bool
  | ClUpdateUser string string
  | ClPruneShardGroups
  | ClCreateShardGroupWithShards string string time "ShardInfo list"
  | ClPrecreateShardGroups time time
  | ClDropDatabase string
  | ClDropRetentionPolicy string string
  | ClUpdateRetentionPolicy string string RetentionPolicyUpdate bool
  | ClDropUser string
  | ClSetPrivilege string string privilege
  | ClSetAdminPrivilege string bool
  | ClDropShard u64
  | ClTruncateShardGroups time
  | ClDeleteShardGroup string string u64
  | ClCreateContinuousQuery string string string
  | ClDropContinuousQuery string string
  | ClCreateSubscription string string string string "string list"
  | ClDropSubscription string string string

text \<open>Whether the call returned without error, and the client afterwards.\<close>

definition outcome :: "(meta_err + 'r) \<times> Client \<Rightarrow> bool \<times> Client" where
  "outcome = (\<lambda>(r, c). (\<not> isl r, c))"

fun call :: "meta_env \<Rightarrow> client_op \<Rightarrow> Client \<Rightarrow> bool \<times> Client" where
  "call env (ClCreateDatabase n) c = outcome (cl_CreateDatabase env n c)"
| "call env (ClCreateDatabaseWithRetentionPolicy n spec) c = outcome (cl_CreateDatabaseWithRetentionPolicy env n spec c)"
| "call env (ClCreateRetentionPolicy db spec dflt) c = outcome (cl_CreateRetentionPolicy env db spec dflt c)"
| "call env (ClCreateUser n pw admin) c = outcome (cl_CreateUser env n pw admin c)"
| "call env (ClUpdateUser n pw) c = outcome (cl_UpdateUser env n pw c)"
| "call env ClPruneShardGroups c = outcome (cl_PruneShardGroups env c)"
| "call env (ClCreateShardGroupWithShards db rp t ss) c = outcome (cl_CreateShardGroupWithShards env db rp t ss c)"
| "call env (ClPrecreateShardGroups from_t to_t) c =
     (case cl_PrecreateShardGroups env from_t to_t c of (Inl e, c) \<Rightarrow> (False, c) | (Inr r, c) \<Rightarrow> (\<not> isl r, c))"
| "call env (ClDropDatabase n) c = outcome (cl_DropDatabase env n c)"
| "call env (ClDropRetentionPolicy db n) c = outcome (cl_DropRetentionPolicy env db n c)"
| "call env (ClUpdateRetentionPolicy db n rpu dflt) c = outcome (cl_UpdateRetentionPolicy env db n rpu dflt c)"
| "call env (ClDropUser n) c = outcome (cl_DropUser env n c)"
| "call env (ClSetPrivilege n db p) c = outcome (cl_SetPrivilege env n db p c)"
| "call env (ClSetAdminPrivilege n a) c = outcome (cl_SetAdminPrivilege env n a c)"
| "call env (ClDropShard i) c = outcome (cl_DropShard env i c)"
| "call env (ClTruncateShardGroups t) c = outcome (cl_TruncateShardGroups env t c)"
| "call env (ClDeleteShardGroup db rp i) c = outcome (cl_DeleteShardGroup env db rp i c)"
| "call env (ClCreateContinuousQuery db n q) c = outcome (cl_CreateContinuousQuery env db n q c)"
| "call env (ClDropContinuousQuery db n) c = outcome (cl_DropContinuousQuery env db n c)"
| "call env (ClCreateSubscription db rp n m ds) c = outcome (cl_CreateSubscription env db rp n m ds c)"
| "call env (ClDropSubscription db rp n) c = outcome (cl_DropSubscription env db rp n c)"

text \<open>What the callers give, as in \<open>op_ok\<close>.\<close>

definition spec_ok :: "RetentionPolicySpec \<Rightarrow> bool" where
  "spec_ok spec \<longleftrightarrow> rps_ShardGroupDuration spec \<le> MaxDuration"

fun call_ok :: "meta_env \<Rightarrow> client_op \<Rightarrow> Data \<Rightarrow> bool" where
  "call_ok env (ClCreateDatabaseWithRetentionPolicy n spec) d = (case spec of None \<Rightarrow> True | Some s \<Rightarrow> spec_ok s)"
| "call_ok env (ClCreateRetentionPolicy db spec dflt) d = spec_ok spec"
| "call_ok env (ClCreateShardGroupWithShards db rp t ss) d = op_ok (OpCreateShardGroup db rp t ss) d"
| "call_ok env (ClPrecreateShardGroups from_t to_t) d =
     (time_Unix MinNanoTime \<le> from_t \<and> to_t \<le> time_Unix MaxNanoTime \<and>
      unat (d_MaxShardGroupID d) + length (positions d) + 1 < 2 ^ 64 \<and> unat (d_MaxShardID d) + length (positions d) + 1 < 2 ^ 64)"
| "call_ok env (ClUpdateRetentionPolicy db n rpu dflt) d = op_ok (OpUpdateRetentionPolicy db n rpu dflt) d"
| "call_ok env (ClDropShard i) d = (me_Now env \<noteq> 0)"
| "call_ok env (ClDeleteShardGroup db rp i) d = (me_Now env \<noteq> 0)"
| "call_ok env (ClTruncateShardGroups t) d = (0 < t)"
| "call_ok env _ d = True"

text \<open>
  The specification of one call: it leaves the data and the store alone, or it commits the result of
  some catalogue operations. A call that fails does the former.
\<close>

definition unchanged :: "Client \<Rightarrow> Client \<Rightarrow> bool" where
  "unchanged c c' \<longleftrightarrow> (\<exists>ac. c' = c\<lparr>cl_authCache := ac\<rparr>)"

definition commits :: "meta_env \<Rightarrow> meta_op list \<Rightarrow> Client \<Rightarrow> Client \<Rightarrow> bool" where
  "commits env ops c c' \<longleftrightarrow>
     run_ok (me_urls env) ops (cl_cacheData c) \<and>
     (\<exists>data buf ac. data = (run (me_urls env) ops (cl_cacheData c))\<lparr>d_Index := d_Index (cl_cacheData c) + 1\<rparr> \<and>
       MarshalBinary (me_Marshal env) data = Inr buf \<and>
       c' = c\<lparr>cl_authCache := ac, cl_cacheData := data, cl_store := Some buf, cl_changed := Suc (cl_changed c)\<rparr>)"

definition call_spec :: "meta_env \<Rightarrow> Client \<Rightarrow> bool \<times> Client \<Rightarrow> bool" where
  "call_spec env c = (\<lambda>(ok, c'). unchanged c c' \<or> ok \<and> (\<exists>ops. commits env ops c c'))"

lemma call_spec_same [simp]: "call_spec env c (ok, c)"
  unfolding call_spec_def unchanged_def by (auto intro: exI [of _ "cl_authCache c"])

lemma outcome_simps [simp]: "outcome (Inl e, c) = (False, c)" "outcome (Inr r, c) = (True, c)"
  by (simp_all add: outcome_def)

lemma commit_cases:
  obtains (failed) e where "commit env data c = (Some e, c)"
  | (saved) buf where "MarshalBinary (me_Marshal env) (data\<lparr>d_Index := d_Index data + 1\<rparr>) = Inr buf"
      "commit env data c = (None, c\<lparr>cl_store := Some buf, cl_cacheData := data\<lparr>d_Index := d_Index data + 1\<rparr>,
         cl_changed := Suc (cl_changed c)\<rparr>)"
proof (cases "MarshalBinary (me_Marshal env) (data\<lparr>d_Index := d_Index data + 1\<rparr>)")
  case (Inl e)
  then show ?thesis by (intro failed [of e]) (simp add: commit_def snapshot_def Let_def)
next
  case (Inr buf)
  then show ?thesis
    using failed saved [OF Inr] by (cases "me_Update env") (simp_all add: commit_def snapshot_def Let_def)
qed

lemma call_spec_committed:
  assumes "run_ok (me_urls env) ops (cl_cacheData c)" "data = run (me_urls env) ops (cl_cacheData c)"
    and "d_Index data = d_Index (cl_cacheData c)" "c1 = c\<lparr>cl_authCache := ac\<rparr>"
  shows "call_spec env c (outcome (committed env data r c1))"
proof (cases rule: commit_cases [of env data c1])
  case (failed e)
  then show ?thesis using assms(4) by (auto simp: committed_def call_spec_def unchanged_def)
next
  case (saved buf)
  have "commits env ops c (c1\<lparr>cl_store := Some buf, cl_cacheData := data\<lparr>d_Index := d_Index data + 1\<rparr>, cl_changed := Suc (cl_changed c1)\<rparr>)"
    unfolding commits_def using assms saved(1)
    by (intro conjI exI [of _ "data\<lparr>d_Index := d_Index data + 1\<rparr>"] exI [of _ buf] exI [of _ ac]) simp_all
  then show ?thesis using saved(2) by (auto simp: committed_def call_spec_def)
qed

subsection \<open>Every method meets the specification\<close>

lemma Clone_ok: "catalogue_ok d \<Longrightarrow> Clone d = d"
  by (rule Clone_contents) (auto simp: catalogue_ok_def user_ok_def list_all_iff)

lemma upd_Index [simp]:
  "d_Index (upd_db n f d) = d_Index d" "d_Index (upd_rp n p g d) = d_Index d" "d_Index (upd_user u k d) = d_Index d"
  "d_Index (map_policies g d) = d_Index d"
  by (simp_all add: upd_db_def upd_rp_def upd_user_def map_policies_def)

lemma perform_Index: "d_Index (result d (perform ul op d)) = d_Index d"
proof (cases "\<exists>db rp t ss. op = OpCreateShardGroup db rp t ss")
  case True
  then obtain db rp t ss where op: "op = OpCreateShardGroup db rp t ss" by blast
  show ?thesis
    by (cases "find_policy d db rp") (simp_all add: op CreateShardGroup_cases result_def, simp add: CreateShardGroup_def)
next
  case False
  then show ?thesis
    by (cases op; auto simp: result_def perform_defs Let_def split: option.splits sum.splits list.splits if_splits)
qed

lemma run_Index: "d_Index (run ul ops d) = d_Index d"
  by (induction ops arbitrary: d) (simp_all add: perform_Index)

lemma run_append: "run ul (xs @ ys) d = run ul ys (run ul xs d)"
  by (induction xs arbitrary: d) simp_all

lemma run_ok_append: "run_ok ul (xs @ ys) d = (run_ok ul xs d \<and> run_ok ul ys (run ul xs d))"
  by (induction xs arbitrary: d) simp_all

lemma run_keeps_ok: "run_ok ul ops d \<Longrightarrow> catalogue_ok d \<Longrightarrow> ids_ok d \<Longrightarrow> catalogue_ok (run ul ops d) \<and> ids_ok (run ul ops d)"
  by (induction ops arbitrary: d) (simp_all add: perform_ok perform_ids_ok)

text \<open>A method that performs one operation and commits.\<close>

lemma call_spec_one:
  assumes "op_ok op (cl_cacheData c)" "perform (me_urls env) op (cl_cacheData c) = Inr data" "c1 = c\<lparr>cl_authCache := ac\<rparr>"
  shows "call_spec env c (outcome (committed env data r c1))"
proof (rule call_spec_committed [of env "[op]", OF _ _ _ assms(3)])
  show "d_Index data = d_Index (cl_cacheData c)"
    using perform_Index [of "cl_cacheData c" "me_urls env" op] assms(2) by (simp add: result_def)
qed (use assms in \<open>simp_all add: result_def\<close>)

lemma call_spec_perform:
  assumes "catalogue_ok (cl_cacheData c)" "op_ok op (cl_cacheData c)"
  shows "call_spec env c (outcome (case perform (me_urls env) op (Clone (cl_cacheData c)) of
     Inl e \<Rightarrow> (Inl e, c) | Inr data \<Rightarrow> committed env data r c))"
proof (cases "perform (me_urls env) op (cl_cacheData c)")
  case (Inr data)
  then show ?thesis
    using call_spec_one [OF assms(2) Inr, of c "cl_authCache c" r] by (simp add: Clone_ok [OF assms(1)])
qed (simp add: Clone_ok [OF assms(1)])

lemma call_spec_run:
  assumes "run_ok (me_urls env) ops (cl_cacheData c)" "data = run (me_urls env) ops (cl_cacheData c)"
  shows "call_spec env c (outcome (committed env data r c))"
  using assms by (intro call_spec_committed [of env ops c data c "cl_authCache c"]) (simp_all add: run_Index)

lemma call_spec_CreateDatabase:
  assumes "catalogue_ok (cl_cacheData c)"
  shows "call_spec env c (outcome (cl_CreateDatabase env n c))"
proof -
  let ?d = "cl_cacheData c" and ?rp = "OpCreateRetentionPolicy n (Some DefaultRetentionPolicyInfo) True"
  have ok: "op_ok ?rp d" for d
    by (simp add: DefaultRetentionPolicyInfo_def NewRetentionPolicyInfo_def MaxDuration_def)
  show ?thesis
  proof (cases "CreateDatabase ?d n")
    case (Inr d1)
    have one: "call_spec env c (outcome (committed env d1 r c))" for r :: "DatabaseInfo option"
      by (rule call_spec_run [of _ "[OpCreateDatabase n]"]) (simp_all add: Inr result_def)
    have two: "call_spec env c (outcome (committed env d2 r c))"
      if "CreateRetentionPolicy d1 n (Some DefaultRetentionPolicyInfo) True = Inr d2" for d2 and r :: "DatabaseInfo option"
      by (rule call_spec_run [of _ "[OpCreateDatabase n, ?rp]"]) (use that ok in \<open>simp_all add: Inr result_def\<close>)
    show ?thesis
      using one two Inr by (auto simp: cl_CreateDatabase_def Clone_ok [OF assms] Let_def split: option.splits sum.splits)
  qed (simp add: cl_CreateDatabase_def Clone_ok [OF assms] Let_def split: option.splits)
qed

lemma spec_policy_ok:
  assumes "spec_ok spec"
  shows "op_ok (OpCreateRetentionPolicy n (Some (rps_NewRetentionPolicyInfo spec)) dflt) d"
  using assms NormalisedShardDuration_max
  by (simp add: spec_ok_def rps_NewRetentionPolicyInfo_def rp_Apply_def Let_def split: option.splits)

lemma call_spec_CreateDatabaseWithRetentionPolicy:
  assumes "catalogue_ok (cl_cacheData c)" "case spec of None \<Rightarrow> True | Some s \<Rightarrow> spec_ok s"
  shows "call_spec env c (outcome (cl_CreateDatabaseWithRetentionPolicy env n spec c))"
proof (cases spec)
  case (Some s)
  let ?d = "cl_cacheData c"
  let ?rp = "OpCreateRetentionPolicy n (Some (rps_NewRetentionPolicyInfo s)) True"
  define db_ops where "db_ops = (if Database ?d n = None then [OpCreateDatabase n] else [])"
  have rp: "op_ok ?rp d" for d using assms(2) Some spec_policy_ok by simp
  show ?thesis
  proof (cases "if Database ?d n = None then CreateDatabase ?d n else Inr ?d")
    case (Inr d1)
    then have d1: "d1 = run (me_urls env) db_ops ?d" "run_ok (me_urls env) db_ops ?d"
      by (auto simp: db_ops_def result_def)
    have one: "call_spec env c (outcome (committed env d1 r c))" for r :: "DatabaseInfo option"
      by (rule call_spec_run [OF d1(2,1)])
    have two: "call_spec env c (outcome (committed env d2 r c))"
      if "CreateRetentionPolicy d1 n (Some (rps_NewRetentionPolicyInfo s)) True = Inr d2" for d2 and r :: "DatabaseInfo option"
      by (rule call_spec_run [of _ "db_ops @ [?rp]"])
        (use that rp d1 in \<open>simp_all add: run_ok_append run_append result_def\<close>)
    show ?thesis
      using one two Inr
      unfolding cl_CreateDatabaseWithRetentionPolicy_def Some Let_def Clone_ok [OF assms(1)] option.case(2) Inr sum.case(2)
      by (auto split: sum.splits)
  qed (simp add: cl_CreateDatabaseWithRetentionPolicy_def Some Clone_ok [OF assms(1)] Let_def)
qed (simp add: cl_CreateDatabaseWithRetentionPolicy_def)

lemma call_spec_CreateRetentionPolicy:
  assumes "catalogue_ok (cl_cacheData c)" "spec_ok spec"
  shows "call_spec env c (outcome (cl_CreateRetentionPolicy env db spec dflt c))"
  by (auto simp: cl_CreateRetentionPolicy_def Clone_ok [OF assms(1)] Let_def split: sum.splits
      intro!: call_spec_one [OF spec_policy_ok [OF assms(2)], where ac = "cl_authCache c"])

lemma call_spec_CreateUser:
  assumes "catalogue_ok (cl_cacheData c)"
  shows "call_spec env c (outcome (cl_CreateUser env n pw admin c))"
  by (auto simp: cl_CreateUser_def Clone_ok [OF assms] Let_def split: sum.splits option.splits
      intro!: call_spec_one [where op = "OpCreateUser n (projr (me_GenerateFromPassword env pw)) admin" and ac = "cl_authCache c"])

lemma call_spec_UpdateUser:
  assumes "catalogue_ok (cl_cacheData c)"
  shows "call_spec env c (outcome (cl_UpdateUser env n pw c))"
  by (auto simp: cl_UpdateUser_def Clone_ok [OF assms] Let_def split: sum.splits option.splits
      intro!: call_spec_one [where op = "OpUpdateUser n (projr (me_GenerateFromPassword env pw))" and ac = "AList.delete n (cl_authCache c)"])

lemma call_spec_PruneShardGroups:
  assumes "catalogue_ok (cl_cacheData c)"
  shows "call_spec env c (outcome (cl_PruneShardGroups env c))"
  by (auto simp: cl_PruneShardGroups_def Clone_ok [OF assms] Let_def split: prod.splits
      intro!: call_spec_one [where op = "OpPruneShardGroups (me_Now env + ShardGroupDeletedExpiration)" and ac = "cl_authCache c"])

lemma create_group_Inr:
  "create_group d db rp t ss = Inr (sg, d') \<Longrightarrow> CreateShardGroup d db rp t ss = Inr d'"
  by (auto simp: create_group_def split: if_splits sum.splits option.splits)

lemma call_spec_CreateShardGroupWithShards:
  assumes "catalogue_ok (cl_cacheData c)" "op_ok (OpCreateShardGroup db rp t ss) (cl_cacheData c)"
  shows "call_spec env c (outcome (cl_CreateShardGroupWithShards env db rp t ss c))"
  by (auto simp: cl_CreateShardGroupWithShards_def create_group_locked_def Clone_ok [OF assms(1)] Let_def
      split: sum.splits option.splits prod.splits
      intro!: call_spec_one [OF assms(2), where ac = "cl_authCache c"] create_group_Inr)

lemma CreateShardGroup_counters:
  assumes "CreateShardGroup d db rp t [] = Inr d'" "unat (d_MaxShardGroupID d) + 1 < 2 ^ 64" "unat (d_MaxShardID d) + 1 < 2 ^ 64"
  shows "unat (d_MaxShardGroupID d') \<le> unat (d_MaxShardGroupID d) + 1 \<and> unat (d_MaxShardID d') \<le> unat (d_MaxShardID d) + 1"
proof (cases "find_policy d db rp")
  case (Inr rpi)
  then show ?thesis
    using assms unat_succ by (auto simp: CreateShardGroup_cases [OF Inr] next_shard_id_def split: if_splits)
qed (use assms(1) in \<open>simp add: CreateShardGroup_def\<close>)

lemma precreate_one_ops:
  assumes "precreate_one from_t to_t n rp (d, ch) = Inr (d', ch')"
    and "time_Unix MinNanoTime \<le> from_t" "to_t \<le> time_Unix MaxNanoTime"
    and "unat (d_MaxShardGroupID d) + 1 < 2 ^ 64" "unat (d_MaxShardID d) + 1 < 2 ^ 64"
  shows "\<exists>ops. run_ok ul ops d \<and> d' = run ul ops d \<and> unat (d_MaxShardGroupID d') \<le> unat (d_MaxShardGroupID d) + 1 \<and>
    unat (d_MaxShardID d') \<le> unat (d_MaxShardID d) + 1"
proof (cases "d' = d")
  case True
  then show ?thesis by (intro exI [of _ "[]"]) simp
next
  case False
  define t where "t = sg_EndTime (last (rp_ShardGroups rp)) + 1"
  have t: "from_t < t" "t \<le> to_t" and "\<exists>sg. create_group d n (rp_Name rp) t [] = Inr (sg, d')"
    using assms(1) False by (auto simp: precreate_one_def Let_def t_def split: if_splits sum.splits prod.splits option.splits)
  then have new: "CreateShardGroup d n (rp_Name rp) t [] = Inr d'" using create_group_Inr by blast
  have "d_MaxShardGroupID d \<noteq> - 1" "d_MaxShardID d \<noteq> - 1"
    using assms(4,5) by (auto simp: unsigned_minus_1_eq_mask mask_eq_exp_minus_1)
  then have "op_ok (OpCreateShardGroup n (rp_Name rp) t []) d" using t assms(2,3) by simp
  then show ?thesis
    using new CreateShardGroup_counters [OF new assms(4,5)]
    by (intro exI [of _ "[OpCreateShardGroup n (rp_Name rp) t []]"]) (simp add: result_def)
qed

lemma precreate_loop_ops:
  assumes "precreate_loop from_t to_t ps (d, ch) = Inr (d', ch')"
    and "time_Unix MinNanoTime \<le> from_t" "to_t \<le> time_Unix MaxNanoTime"
    and "unat (d_MaxShardGroupID d) + length ps + 1 < 2 ^ 64" "unat (d_MaxShardID d) + length ps + 1 < 2 ^ 64"
  shows "\<exists>ops. run_ok ul ops d \<and> d' = run ul ops d"
  using assms(1,4,5)
proof (induction ps arbitrary: d ch)
  case Nil
  then show ?case by (intro exI [of _ "[]"]) simp
next
  case (Cons p ps)
  obtain i j where p: "p = (i, j)" by (cases p)
  obtain d1 ch1 where one: "precreate_one from_t to_t (db_Name (d_Databases d ! i)) (db_RetentionPolicies (d_Databases d ! i) ! j) (d, ch) = Inr (d1, ch1)"
    and rest: "precreate_loop from_t to_t ps (d1, ch1) = Inr (d', ch')"
    using Cons.prems(1) by (auto simp: p Let_def split: sum.splits)
  obtain ops1 where ops1: "run_ok ul ops1 d" "d1 = run ul ops1 d" "unat (d_MaxShardGroupID d1) \<le> unat (d_MaxShardGroupID d) + 1"
    "unat (d_MaxShardID d1) \<le> unat (d_MaxShardID d) + 1"
    using precreate_one_ops [OF one assms(2,3), of ul] Cons.prems(2,3) by auto
  obtain ops2 where "run_ok ul ops2 d1" "d' = run ul ops2 d1"
    using Cons.IH [OF rest] Cons.prems(2,3) ops1(3,4) by auto
  then show ?case using ops1 by (intro exI [of _ "ops1 @ ops2"]) (simp add: run_ok_append run_append)
qed

lemma call_spec_PrecreateShardGroups:
  assumes "catalogue_ok (cl_cacheData c)" "call_ok env (ClPrecreateShardGroups from_t to_t) (cl_cacheData c)"
  shows "call_spec env c (call env (ClPrecreateShardGroups from_t to_t) c)"
proof (cases "precreate_loop from_t to_t (positions (cl_cacheData c)) (cl_cacheData c, False)")
  case (Inr s)
  obtain data ch where s: "s = (data, ch)" by (cases s)
  obtain ops where "run_ok (me_urls env) ops (cl_cacheData c)" "data = run (me_urls env) ops (cl_cacheData c)"
    using precreate_loop_ops [OF Inr [unfolded s], of "me_urls env"] assms(2) by auto
  then have "call_spec env c (outcome (committed env data () c))" by (rule call_spec_run)
  then show ?thesis
    by (simp add: cl_PrecreateShardGroups_def Clone_ok [OF assms(1)] Let_def Inr s outcome_def split: prod.splits)
qed (simp add: cl_PrecreateShardGroups_def Clone_ok [OF assms(1)] Let_def)

lemma call_meets_spec:
  assumes "catalogue_ok (cl_cacheData c)" "call_ok env op (cl_cacheData c)"
  shows "call_spec env c (call env op c)"
proof (cases op)
  case (ClPrecreateShardGroups from_t to_t)
  then show ?thesis using assms call_spec_PrecreateShardGroups by blast
next
  case (ClDropDatabase n)
  then show ?thesis using call_spec_perform [OF assms(1), of "OpDropDatabase n" env "()"] by (simp add: cl_DropDatabase_def)
next
  case (ClDropRetentionPolicy db n)
  then show ?thesis
    using call_spec_perform [OF assms(1), of "OpDropRetentionPolicy db n" env "()"] by (simp add: cl_DropRetentionPolicy_def)
next
  case (ClUpdateRetentionPolicy db n rpu dflt)
  then show ?thesis
    using assms(2) call_spec_perform [OF assms(1), of "OpUpdateRetentionPolicy db n rpu dflt" env "()"]
    by (simp add: cl_UpdateRetentionPolicy_def)
next
  case (ClDropUser n)
  then show ?thesis using call_spec_perform [OF assms(1), of "OpDropUser n" env "()"] by (simp add: cl_DropUser_def)
next
  case (ClSetPrivilege n db p)
  then show ?thesis using call_spec_perform [OF assms(1), of "OpSetPrivilege n db p" env "()"] by (simp add: cl_SetPrivilege_def)
next
  case (ClSetAdminPrivilege n a)
  then show ?thesis using call_spec_perform [OF assms(1), of "OpSetAdminPrivilege n a" env "()"] by (simp add: cl_SetAdminPrivilege_def)
next
  case (ClDropShard i)
  then show ?thesis
    using assms(2) call_spec_perform [OF assms(1), of "OpDropShard (me_Now env) i" env "()"] by (simp add: cl_DropShard_def)
next
  case (ClTruncateShardGroups t)
  then show ?thesis
    using assms(2) call_spec_perform [OF assms(1), of "OpTruncateShardGroups t" env "()"] by (simp add: cl_TruncateShardGroups_def)
next
  case (ClDeleteShardGroup db rp i)
  then show ?thesis
    using assms(2) call_spec_perform [OF assms(1), of "OpDeleteShardGroup (me_Now env) db rp i" env "()"]
    by (simp add: cl_DeleteShardGroup_def)
next
  case (ClCreateContinuousQuery db n q)
  then show ?thesis
    using call_spec_perform [OF assms(1), of "OpCreateContinuousQuery db n q" env "()"] by (simp add: cl_CreateContinuousQuery_def)
next
  case (ClDropContinuousQuery db n)
  then show ?thesis
    using call_spec_perform [OF assms(1), of "OpDropContinuousQuery db n" env "()"] by (simp add: cl_DropContinuousQuery_def)
next
  case (ClCreateSubscription db rp n m ds)
  then show ?thesis
    using call_spec_perform [OF assms(1), of "OpCreateSubscription db rp n m ds" env "()"] by (simp add: cl_CreateSubscription_def)
next
  case (ClDropSubscription db rp n)
  then show ?thesis
    using call_spec_perform [OF assms(1), of "OpDropSubscription db rp n" env "()"] by (simp add: cl_DropSubscription_def)
qed (use assms in \<open>simp_all add: call_spec_CreateDatabase call_spec_CreateDatabaseWithRetentionPolicy
    call_spec_CreateRetentionPolicy call_spec_CreateUser call_spec_UpdateUser call_spec_PruneShardGroups
    call_spec_CreateShardGroupWithShards del: op_ok.simps\<close>)

subsection \<open>Runs of a client\<close>

text \<open>A client opened on an empty store, and any calls after that; each call has its own environment.\<close>

inductive client_reachable :: "(pb_Data \<Rightarrow> meta_err + u8 list) \<Rightarrow> Client \<Rightarrow> bool" where
  reach_open: "me_Marshal env = m \<Longrightarrow> cl_Open env (NewClient cluster auto None) = (None, c) \<Longrightarrow> client_reachable m c"
| reach_call: "client_reachable m c \<Longrightarrow> me_Marshal env = m \<Longrightarrow> call_ok env op (cl_cacheData c) \<Longrightarrow>
    client_reachable m (snd (call env op c))"

definition consistent :: "(pb_Data \<Rightarrow> meta_err + u8 list) \<Rightarrow> Client \<Rightarrow> bool" where
  "consistent m c \<longleftrightarrow> catalogue_ok (cl_cacheData c) \<and> ids_ok (cl_cacheData c) \<and>
     (\<exists>buf. cl_store c = Some buf \<and> MarshalBinary m (cl_cacheData c) = Inr buf)"

lemma catalogue_ok_Index [simp]: "catalogue_ok (d\<lparr>d_Index := i\<rparr>) = catalogue_ok d" "ids_ok (d\<lparr>d_Index := i\<rparr>) = ids_ok d"
  by (simp_all add: catalogue_ok_def hasAdminUser_def ids_ok_def all_groups_def)

lemma call_consistent:
  assumes "consistent (me_Marshal env) c" "call_ok env op (cl_cacheData c)"
  shows "consistent (me_Marshal env) (snd (call env op c))"
proof -
  obtain ok c' where call: "call env op c = (ok, c')" by (cases "call env op c")
  have "call_spec env c (ok, c')" using call_meets_spec [of c env op] assms by (simp add: consistent_def call)
  then consider "unchanged c c'" | ops where "commits env ops c c'" by (auto simp: call_spec_def)
  then show ?thesis
  proof cases
    case 1
    then show ?thesis using assms(1) by (auto simp: call unchanged_def consistent_def)
  next
    case 2
    then show ?thesis using assms(1) run_keeps_ok by (auto simp: call commits_def consistent_def)
  qed
qed

lemma client_reachable_consistent: "client_reachable m c \<Longrightarrow> consistent m c"
proof (induction rule: client_reachable.induct)
  case (reach_open env m cluster auto c)
  have "reachable sample_urls (empty_data cluster)" by (rule reach_empty)
  then have "catalogue_ok (empty_data cluster) \<and> ids_ok (empty_data cluster)" by (rule reachable_ok)
  moreover have "cl_cacheData c = empty_data cluster" "\<exists>buf. cl_store c = Some buf \<and> MarshalBinary m (empty_data cluster) = Inr buf"
    using reach_open
    by (auto simp: cl_Open_def load_def NewClient_def snapshot_def empty_data_def split: option.splits sum.splits if_splits)
  ultimately show ?case by (simp add: consistent_def)
next
  case (reach_call m c env op)
  then show ?case using call_consistent by blast
qed

subsection \<open>Properties\<close>



definition sample_env :: "(u8 list \<Rightarrow> meta_err + pb_Data) \<Rightarrow> meta_env" where
  "sample_env unmarshal =
     \<lparr>me_Now = unix_epoch, me_Marshal = (\<lambda>_. Inr [1]), me_Unmarshal = unmarshal, me_Update = None, me_View = None,
      me_urls = sample_urls, me_GenerateFromPassword = (\<lambda>pw. Inr pw), me_CompareHashAndPassword = (\<lambda>h pw. h = pw),
      me_sha256 = (\<lambda>s. s), me_salt = Inr ''salt''\<rparr>"

definition sample_client :: Client where
  "sample_client = snd (call (sample_env (\<lambda>_. Inl ErrInvalidName)) (ClCreateDatabase ''db'')
     (snd (cl_Open (sample_env (\<lambda>_. Inl ErrInvalidName)) (NewClient 7 True None))))"

lemma sample_client_reachable: "client_reachable (\<lambda>_. Inr [1]) sample_client"
proof -
  let ?env = "sample_env (\<lambda>_. Inl ErrInvalidName)"
  have m: "me_Marshal ?env = (\<lambda>_. Inr [1])" by (simp add: sample_env_def)
  have "cl_Open ?env (NewClient 7 True None) = (None, snd (cl_Open ?env (NewClient 7 True None)))"
    by (simp add: cl_Open_def load_def NewClient_def snapshot_def sample_env_def MarshalBinary_def)
  from reach_open [OF m this] show ?thesis
    unfolding sample_client_def by (intro reach_call [OF _ m]) simp_all
qed





end
