(* ===== verification/MetaAuth.thy ===== *)
theory MetaAuth
  imports MetaClient
begin

text \<open>
  Authentication and authorization: \<open>Client.Authenticate\<close> of \<open>src/backend/v1/services/meta/client.go\<close> with
  its cache of salted hashes, \<open>query_authorizer.go\<close>, \<open>write_authorizer.go\<close>, and the leases of \<open>data.go\<close>.
\<close>

subsection \<open>Authenticate\<close>

definition hashWithSalt :: "meta_env \<Rightarrow> string \<Rightarrow> string \<Rightarrow> string" where
  "hashWithSalt env salt password = me_sha256 env (salt @ password)"

definition saltedHash :: "meta_env \<Rightarrow> string \<Rightarrow> meta_err + string \<times> string" where
  "saltedHash env password =
     (case me_salt env of Inl e \<Rightarrow> Inl e | Inr salt \<Rightarrow> Inr (salt, hashWithSalt env salt password))"

text \<open>
  The method takes the mutex to find the user, to read the cache and to write the cache. \<open>between1\<close>
  and \<open>between2\<close> are what other goroutines do before the second and the third time; the user found
  first is kept.
\<close>

definition Authenticate ::
  "meta_env \<Rightarrow> (Client \<Rightarrow> Client) \<Rightarrow> (Client \<Rightarrow> Client) \<Rightarrow> string \<Rightarrow> string \<Rightarrow> Client \<Rightarrow> (meta_err + UserInfo) \<times> Client" where
  "Authenticate env between1 between2 username password c =
     (case user (cl_cacheData c) username of
        None \<Rightarrow> (Inl ErrUserNotFound, c)
      | Some userInfo \<Rightarrow>
          let c = between1 c
          in if (case map_of (cl_authCache c) username of
                   Some au \<Rightarrow> hashWithSalt env (au_salt au) password = au_hash au
                 | None \<Rightarrow> False)
             then (Inr userInfo, c)
             else if \<not> me_CompareHashAndPassword env (u_Hash userInfo) password then (Inl ErrAuthenticate, c)
             else case saltedHash env password of
                    Inl e \<Rightarrow> (Inl e, c)
                  | Inr (salt, hashed) \<Rightarrow>
                      let c = between2 c
                      in (Inr userInfo,
                          c\<lparr>cl_authCache := AList.update username
                              \<lparr>au_bhash = u_Hash userInfo, au_salt = salt, au_hash = hashed\<rparr> (cl_authCache c)\<rparr>))"

text \<open>The cache agrees with the stored hash: it accepts only passwords that the hash accepts.\<close>

definition cache_sound :: "meta_env \<Rightarrow> Client \<Rightarrow> string \<Rightarrow> bool" where
  "cache_sound env c username \<longleftrightarrow>
     (\<forall>au ui pw. map_of (cl_authCache c) username = Some au \<longrightarrow> user (cl_cacheData c) username = Some ui \<longrightarrow>
        hashWithSalt env (au_salt au) pw = au_hash au \<longrightarrow> me_CompareHashAndPassword env (u_Hash ui) pw)"



lemma commit_authCache: "cl_authCache (snd (committed env data r c)) = cl_authCache c"
  by (cases rule: commit_cases [of env data c]) (simp_all add: committed_def)

lemma committed_Inr:
  "committed env data r c = (Inr r', c') \<Longrightarrow> d_Users (cl_cacheData c') = d_Users data \<and> cl_authCache c' = cl_authCache c"
  using commit_authCache [of env data r c]
  by (cases rule: commit_cases [of env data c]) (auto simp: committed_def)

lemma find_Some_keys: "k \<in> key ` set xs \<Longrightarrow> \<exists>x. find (\<lambda>x. key x = k) xs = Some x"
  using find_None_iff_keys [of key k xs] by (cases "find (\<lambda>x. key x = k) xs") auto

lemma CreateUser_keeps_cache:
  assumes "cl_CreateUser env u pw admin c = (Inr r, c')"
  shows "cl_authCache c' = cl_authCache c \<and> (\<exists>ui. user (cl_cacheData c') u = Some ui)"
proof (cases "user (Clone (cl_cacheData c)) u")
  case None
  then obtain hash data where new: "CreateUser (Clone (cl_cacheData c)) u hash admin = Inr data"
    and com: "committed env data (user data u) c = (Inr r, c')"
    using assms by (auto simp: cl_CreateUser_def Let_def split: sum.splits)
  have "u \<in> u_Name ` set (d_Users data)"
    using new by (auto simp: CreateUser_def new_user_def split: if_splits)
  then show ?thesis using committed_Inr [OF com] find_Some_keys unfolding user_def by metis
next
  case (Some ui)
  then have "c' = c" using assms by (auto simp: cl_CreateUser_def Let_def split: if_splits)
  moreover have "map u_Name (d_Users (Clone (cl_cacheData c))) = map u_Name (d_Users (cl_cacheData c))"
    by (simp add: Clone_def CloneUsers_def u_clone_def)
  ultimately show ?thesis
    using Some find_SomeD [of "\<lambda>x. u_Name x = u" "d_Users (Clone (cl_cacheData c))" ui] find_Some_keys [of u u_Name]
    unfolding user_def by (metis image_eqI list.set_map)
qed

lemma UpdateUser_keeps_user:
  assumes "cl_UpdateUser env u pw c = (Inr (), c')"
  shows "\<exists>ui. user (cl_cacheData c') u = Some ui"
proof -
  obtain hash data c1 where upd: "UpdateUser (Clone (cl_cacheData c)) u hash = Inr data"
    and com: "committed env data () c1 = (Inr (), c')"
    using assms by (auto simp: cl_UpdateUser_def split: sum.splits)
  have "map u_Name (d_Users data) = map u_Name (d_Users (Clone (cl_cacheData c)))"
    using upd by (auto simp: UpdateUser_def upd_user_def map_update_first split: if_splits)
  moreover have "u \<in> set (map u_Name (d_Users (Clone (cl_cacheData c))))"
    using upd unfolding UpdateUser_def user_def find_None_iff_keys by (simp split: if_splits)
  ultimately have "u \<in> u_Name ` set (d_Users data)" by (metis list.set_map)
  then show ?thesis using committed_Inr [OF com] find_Some_keys unfolding user_def by metis
qed

text \<open>
  C28. The cache outlives the user. When a user whose password is cached is dropped and created again
  with another password, the old password still authenticates.
\<close>

theorem old_password_after_drop:
  assumes "map_of (cl_authCache c) u = Some au" and "hashWithSalt env (au_salt au) pw = au_hash au"
    and "cl_DropUser env u c = (Inr (), c1)" and "cl_CreateUser env u pw2 admin c1 = (Inr r, c2)"
  shows "\<exists>ui. Authenticate env id id u pw c2 = (Inr ui, c2)"
proof -
  have c1: "cl_authCache c1 = cl_authCache c"
    using assms(3) by (auto simp: cl_DropUser_def dest: committed_Inr split: sum.splits)
  have "cl_authCache c2 = cl_authCache c1 \<and> (\<exists>ui. user (cl_cacheData c2) u = Some ui)"
    by (rule CreateUser_keeps_cache [OF assms(4)])
  then show ?thesis using assms(1,2) c1 by (auto simp: Authenticate_def Let_def)
qed

definition sample_cached :: Client where
  "sample_cached = sample_client\<lparr>cl_cacheData := sample_run,
     cl_authCache := [(''root'', \<lparr>au_bhash = ''h'', au_salt = ''salt'', au_hash = ''salth''\<rparr>)]\<rparr>"

theorem old_password_after_drop_witness:
  "\<exists>c1 c2 r ui. cl_DropUser (sample_env (\<lambda>_. Inl ErrInvalidName)) ''root'' sample_cached = (Inr (), c1) \<and>
     cl_CreateUser (sample_env (\<lambda>_. Inl ErrInvalidName)) ''root'' ''new'' False c1 = (Inr r, c2) \<and>
     Authenticate (sample_env (\<lambda>_. Inl ErrInvalidName)) id id ''root'' ''h'' c2 = (Inr ui, c2)"
proof -
  let ?env = "sample_env (\<lambda>_. Inl ErrInvalidName)"
  define c1 where "c1 = snd (cl_DropUser ?env ''root'' sample_cached)"
  define c2 where "c2 = snd (cl_CreateUser ?env ''root'' ''new'' False c1)"
  define r where "r = projr (fst (cl_CreateUser ?env ''root'' ''new'' False c1))"
  have cached: "map_of (cl_authCache sample_cached) ''root'' = Some \<lparr>au_bhash = ''h'', au_salt = ''salt'', au_hash = ''salth''\<rparr>"
    "hashWithSalt ?env (au_salt \<lparr>au_bhash = ''h'', au_salt = ''salt'', au_hash = ''salth''\<rparr>) ''h'' =
      au_hash \<lparr>au_bhash = ''h'', au_salt = ''salt'', au_hash = ''salth''\<rparr>"
    by (simp_all add: sample_cached_def hashWithSalt_def sample_env_def)
  have "fst (cl_DropUser ?env ''root'' sample_cached) = Inr ()" by code_simp
  then have drop: "cl_DropUser ?env ''root'' sample_cached = (Inr (), c1)" by (simp add: c1_def prod_eq_iff)
  have "\<not> isl (fst (cl_CreateUser ?env ''root'' ''new'' False (snd (cl_DropUser ?env ''root'' sample_cached))))" by code_simp
  then have create: "cl_CreateUser ?env ''root'' ''new'' False c1 = (Inr r, c2)"
    unfolding r_def c2_def c1_def [symmetric] by (simp add: prod_eq_iff)
  from old_password_after_drop [OF cached drop create] show ?thesis using drop create by blast
qed

text \<open>
  C29. A password change that falls between the check and the caching of a concurrent authentication
  is undone by it: the old password, cached last, still authenticates.
\<close>

theorem old_password_after_race:
  assumes "user (cl_cacheData c) u = Some ui" and "map_of (cl_authCache c) u = None"
    and "me_CompareHashAndPassword env (u_Hash ui) pw" and "me_salt env = Inr salt"
    and "cl_UpdateUser env u pw2 c = (Inr (), c1)"
    and "Authenticate env id (\<lambda>c. snd (cl_UpdateUser env u pw2 c)) u pw c = (r, c2)"
  shows "\<exists>ui'. Authenticate env id id u pw c2 = (Inr ui', c2)"
proof -
  have "\<exists>ui'. user (cl_cacheData c1) u = Some ui'" by (rule UpdateUser_keeps_user [OF assms(5)])
  moreover have c2: "c2 = c1\<lparr>cl_authCache := AList.update u
      \<lparr>au_bhash = u_Hash ui, au_salt = salt, au_hash = hashWithSalt env salt pw\<rparr> (cl_authCache c1)\<rparr>"
    using assms(6) unfolding Authenticate_def by (simp add: assms Let_def saltedHash_def)
  ultimately show ?thesis by (auto simp: Authenticate_def Let_def update_conv')
qed

theorem old_password_after_race_witness:
  "\<exists>r c2 ui. Authenticate (sample_env (\<lambda>_. Inl ErrInvalidName)) id
       (\<lambda>c. snd (cl_UpdateUser (sample_env (\<lambda>_. Inl ErrInvalidName)) ''root'' ''new'' c)) ''root'' ''h''
       (sample_cached\<lparr>cl_authCache := []\<rparr>) = (r, c2) \<and>
     Authenticate (sample_env (\<lambda>_. Inl ErrInvalidName)) id id ''root'' ''h'' c2 = (Inr ui, c2)"
proof -
  let ?env = "sample_env (\<lambda>_. Inl ErrInvalidName)" and ?c = "sample_cached\<lparr>cl_authCache := []\<rparr>"
  have ui: "user (cl_cacheData ?c) ''root'' = Some (new_user ''root'' ''h'' True)" by code_simp
  have "map_of (cl_authCache ?c) ''root'' = None" "me_CompareHashAndPassword ?env (u_Hash (new_user ''root'' ''h'' True)) ''h''"
    "me_salt ?env = Inr ''salt''"
    by (simp_all add: sample_env_def new_user_def)
  moreover have "fst (cl_UpdateUser ?env ''root'' ''new'' ?c) = Inr ()" by code_simp
  then obtain c1 where "cl_UpdateUser ?env ''root'' ''new'' ?c = (Inr (), c1)" by (metis prod.collapse)
  moreover obtain r c2 where auth: "Authenticate ?env id (\<lambda>c. snd (cl_UpdateUser ?env ''root'' ''new'' c)) ''root'' ''h'' ?c = (r, c2)"
    by fastforce
  ultimately have "\<exists>ui. Authenticate ?env id id ''root'' ''h'' c2 = (Inr ui, c2)"
    by (rule old_password_after_race [OF ui])
  then show ?thesis using auth by blast
qed

subsection \<open>Authorizers\<close>

text \<open>
  A statement of \<open>github.com/influxdata/influxql\<close> is given by what the code asks of it: whether it
  creates an administrator, and the privileges it requires, each either for administrators or on a
  database (the empty name stands for the database of the query).
\<close>

record exec_privilege =
  ep_Admin :: bool
  ep_Name :: string
  ep_Privilege :: privilege

record statement =
  st_CreatesAdmin :: bool
  st_RequiredPrivileges :: "meta_err + exec_privilege list"

definition ErrAuthorize :: "string \<Rightarrow> meta_err" where
  "ErrAuthorize msg = ErrText msg"

fun check_privileges :: "privileges \<Rightarrow> UserInfo \<Rightarrow> string \<Rightarrow> exec_privilege list \<Rightarrow> meta_err option" where
  "check_privileges pc u database [] = None"
| "check_privileges pc u database (p # ps) =
     (if ep_Admin p then Some (ErrAuthorize ''requires admin privilege'')
      else
        let db = (if ep_Name p = '''' then database else ep_Name p)
        in if \<not> u_AuthorizeDatabase pc u (ep_Privilege p) db then Some (ErrAuthorize ''requires privilege'')
           else check_privileges pc u database ps)"

fun check_statements :: "privileges \<Rightarrow> UserInfo \<Rightarrow> string \<Rightarrow> statement list \<Rightarrow> meta_err option" where
  "check_statements pc u database [] = None"
| "check_statements pc u database (stmt # stmts) =
     (case st_RequiredPrivileges stmt of
        Inl e \<Rightarrow> Some e
      | Inr privs \<Rightarrow>
          (case check_privileges pc u database privs of
             Some e \<Rightarrow> Some e
           | None \<Rightarrow> check_statements pc u database stmts))"

definition u_AuthorizeQuery :: "privileges \<Rightarrow> UserInfo \<Rightarrow> string \<Rightarrow> statement list \<Rightarrow> meta_err option" where
  "u_AuthorizeQuery pc u database stmts = (if u_Admin u then None else check_statements pc u database stmts)"

definition qa_AuthorizeQuery :: "privileges \<Rightarrow> Client \<Rightarrow> UserInfo option \<Rightarrow> statement list \<Rightarrow> string \<Rightarrow> meta_err option" where
  "qa_AuthorizeQuery pc c u stmts database =
     (if cl_UserCount c = 0 then
        (if stmts \<noteq> [] \<and> st_CreatesAdmin (hd stmts) then None
         else Some (ErrAuthorize ''create admin user first or disable authentication''))
      else case u of
             None \<Rightarrow> Some (ErrAuthorize ''no user provided'')
           | Some u \<Rightarrow> u_AuthorizeQuery pc u database stmts)"

definition qa_AuthorizeDatabase :: "privileges \<Rightarrow> UserInfo option \<Rightarrow> privilege \<Rightarrow> string \<Rightarrow> meta_err option" where
  "qa_AuthorizeDatabase pc u priv database =
     (case u of
        None \<Rightarrow> Some (ErrAuthorize ''no user provided'')
      | Some u \<Rightarrow> if \<not> u_AuthorizeDatabase pc u priv database then Some (ErrAuthorize ''requires privilege'') else None)"

definition AuthorizeWrite :: "privileges \<Rightarrow> privilege \<Rightarrow> Client \<Rightarrow> string \<Rightarrow> string \<Rightarrow> meta_err option" where
  "AuthorizeWrite pc WritePrivilege c username database =
     (case cl_User username c of
        Inl e \<Rightarrow> Some (ErrAuthorize ''not authorized to write'')
      | Inr u \<Rightarrow> if \<not> u_AuthorizeDatabase pc u WritePrivilege database then Some (ErrAuthorize ''not authorized to write'') else None)"

lemma check_privileges_None:
  "check_privileges pc u database ps = None \<longleftrightarrow>
     (\<forall>p\<in>set ps. \<not> ep_Admin p \<and> u_AuthorizeDatabase pc u (ep_Privilege p) (if ep_Name p = '''' then database else ep_Name p))"
  by (induction ps) (auto simp: Let_def)

lemma check_statements_None:
  "check_statements pc u database stmts = None \<longleftrightarrow>
     (\<forall>s\<in>set stmts. \<exists>ps. st_RequiredPrivileges s = Inr ps \<and> check_privileges pc u database ps = None)"
  by (induction stmts) (auto split: sum.splits option.splits)

text \<open>
  C30. Once there are users, a query is allowed exactly for an administrator and for a user who holds
  every privilege that its statements require, none of which is for administrators only; a user holds
  a privilege on a database through a grant of it or of all privileges there.
\<close>

theorem AuthorizeQuery_iff:
  assumes "cl_UserCount c \<noteq> 0"
  shows "qa_AuthorizeQuery pc c (Some u) stmts database = None \<longleftrightarrow>
    u_Admin u \<or>
    (\<forall>s\<in>set stmts. \<exists>ps. st_RequiredPrivileges s = Inr ps \<and>
       (\<forall>p\<in>set ps. \<not> ep_Admin p \<and>
          (ep_Privilege p = NoPrivileges pc \<or>
           map_of (u_Privileges u) (if ep_Name p = '''' then database else ep_Name p) \<in>
             {Some (ep_Privilege p), Some (AllPrivileges pc)})))"
proof -
  have "u_AuthorizeDatabase pc u p db \<longleftrightarrow> p = NoPrivileges pc \<or> map_of (u_Privileges u) db \<in> {Some p, Some (AllPrivileges pc)}"
    if "\<not> u_Admin u" for p db
    using that by (auto simp: u_AuthorizeDatabase_def split: option.splits)
  then show ?thesis
    using assms
    by (cases "u_Admin u") (simp_all add: qa_AuthorizeQuery_def u_AuthorizeQuery_def check_statements_None check_privileges_None)
qed

theorem AuthorizeQuery_iff_witness:
  "qa_AuthorizeQuery \<lparr>NoPrivileges = 0, AllPrivileges = 3\<rparr> sample_cached (Some (new_user ''u'' ''h'' False))
     [\<lparr>st_CreatesAdmin = False, st_RequiredPrivileges = Inr [\<lparr>ep_Admin = False, ep_Name = '''', ep_Privilege = 1\<rparr>]\<rparr>] ''db'' \<noteq> None"
proof -
  have "cl_UserCount sample_cached \<noteq> 0" by code_simp
  from AuthorizeQuery_iff [OF this] show ?thesis by (simp add: new_user_def)
qed

subsection \<open>Leases\<close>

record Lease =
  ls_Name :: string
  ls_Expiration :: time
  ls_Owner :: u64

record Leases =
  ls_m :: "(string \<times> Lease) list"
  ls_d :: duration

definition NewLeases :: "duration \<Rightarrow> Leases" where
  "NewLeases d = \<lparr>ls_m = [], ls_d = d\<rparr>"

text \<open>The two readings of the clock are parameters. The result tells whether the lease was acquired.\<close>

definition Acquire :: "time \<Rightarrow> time \<Rightarrow> string \<Rightarrow> u64 \<Rightarrow> Leases \<Rightarrow> bool \<times> Lease \<times> Leases" where
  "Acquire now1 now2 name nodeID leases =
     (case map_of (ls_m leases) name of
        Some l \<Rightarrow>
          if now1 > ls_Expiration l \<or> ls_Owner l = nodeID then
            let l = l\<lparr>ls_Expiration := now2 + ls_d leases, ls_Owner := nodeID\<rparr>
            in (True, l, leases\<lparr>ls_m := AList.update name l (ls_m leases)\<rparr>)
          else (False, l, leases)
      | None \<Rightarrow>
          let l = \<lparr>ls_Name = name, ls_Expiration = now1 + ls_d leases, ls_Owner = nodeID\<rparr>
          in (True, l, leases\<lparr>ls_m := AList.update name l (ls_m leases)\<rparr>))"

text \<open>A request: the name, the node, and the two readings of the clock.\<close>

type_synonym request = "string \<times> u64 \<times> time \<times> time"

fun serve :: "request list \<Rightarrow> Leases \<Rightarrow> (request \<times> bool) list" where
  "serve [] ls = []"
| "serve ((name, node, t1, t2) # rs) ls =
     (case Acquire t1 t2 name node ls of (ok, l, ls') \<Rightarrow> ((name, node, t1, t2), ok) # serve rs ls')"

fun clock_runs :: "time \<Rightarrow> request list \<Rightarrow> bool" where
  "clock_runs t [] = True"
| "clock_runs t ((name, node, t1, t2) # rs) = (t \<le> t1 \<and> t1 \<le> t2 \<and> clock_runs t2 rs)"

lemma clock_runs_later: "clock_runs t rs \<Longrightarrow> ((n, node, t1, t2), ok) \<in> set (serve rs ls) \<Longrightarrow> t \<le> t1"
proof (induction rs arbitrary: t ls)
  case (Cons r rs)
  obtain m k s1 s2 where r: "r = (m, k, s1, s2)" by (cases r)
  then show ?case using Cons by (fastforce split: prod.splits)
qed simp

lemma Acquire_other:
  assumes "Acquire t1 t2 m k ls = (ok, l, ls')"
  shows "ls_d ls' = ls_d ls" "m \<noteq> n \<Longrightarrow> map_of (ls_m ls') n = map_of (ls_m ls) n"
  using assms by (auto simp: Acquire_def Let_def update_conv' split: option.splits if_splits)

text \<open>While a lease of one node runs until \<open>x\<close>, no other node acquires it at a time up to \<open>x\<close>.\<close>

lemma lease_excludes:
  assumes "clock_runs t rs" "map_of (ls_m ls) n = Some l" "ls_Owner l = a" "x \<le> ls_Expiration l" "x \<le> t + ls_d ls"
    and "((n, b, t1, t2), True) \<in> set (serve rs ls)" "b \<noteq> a"
  shows "x < t1"
  using assms(1-6)
proof (induction rs arbitrary: t ls l)
  case (Cons r rs)
  obtain m k s1 s2 where r: "r = (m, k, s1, s2)" by (cases r)
  obtain ok l' ls' where acq: "Acquire s1 s2 m k ls = (ok, l', ls')" by (cases "Acquire s1 s2 m k ls")
  have clock: "t \<le> s1" "s1 \<le> s2" "clock_runs s2 rs" using Cons.prems(1) r by simp_all
  have mem: "((n, b, t1, t2), True) = ((m, k, s1, s2), ok) \<or> ((n, b, t1, t2), True) \<in> set (serve rs ls')"
    using Cons.prems(6) r acq by simp
  show ?case
  proof (cases "m = n \<and> k \<noteq> a \<and> ok")
    case True
    then have "x < s1" using acq Cons.prems(2-4) by (auto simp: Acquire_def split: if_splits)
    then show ?thesis using mem clock_runs_later [OF clock(3)] clock(2) by fastforce
  next
    case False
    then have "\<exists>l''. map_of (ls_m ls') n = Some l'' \<and> ls_Owner l'' = a \<and> x \<le> ls_Expiration l''"
      using acq Cons.prems(2-5) Acquire_other(2) [OF acq, of n] clock
      by (cases "m = n") (auto simp: Acquire_def Let_def update_conv' split: if_splits)
    moreover have "x \<le> s2 + ls_d ls'" using Cons.prems(5) clock Acquire_other(1) [OF acq] by simp
    ultimately show ?thesis using Cons.IH [OF clock(3)] mem False assms(7) by auto
  qed
qed simp

text \<open>
  C31. A lease is exclusive: however the requests of the nodes are ordered, when one node has acquired
  a lease with the clock at \<open>t1\<close>, another node that acquires it later does so after \<open>t1\<close> plus the duration
  of the leases.
\<close>

theorem lease_exclusive:
  assumes "clock_runs t ((n, a, t1, t2) # rs)"
    and "serve ((n, a, t1, t2) # rs) ls = ((n, a, t1, t2), True) # rest"
    and "((n, b, s1, s2), True) \<in> set rest" and "b \<noteq> a"
  shows "t1 + ls_d ls < s1"
proof -
  obtain ok l ls' where acq: "Acquire t1 t2 n a ls = (ok, l, ls')" by (cases "Acquire t1 t2 n a ls")
  then have rest: "ok" "rest = serve rs ls'" using assms(2) by simp_all
  have "\<exists>l'. map_of (ls_m ls') n = Some l' \<and> ls_Owner l' = a \<and> t1 + ls_d ls \<le> ls_Expiration l'"
    using acq rest(1) assms(1) by (auto simp: Acquire_def Let_def update_conv' split: option.splits if_splits)
  then obtain l' where "map_of (ls_m ls') n = Some l'" "ls_Owner l' = a" "t1 + ls_d ls \<le> ls_Expiration l'" by blast
  then show ?thesis
    using lease_excludes [of t2 rs ls' n l' a "t1 + ls_d ls" b s1 s2] assms(1,3,4) rest(2) Acquire_other(1) [OF acq] by simp
qed

theorem lease_exclusive_witness:
  "serve [(''a'', 1, 10, 11), (''a'', 2, 12, 12), (''a'', 2, 20, 20)] (NewLeases 5) =
     [((''a'', 1, 10, 11), True), ((''a'', 2, 12, 12), False), ((''a'', 2, 20, 20), True)] \<and>
   10 + ls_d (NewLeases 5) < (20 :: int)"
proof -
  have s: "serve [(''a'', 1, 10, 11), (''a'', 2, 12, 12), (''a'', 2, 20, 20)] (NewLeases 5) =
     [((''a'', 1, 10, 11), True), ((''a'', 2, 12, 12), False), ((''a'', 2, 20, 20), True)]" by code_simp
  moreover have "10 + ls_d (NewLeases 5) < (20 :: int)"
    by (rule lease_exclusive [OF _ s, where t = 0 and b = 2]) (simp_all add: NewLeases_def)
  ultimately show ?thesis by simp
qed

end
