(* ===== verification/TsmValues.thy ===== *)
theory TsmValues
  imports Prelude
begin

text \<open>
  The slices of timestamped values of \<open>src/backend/tsdb/engine/tsm1/encoding.gen.go\<close>: binary search,
  ranges of time, removal of duplicates, and merging. The generated code repeats the same methods for
  \<open>Values\<close> and for one slice type per value type; the definitions here take the method \<open>UnixNano\<close> of the
  elements as a parameter and are instantiated per type.

  Timestamps are only compared, so the model reads them as integers (\<open>sint\<close> of the 64-bit word).
  Methods that work in place are functions on slices where the result shares the array of the
  argument (\<open>Exclude\<close>, \<open>Include\<close>), and on lists of elements otherwise.
\<close>

subsection \<open>Values\<close>

text \<open>A \<open>float64\<close> is kept as its bits.\<close>

datatype Value =
    FloatValue (unixnano: i64) (float_bits: u64)
  | IntegerValue (unixnano: i64) (int_value: i64)
  | UnsignedValue (unixnano: i64) (uint_value: u64)
  | BooleanValue (unixnano: i64) (bool_value: bool)
  | StringValue (unixnano: i64) (string_value: "u8 list")
  | EmptyValue

definition EOF :: i64 where "EOF = 2 ^ 63"

fun UnixNano :: "Value \<Rightarrow> i64" where
  "UnixNano EmptyValue = EOF"
| "UnixNano v = unixnano v"

fun Value_Size :: "Value \<Rightarrow> nat" where
  "Value_Size (FloatValue t x) = 16"
| "Value_Size (IntegerValue t x) = 16"
| "Value_Size (UnsignedValue t x) = 16"
| "Value_Size (BooleanValue t x) = 9"
| "Value_Size (StringValue t x) = 8 + length x"
| "Value_Size EmptyValue = 0"

text \<open>The struct types \<open>FloatValue\<close> to \<open>BooleanValue\<close> hold a timestamp and a value of one type.\<close>

type_synonym 'v tvalue = "i64 \<times> 'v"

definition nano :: "'v tvalue \<Rightarrow> int" where
  "nano v = sint (fst v)"

definition Value_nano :: "Value \<Rightarrow> int" where
  "Value_nano v = sint (UnixNano v)"

subsection \<open>Reading\<close>

definition vs_MinTime :: "('a \<Rightarrow> int) \<Rightarrow> 'a list \<Rightarrow> int res" where
  "vs_MinTime ts a = (if a = [] then Inl Panic else Inr (ts (a ! 0)))"

definition vs_MaxTime :: "('a \<Rightarrow> int) \<Rightarrow> 'a list \<Rightarrow> int res" where
  "vs_MaxTime ts a = (if a = [] then Inl Panic else Inr (ts (a ! (length a - 1))))"

definition vs_Size :: "('a \<Rightarrow> nat) \<Rightarrow> 'a list \<Rightarrow> nat" where
  "vs_Size size_of a = fold (\<lambda>v sz. sz + size_of v) a 0"

text \<open>The loop of \<open>ordered\<close>, of \<open>assertOrdered\<close> and of the test in \<open>Deduplicate\<close>.\<close>

fun ordered_loop :: "('a \<Rightarrow> int) \<Rightarrow> 'a list \<Rightarrow> bool" where
  "ordered_loop ts (x # y # xs) = (if ts x \<ge> ts y then False else ordered_loop ts (y # xs))"
| "ordered_loop ts _ = True"

definition vs_ordered :: "('a \<Rightarrow> int) \<Rightarrow> 'a list \<Rightarrow> bool" where
  "vs_ordered ts a = (if length a \<le> 1 then True else ordered_loop ts a)"

definition vs_assertOrdered :: "('a \<Rightarrow> int) \<Rightarrow> 'a list \<Rightarrow> unit res" where
  "vs_assertOrdered ts a = (if length a \<le> 1 then Inr () else if ordered_loop ts a then Inr () else Inl Panic)"

subsection \<open>Duplicates\<close>

text \<open>
  The second loop of \<open>Deduplicate\<close>: the value at \<open>j\<close> goes to the place of the last kept one when it
  has its timestamp and behind it otherwise.
\<close>

function dedup_loop :: "('a \<Rightarrow> int) \<Rightarrow> nat \<Rightarrow> nat \<Rightarrow> 'a list \<Rightarrow> 'a list \<times> nat" where
  "dedup_loop ts j i a =
     (if j < length a
      then let v = a ! j; i = (if ts v \<noteq> ts (a ! i) then i + 1 else i) in dedup_loop ts (j + 1) i (a[i := v])
      else (a, i))"
  by auto
termination by (relation "measure (\<lambda>(ts, j, i, a). length a - j)") auto

declare dedup_loop.simps [simp del]

definition vs_Deduplicate :: "('a \<Rightarrow> int) \<Rightarrow> 'a list \<Rightarrow> 'a list" where
  "vs_Deduplicate ts a =
     (if length a \<le> 1 then a
      else if ordered_loop ts a then a
      else case dedup_loop ts 1 0 (sort_key ts a) of (a, i) \<Rightarrow> take (i + 1) a)"

subsection \<open>Ranges of time\<close>

text \<open>
  \<open>mid := int(uint(lo+hi) >> 1)\<close>: the sum of two lengths fits into a \<open>uint\<close>, so the division is exact.
\<close>

function search_loop :: "('a \<Rightarrow> int) \<Rightarrow> int \<Rightarrow> 'a list \<Rightarrow> nat \<Rightarrow> nat \<Rightarrow> nat" where
  "search_loop ts v a lo hi =
     (if lo < hi
      then let mid = (lo + hi) div 2
           in if ts (a ! mid) < v then search_loop ts v a (mid + 1) hi else search_loop ts v a lo mid
      else lo)"
  by auto
termination by (relation "measure (\<lambda>(ts, v, a, lo, hi). hi - lo)") auto

declare search_loop.simps [simp del]

definition vs_search :: "('a \<Rightarrow> int) \<Rightarrow> int \<Rightarrow> 'a list \<Rightarrow> nat" where
  "vs_search ts v a = search_loop ts v a 0 (length a)"

definition vs_FindRange :: "('a \<Rightarrow> int) \<Rightarrow> int \<Rightarrow> int \<Rightarrow> 'a list \<Rightarrow> int \<times> int" where
  "vs_FindRange ts mn mx a =
     (if length a = 0 \<or> mn > mx then (- 1, - 1)
      else
        let minVal = ts (a ! 0); maxVal = ts (a ! (length a - 1))
        in if maxVal < mn \<or> minVal > mx then (- 1, - 1)
           else (int (vs_search ts mn a), int (vs_search ts mx a)))"

text \<open>\<open>copy(s[i:], xs)\<close> into the visible part of a slice; \<open>xs\<close> is read before anything is written.\<close>

definition sl_copy :: "nat \<Rightarrow> 'a list \<Rightarrow> 'a slice \<Rightarrow> 'a slice" where
  "sl_copy i xs s =
     (let n = min (length xs) (sl_len s - i)
      in s\<lparr>sl_arr := take i (sl_arr s) @ take n xs @ drop (i + n) (sl_arr s)\<rparr>)"

text \<open>
  What \<open>Exclude\<close> and \<open>Include\<close> do to a slice once they have the two positions; the arrays do it to both
  of their slices. \<open>a[rmax:]\<close> ends at the length of \<open>a\<close>, \<open>a[rmin:rmax]\<close> may reach up to its capacity.
\<close>

definition cut_out :: "nat \<Rightarrow> nat \<Rightarrow> nat \<Rightarrow> 'a slice \<Rightarrow> 'a slice res" where
  "cut_out rmin rmax rest a =
     (if rest > 0
      then rbind (sl_reslice (rmin + rest) a) (\<lambda>b.
             if rmax \<le> sl_len a then Inr (sl_copy rmin (drop rmax (sl_list a)) b) else Inl Panic)
      else sl_reslice rmin a)"

definition vs_Exclude :: "('a \<Rightarrow> int) \<Rightarrow> int \<Rightarrow> int \<Rightarrow> 'a slice \<Rightarrow> 'a slice res" where
  "vs_Exclude ts mn mx a =
     (case vs_FindRange ts mn mx (sl_list a) of (rmin, rmax) \<Rightarrow>
        if rmin = - 1 \<and> rmax = - 1 then Inr a
        else if nat rmax < sl_len a then
          let rmax = (if ts (sl_list a ! nat rmax) = mx then nat rmax + 1 else nat rmax)
          in cut_out (nat rmin) rmax (sl_len a - rmax) a
        else sl_reslice (nat rmin) a)"

definition keep_only :: "nat \<Rightarrow> nat \<Rightarrow> 'a slice \<Rightarrow> 'a slice res" where
  "keep_only rmin rmax a =
     rbind (sl_reslice (rmax - rmin) a) (\<lambda>b. rbind (sl_sub rmin rmax a) (\<lambda>xs. Inr (sl_copy 0 xs b)))"

text \<open>\<open>rmin\<close> is never negative past the first test, so the last branch of the code is dead.\<close>

definition vs_Include :: "('a \<Rightarrow> int) \<Rightarrow> int \<Rightarrow> int \<Rightarrow> 'a slice \<Rightarrow> 'a slice res" where
  "vs_Include ts mn mx a =
     (case vs_FindRange ts mn mx (sl_list a) of (rmin, rmax) \<Rightarrow>
        if rmin = - 1 \<and> rmax = - 1 then Inr nil_slice
        else
          let rmax = (if nat rmax < sl_len a \<and> ts (sl_list a ! nat rmax) = mx then rmax + 1 else rmax)
          in if rmin > - 1 then keep_only (nat rmin) (nat rmax) a else sl_reslice (nat rmax) a)"

subsection \<open>Merging\<close>

function merge_loop :: "('a \<Rightarrow> int) \<Rightarrow> 'a list \<Rightarrow> 'a list \<Rightarrow> 'a list \<Rightarrow> 'a list" where
  "merge_loop ts out a b =
     (if length a > 0 \<and> length b > 0 then
        if ts (a ! 0) < ts (b ! 0) then merge_loop ts (out @ [a ! 0]) (drop 1 a) b
        else if length b > 0 \<and> ts (a ! 0) = ts (b ! 0) then merge_loop ts out (drop 1 a) b
        else merge_loop ts (out @ [b ! 0]) a (drop 1 b)
      else if length a > 0 then out @ a
      else out @ b)"
  by auto
termination by (relation "measure (\<lambda>(ts, out, a, b). length a + length b)") auto

declare merge_loop.simps [simp del]

definition vs_Merge :: "('a \<Rightarrow> int) \<Rightarrow> 'a list \<Rightarrow> 'a list \<Rightarrow> 'a list" where
  "vs_Merge ts a b =
     (if length a = 0 then b
      else if length b = 0 then a
      else
        let a = vs_Deduplicate ts a; b = vs_Deduplicate ts b
        in if ts (a ! (length a - 1)) < ts (b ! 0) then a @ b
           else if ts (b ! (length b - 1)) < ts (a ! 0) then b @ a
           else merge_loop ts [] a b)"

subsection \<open>Order and lookup\<close>

definition increasing :: "('a \<Rightarrow> int) \<Rightarrow> 'a list \<Rightarrow> bool" where
  "increasing ts a = sorted_wrt (\<lambda>x y. ts x < ts y) a"

text \<open>The value at a timestamp; of several, the last.\<close>

definition value_at :: "('a \<Rightarrow> int) \<Rightarrow> 'a list \<Rightarrow> int \<Rightarrow> 'a option" where
  "value_at ts a t = find (\<lambda>x. ts x = t) (rev a)"

lemma ordered_loop_iff: "ordered_loop ts a \<longleftrightarrow> increasing ts a"
proof (induction a rule: ordered_loop.induct)
  case (1 ts x y xs)
  then show ?case by (auto simp: increasing_def)
qed (simp_all add: increasing_def)

lemma vs_ordered_iff: "vs_ordered ts a \<longleftrightarrow> increasing ts a"
  by (auto simp: vs_ordered_def ordered_loop_iff increasing_def le_Suc_eq length_Suc_conv)

lemma increasing_append:
  "increasing ts (a @ b) \<longleftrightarrow> increasing ts a \<and> increasing ts b \<and> (\<forall>x\<in>set a. \<forall>y\<in>set b. ts x < ts y)"
  by (simp add: increasing_def sorted_wrt_append)

lemma increasing_Cons [simp]: "increasing ts (x # a) \<longleftrightarrow> increasing ts a \<and> (\<forall>y\<in>set a. ts x < ts y)" "increasing ts []"
  by (auto simp: increasing_def)

lemma increasing_nth: "increasing ts a \<Longrightarrow> i < j \<Longrightarrow> j < length a \<Longrightarrow> ts (a ! i) < ts (a ! j)"
  unfolding increasing_def by (rule sorted_wrt_nth_less)

lemma value_at_Nil [simp]: "value_at ts [] = (\<lambda>_. None)"
  by (simp add: value_at_def fun_eq_iff)

lemma find_append_option: "find P (xs @ ys) = (case find P xs of Some x \<Rightarrow> Some x | None \<Rightarrow> find P ys)"
  by (induction xs) auto

lemma value_at_append: "value_at ts (a @ b) t = (case value_at ts b t of Some x \<Rightarrow> Some x | None \<Rightarrow> value_at ts a t)"
  unfolding value_at_def by (simp only: rev_append find_append_option)

lemma value_at_Cons: "value_at ts (x # a) t = (case value_at ts a t of Some y \<Rightarrow> Some y | None \<Rightarrow> if ts x = t then Some x else None)"
proof -
  have "value_at ts [x] t = (if ts x = t then Some x else None)" by (simp add: value_at_def)
  from value_at_append [of ts "[x]" a t, unfolded this] show ?thesis by simp
qed

lemma value_at_None_iff: "value_at ts a t = None \<longleftrightarrow> t \<notin> ts ` set a"
  by (auto simp: value_at_def find_None_iff)

text \<open>Two increasing lists with the same lookups are equal.\<close>

lemma increasing_value_at: "increasing ts a \<Longrightarrow> x \<in> set a \<Longrightarrow> value_at ts a (ts x) = Some x"
proof (induction a)
  case (Cons y a)
  have "value_at ts a (ts y) = None" using Cons.prems(1) by (auto simp: value_at_None_iff)
  then show ?case using Cons by (auto simp: value_at_Cons)
qed simp

lemma value_at_SomeD: "value_at ts a t = Some x \<Longrightarrow> x \<in> set a \<and> ts x = t"
proof -
  have "x \<in> set xs \<and> ts x = t" if "find (\<lambda>x. ts x = t) xs = Some x" for xs
    using that by (induction xs) (auto split: if_splits)
  then show "value_at ts a t = Some x \<Longrightarrow> x \<in> set a \<and> ts x = t" unfolding value_at_def by fastforce
qed

lemma increasing_ext:
  assumes "increasing ts a" "increasing ts b" "value_at ts a = value_at ts b"
  shows "a = b"
  using assms
proof (induction a arbitrary: b)
  case Nil
  then have "value_at ts b (ts (hd b)) = None" by (simp flip: Nil.prems(3))
  then show ?case by (cases b) (simp_all add: value_at_None_iff)
next
  case (Cons x a)
  have at: "value_at ts b t = value_at ts (x # a) t" for t using Cons.prems(3) by simp
  obtain y c where b: "b = y # c" using at [of "ts x"] by (cases b) (auto simp: value_at_Cons split: option.splits)
  have x: "value_at ts b (ts x) = Some x" unfolding at using Cons.prems(1) by (intro increasing_value_at) simp_all
  have y: "value_at ts (x # a) (ts y) = Some y"
    unfolding at [symmetric] using Cons.prems(2) b by (intro increasing_value_at) simp_all
  have "x \<in> set b" "y \<in> set (x # a)" using value_at_SomeD [OF x] value_at_SomeD [OF y] by simp_all
  then have xy: "y = x" using Cons.prems(1,2) unfolding b by (auto dest: less_asym)
  have "value_at ts a t = value_at ts c t" for t
  proof (cases "t = ts x")
    case True
    then have "t \<notin> ts ` set a" "t \<notin> ts ` set c" using Cons.prems(1,2) unfolding b xy by auto
    then show ?thesis unfolding value_at_None_iff [symmetric] by simp
  next
    case False
    then show ?thesis using at [of t] unfolding b xy value_at_Cons by (auto split: option.splits)
  qed
  then have "a = c" using Cons.prems(1,2) unfolding b by (intro Cons.IH) (auto simp: fun_eq_iff)
  then show ?case unfolding b xy by simp
qed

subsection \<open>Binary search\<close>

text \<open>
  Whatever the slice holds, the search ends inside it, and a later timestamp never has an earlier
  position.
\<close>

lemma search_loop_step:
  assumes "lo < hi" "mid = (lo + hi) div 2"
  shows "search_loop ts v a lo hi = (if ts (a ! mid) < v then search_loop ts v a (mid + 1) hi else search_loop ts v a lo mid)"
  using assms by (subst search_loop.simps) (simp add: Let_def)

lemma search_loop_bounds: "lo \<le> hi \<Longrightarrow> lo \<le> search_loop ts v a lo hi \<and> search_loop ts v a lo hi \<le> hi"
proof (induction ts v a lo hi rule: search_loop.induct)
  case (1 ts v a lo hi)
  show ?case
  proof (cases "lo < hi")
    case True
    define mid where "mid = (lo + hi) div 2"
    have mid: "lo \<le> mid" "mid < hi" using True by (auto simp: mid_def)
    show ?thesis
      unfolding search_loop_step [OF True mid_def] using 1(1) [OF True mid_def] 1(2) [OF True mid_def] mid by auto
  qed (use 1 in \<open>simp add: search_loop.simps\<close>)
qed

lemma search_loop_mono:
  assumes "v \<le> w" "lo \<le> hi"
  shows "search_loop ts v a lo hi \<le> search_loop ts w a lo hi"
  using assms
proof (induction ts v a lo hi rule: search_loop.induct)
  case (1 ts v a lo hi)
  show ?case
  proof (cases "lo < hi")
    case True
    define mid where "mid = (lo + hi) div 2"
    have mid: "lo \<le> mid" "mid < hi" using True by (auto simp: mid_def)
    note step = search_loop_step [OF True mid_def]
    consider "ts (a ! mid) < v" | "v \<le> ts (a ! mid)" "ts (a ! mid) < w" | "w \<le> ts (a ! mid)" by linarith
    then show ?thesis
    proof cases
      case 1
      then show ?thesis using "1.IH"(1) [OF True mid_def] "1.prems" mid by (simp add: step)
    next
      case 2
      then show ?thesis
        using search_loop_bounds [of lo mid ts v a] search_loop_bounds [of "mid + 1" hi ts w a] mid by (simp add: step)
    next
      case 3
      then show ?thesis using "1.IH"(2) [OF True mid_def] "1.prems" mid by (simp add: step)
    qed
  qed (simp add: search_loop.simps)
qed

lemma vs_search_bound: "vs_search ts v a \<le> length a"
  unfolding vs_search_def using search_loop_bounds [of 0 "length a"] by simp

lemma vs_search_mono: "v \<le> w \<Longrightarrow> vs_search ts v a \<le> vs_search ts w a"
  unfolding vs_search_def by (rule search_loop_mono) simp_all

text \<open>The invariant the code writes next to the loop: before \<open>lo\<close> everything is earlier, from \<open>hi\<close> on nothing is.\<close>

lemma search_loop_split:
  assumes "\<forall>i j. i < j \<longrightarrow> j < length a \<longrightarrow> ts (a ! i) \<le> ts (a ! j)"
    and "lo \<le> hi" "hi \<le> length a"
    and "\<forall>i<lo. ts (a ! i) < v" "\<forall>i<length a. hi \<le> i \<longrightarrow> v \<le> ts (a ! i)"
  shows "(\<forall>i < search_loop ts v a lo hi. ts (a ! i) < v) \<and>
    (\<forall>i<length a. search_loop ts v a lo hi \<le> i \<longrightarrow> v \<le> ts (a ! i))"
  using assms
proof (induction ts v a lo hi rule: search_loop.induct)
  case (1 ts v a lo hi)
  show ?case
  proof (cases "lo < hi")
    case True
    define mid where "mid = (lo + hi) div 2"
    have mid: "lo \<le> mid" "mid < hi" using True by (auto simp: mid_def)
    note step = search_loop_step [OF True mid_def]
    show ?thesis
    proof (cases "ts (a ! mid) < v")
      case less: True
      have "ts (a ! i) < v" if "i < mid + 1" for i
        using 1(3) [rule_format, of i mid] less that mid 1(5) by (cases "i = mid") auto
      then show ?thesis
        unfolding step if_P [OF less] using 1(3,5,7) mid by (intro 1(1) [OF True mid_def less]) simp_all
    next
      case geq: False
      have "v \<le> ts (a ! i)" if "mid \<le> i" "i < length a" for i
        using 1(3) [rule_format, of mid i] geq that mid 1(5) by (cases "i = mid") auto
      then show ?thesis
        unfolding step if_not_P [OF geq] using 1(3,5,6) mid by (intro 1(2) [OF True mid_def geq]) simp_all
    qed
  next
    case False
    then show ?thesis using 1(4,6,7) by (simp add: search_loop.simps)
  qed
qed

lemma vs_search_split:
  assumes "increasing ts a"
  shows "i < vs_search ts v a \<Longrightarrow> ts (a ! i) < v"
    and "i < length a \<Longrightarrow> vs_search ts v a \<le> i \<Longrightarrow> v \<le> ts (a ! i)"
proof -
  have "\<forall>i j. i < j \<longrightarrow> j < length a \<longrightarrow> ts (a ! i) \<le> ts (a ! j)"
    using increasing_nth [OF assms] by (simp add: less_imp_le)
  from search_loop_split [OF this, of 0 "length a" v]
  show "i < vs_search ts v a \<Longrightarrow> ts (a ! i) < v" "i < length a \<Longrightarrow> vs_search ts v a \<le> i \<Longrightarrow> v \<le> ts (a ! i)"
    by (simp_all add: vs_search_def)
qed

lemma take_drop_filter:
  assumes "\<And>i. i < n \<Longrightarrow> P (a ! i)" "\<And>i. n \<le> i \<Longrightarrow> i < length a \<Longrightarrow> \<not> P (a ! i)" "n \<le> length a"
  shows "filter P a = take n a" "filter (\<lambda>x. \<not> P x) a = drop n a"
proof -
  have t: "\<forall>x\<in>set (take n a). P x" using assms(1,3) by (auto simp: in_set_conv_nth)
  have d: "\<forall>x\<in>set (drop n a). \<not> P x" using assms(2) by (auto simp: in_set_conv_nth)
  have "filter P (take n a @ drop n a) = take n a" "filter (\<lambda>x. \<not> P x) (take n a @ drop n a) = drop n a"
    unfolding filter_append using t d by (simp_all add: filter_empty_conv filter_id_conv)
  then show "filter P a = take n a" "filter (\<lambda>x. \<not> P x) a = drop n a" by simp_all
qed

lemma vs_search_filter:
  assumes "increasing ts a"
  shows "filter (\<lambda>x. ts x < v) a = take (vs_search ts v a) a" "filter (\<lambda>x. v \<le> ts x) a = drop (vs_search ts v a) a"
  using take_drop_filter [of "vs_search ts v a" "\<lambda>x. ts x < v" a] vs_search_split [OF assms, where v = v] vs_search_bound [of ts v a]
  by (force simp: not_less)+

subsection \<open>Exclude and Include\<close>

text \<open>The second position once \<open>rmax++\<close> has had its chance: the first position after every timestamp up to \<open>mx\<close>.\<close>

definition past :: "('a \<Rightarrow> int) \<Rightarrow> int \<Rightarrow> 'a list \<Rightarrow> nat" where
  "past ts mx a = (let i = vs_search ts mx a in if i < length a \<and> ts (a ! i) = mx then i + 1 else i)"

lemma past_bounds: "mn \<le> mx \<Longrightarrow> vs_search ts mn a \<le> past ts mx a" "past ts mx a \<le> length a"
  using vs_search_mono [of mn mx ts a] vs_search_bound [of ts mx a] by (auto simp: past_def Let_def)

lemma past_split:
  assumes "increasing ts a"
  shows "i < past ts mx a \<Longrightarrow> ts (a ! i) \<le> mx"
    and "i < length a \<Longrightarrow> past ts mx a \<le> i \<Longrightarrow> mx < ts (a ! i)"
proof -
  let ?n = "vs_search ts mx a"
  show "ts (a ! i) \<le> mx" if "i < past ts mx a"
    using that vs_search_split(1) [OF assms, of i mx] by (cases "i = ?n") (auto simp: past_def Let_def split: if_splits)
  show "mx < ts (a ! i)" if i: "i < length a" "past ts mx a \<le> i"
  proof (cases "i = ?n")
    case True
    then show ?thesis using i vs_search_split(2) [OF assms i(1), of mx] by (auto simp: past_def Let_def split: if_splits)
  next
    case False
    then have n: "?n < i" using i by (auto simp: past_def Let_def split: if_splits)
    then have "mx \<le> ts (a ! ?n)" using i by (intro vs_search_split(2) [OF assms]) simp_all
    also have "\<dots> < ts (a ! i)" by (rule increasing_nth [OF assms n i(1)])
    finally show ?thesis .
  qed
qed

lemma past_filter:
  assumes "increasing ts a"
  shows "filter (\<lambda>x. ts x \<le> mx) a = take (past ts mx a) a" "filter (\<lambda>x. mx < ts x) a = drop (past ts mx a) a"
  using take_drop_filter [of "past ts mx a" "\<lambda>x. ts x \<le> mx" a] past_split [OF assms, where mx = mx] past_bounds(2) [of ts mx a]
  by (force simp: not_le)+

lemma outside_filter:
  assumes "increasing ts a" "mn \<le> mx"
  shows "filter (\<lambda>x. \<not> (mn \<le> ts x \<and> ts x \<le> mx)) a = take (vs_search ts mn a) a @ drop (past ts mx a) a"
proof -
  let ?Q = "\<lambda>x. \<not> (mn \<le> ts x \<and> ts x \<le> mx)"
  have "filter ?Q a = filter ?Q (take (past ts mx a) a) @ filter ?Q (drop (past ts mx a) a)"
    by (subst filter_append [symmetric]) simp
  also have "filter ?Q (take (past ts mx a) a) = filter (\<lambda>x. ts x < mn) a"
    unfolding past_filter(1) [OF assms(1), symmetric] filter_filter using assms(2) by (intro filter_cong) auto
  also have "filter ?Q (drop (past ts mx a) a) = drop (past ts mx a) a"
    unfolding past_filter(2) [OF assms(1), symmetric] filter_filter by (intro filter_cong) auto
  finally show ?thesis unfolding vs_search_filter(1) [OF assms(1)] .
qed

lemma inside_filter:
  assumes "increasing ts a" "mn \<le> mx"
  shows "filter (\<lambda>x. mn \<le> ts x \<and> ts x \<le> mx) a = drop (vs_search ts mn a) (take (past ts mx a) a)"
proof -
  let ?n = "vs_search ts mn a" and ?c = "take (past ts mx a) a"
  have n: "?n \<le> length ?c" using past_bounds(1) [OF assms(2), of ts a] past_bounds(2) [of ts mx a] by simp
  have "filter (\<lambda>x. \<not> ts x < mn) ?c = drop ?n ?c"
  proof (rule take_drop_filter(2) [OF _ _ n])
    fix i assume "i < ?n"
    then show "ts (?c ! i) < mn" using n vs_search_split(1) [OF assms(1), of i mn] by simp
  next
    fix i assume "?n \<le> i" "i < length ?c"
    then show "\<not> ts (?c ! i) < mn" using vs_search_split(2) [OF assms(1), of i mn] by simp
  qed
  then show ?thesis
    unfolding past_filter(1) [OF assms(1), symmetric] filter_filter not_less by (simp add: conj_commute)
qed

lemma cut_out_spec:
  assumes "sl_wf a" "rmin \<le> rmax" "rmax \<le> sl_len a"
  shows "\<exists>b. cut_out rmin rmax (sl_len a - rmax) a = Inr b \<and> sl_wf b \<and> sl_list b = take rmin (sl_list a) @ drop rmax (sl_list a)"
proof -
  have fits: "sl_len a \<le> length (sl_arr a)" using assms(1) by (simp add: sl_wf_def)
  show ?thesis
  proof (cases "rmax < sl_len a")
    case True
    then show ?thesis
      using assms fits
      by (auto simp: cut_out_def sl_reslice_def sl_cap_def sl_copy_def Let_def sl_wf_def sl_list_def min_def)
  next
    case False
    then show ?thesis
      using assms fits by (auto simp: cut_out_def sl_reslice_def sl_cap_def sl_wf_def sl_list_def)
  qed
qed

lemma keep_only_spec:
  assumes "sl_wf a" "rmin \<le> rmax" "rmax \<le> sl_len a"
  shows "\<exists>b. keep_only rmin rmax a = Inr b \<and> sl_wf b \<and> sl_list b = drop rmin (take rmax (sl_list a))"
  using assms by (auto simp: keep_only_def sl_sub_def sl_reslice_def sl_cap_def sl_copy_def Let_def sl_wf_def sl_list_def min_def)

text \<open>The two methods by the positions they find; nothing is assumed about the order of the slice.\<close>

definition meets :: "('a \<Rightarrow> int) \<Rightarrow> int \<Rightarrow> int \<Rightarrow> 'a list \<Rightarrow> bool" where
  "meets ts mn mx a \<longleftrightarrow> a \<noteq> [] \<and> mn \<le> mx \<and> mn \<le> ts (a ! (length a - 1)) \<and> ts (a ! 0) \<le> mx"

lemma FindRange_meets:
  "vs_FindRange ts mn mx a = (if meets ts mn mx a then (int (vs_search ts mn a), int (vs_search ts mx a)) else (- 1, - 1))"
  by (auto simp: vs_FindRange_def meets_def Let_def)

lemma Exclude_meets:
  assumes "sl_wf a" "meets ts mn mx (sl_list a)"
  shows "\<exists>b. vs_Exclude ts mn mx a = Inr b \<and> sl_wf b \<and>
    sl_list b = take (vs_search ts mn (sl_list a)) (sl_list a) @ drop (past ts mx (sl_list a)) (sl_list a)"
proof -
  let ?a = "sl_list a"
  have mn: "mn \<le> mx" using assms(2) by (simp add: meets_def)
  note b = past_bounds(1) [OF mn, of ts ?a] past_bounds(2) [of ts mx ?a]
  have wf: "length ?a = sl_len a" "sl_len a \<le> sl_cap a" using assms(1) by (simp_all add: sl_wf_def sl_cap_def)
  show ?thesis
  proof (cases "vs_search ts mx ?a < sl_len a")
    case True
    then have "vs_Exclude ts mn mx a = cut_out (vs_search ts mn ?a) (past ts mx ?a) (sl_len a - past ts mx ?a) a"
      using assms by (simp add: vs_Exclude_def FindRange_meets past_def Let_def)
    then show ?thesis using cut_out_spec [OF assms(1) b(1)] b(2) wf by simp
  next
    case False
    then have p: "past ts mx ?a = sl_len a"
      using vs_search_bound [of ts mx ?a] wf by (simp add: past_def Let_def)
    have "vs_Exclude ts mn mx a = sl_reslice (vs_search ts mn ?a) a"
      using False assms by (simp add: vs_Exclude_def FindRange_meets)
    also have "\<dots> = Inr (a\<lparr>sl_len := vs_search ts mn ?a\<rparr>)"
      using b p wf by (simp add: sl_reslice_def)
    finally show ?thesis using b p wf by (simp add: sl_wf_def sl_list_def sl_cap_def min_absorb1)
  qed
qed

lemma Include_meets:
  assumes "sl_wf a" "meets ts mn mx (sl_list a)"
  shows "\<exists>b. vs_Include ts mn mx a = Inr b \<and> sl_wf b \<and>
    sl_list b = drop (vs_search ts mn (sl_list a)) (take (past ts mx (sl_list a)) (sl_list a))"
proof -
  let ?a = "sl_list a"
  have mn: "mn \<le> mx" using assms(2) by (simp add: meets_def)
  note b = past_bounds(1) [OF mn, of ts ?a] past_bounds(2) [of ts mx ?a]
  have len: "length ?a = sl_len a" using assms(1) by simp
  have "vs_Include ts mn mx a = keep_only (vs_search ts mn ?a) (past ts mx ?a) a"
    using assms len by (simp add: vs_Include_def FindRange_meets past_def Let_def nat_add_distrib)
  then show ?thesis using keep_only_spec [OF assms(1) b(1)] b(2) len by simp
qed

lemma Exclude_apart: "\<not> meets ts mn mx (sl_list a) \<Longrightarrow> vs_Exclude ts mn mx a = Inr a"
  by (simp add: vs_Exclude_def FindRange_meets)

lemma Include_apart: "\<not> meets ts mn mx (sl_list a) \<Longrightarrow> vs_Include ts mn mx a = Inr nil_slice"
  by (simp add: vs_Include_def FindRange_meets)

lemma apart_outside:
  assumes "increasing ts a" "\<not> meets ts mn mx a" "x \<in> set a"
  shows "\<not> (mn \<le> ts x \<and> ts x \<le> mx)"
proof -
  obtain i where i: "i < length a" "x = a ! i" using assms(3) by (auto simp: in_set_conv_nth)
  have "ts (a ! 0) \<le> ts x" using increasing_nth [OF assms(1), of 0 i] i by (cases "i = 0") auto
  moreover have "ts x \<le> ts (a ! (length a - 1))"
  proof (cases "i = length a - 1")
    case False
    then have "ts (a ! i) < ts (a ! (length a - 1))" using i(1) by (intro increasing_nth [OF assms(1)]) linarith+
    then show ?thesis using i(2) by simp
  qed (use i in simp)
  ultimately show ?thesis using assms(2,3) by (auto simp: meets_def)
qed

lemma Exclude_filter:
  assumes "sl_wf a" "increasing ts (sl_list a)"
  shows "\<exists>b. vs_Exclude ts mn mx a = Inr b \<and> sl_wf b \<and>
    sl_list b = filter (\<lambda>x. \<not> (mn \<le> ts x \<and> ts x \<le> mx)) (sl_list a)"
proof (cases "meets ts mn mx (sl_list a)")
  case True
  then show ?thesis
    using Exclude_meets [OF assms(1) True] outside_filter [OF assms(2), of mn mx] by (simp add: meets_def)
next
  case False
  have "filter (\<lambda>x. \<not> (mn \<le> ts x \<and> ts x \<le> mx)) (sl_list a) = sl_list a"
    unfolding filter_id_conv using apart_outside [OF assms(2) False] by blast
  then show ?thesis using Exclude_apart [OF False] assms(1) by simp
qed

lemma Include_filter:
  assumes "sl_wf a" "increasing ts (sl_list a)"
  shows "\<exists>b. vs_Include ts mn mx a = Inr b \<and> sl_wf b \<and>
    sl_list b = filter (\<lambda>x. mn \<le> ts x \<and> ts x \<le> mx) (sl_list a)"
proof (cases "meets ts mn mx (sl_list a)")
  case True
  then show ?thesis
    using Include_meets [OF assms(1) True] inside_filter [OF assms(2), of mn mx] by (simp add: meets_def)
next
  case False
  have "filter (\<lambda>x. mn \<le> ts x \<and> ts x \<le> mx) (sl_list a) = []"
    unfolding filter_empty_conv using apart_outside [OF assms(2) False] by blast
  then show ?thesis using Include_apart [OF False] by simp
qed

subsection \<open>Deduplicate\<close>

text \<open>The loop of \<open>Deduplicate\<close> as a recursion on the values kept so far and those still to come.\<close>

fun dedup_list :: "('a \<Rightarrow> int) \<Rightarrow> 'a list \<Rightarrow> 'a list \<Rightarrow> 'a list" where
  "dedup_list ts kept [] = kept"
| "dedup_list ts kept (v # rest) =
     dedup_list ts ((if ts v \<noteq> ts (last kept) then kept else butlast kept) @ [v]) rest"

lemma dedup_loop_list:
  assumes "i < j" "j \<le> length a"
  shows "(case dedup_loop ts j i a of (a, i) \<Rightarrow> take (i + 1) a) = dedup_list ts (take (i + 1) a) (drop j a)"
  using assms
proof (induction ts j i a rule: dedup_loop.induct)
  case (1 ts j i a)
  show ?case
  proof (cases "j < length a")
    case True
    define v i' where "v = a ! j" and "i' = (if ts v \<noteq> ts (a ! i) then i + 1 else i)"
    have i': "i' < j + 1" "i' < length a" using True 1(2) by (auto simp: i'_def)
    have kept: "take (i' + 1) (a[i' := v]) = (if ts v \<noteq> ts (last (take (i + 1) a)) then take (i + 1) a else butlast (take (i + 1) a)) @ [v]"
    proof -
      have "last (take (i + 1) a) = a ! i" "butlast (take (i + 1) a) = take i a"
        using True 1(2) by (simp_all add: take_Suc_conv_app_nth)
      then show ?thesis using i' by (simp add: i'_def take_Suc_update)
    qed
    have "dedup_loop ts j i a = dedup_loop ts (j + 1) i' (a[i' := v])"
      using True by (subst dedup_loop.simps) (simp add: Let_def v_def i'_def)
    moreover have "(case dedup_loop ts (j + 1) i' (a[i' := v]) of (a, i) \<Rightarrow> take (i + 1) a) =
        dedup_list ts (take (i' + 1) (a[i' := v])) (drop (j + 1) (a[i' := v]))"
      using True i' by (intro 1(1) [OF True v_def i'_def]) simp_all
    moreover have "drop j a = v # drop (j + 1) a" using True by (simp add: v_def Cons_nth_drop_Suc)
    ultimately show ?thesis using i' kept by simp
  next
    case False
    then show ?thesis using 1(3) by (subst dedup_loop.simps) simp
  qed
qed

lemma dedup_list_increasing:
  assumes "kept \<noteq> []" "increasing ts kept" "sorted_wrt (\<lambda>x y. ts x \<le> ts y) rest" "\<forall>x\<in>set rest. ts (last kept) \<le> ts x"
  shows "increasing ts (dedup_list ts kept rest)"
  using assms
proof (induction rest arbitrary: kept)
  case (Cons v rest)
  have split: "kept = butlast kept @ [last kept]" using Cons.prems(1) by simp
  have before: "increasing ts (butlast kept)" "\<forall>x\<in>set (butlast kept). ts x < ts (last kept)"
    using Cons.prems(2) increasing_append [of ts "butlast kept" "[last kept]"] split by simp_all
  let ?kept = "(if ts v \<noteq> ts (last kept) then kept else butlast kept) @ [v]"
  have le: "\<forall>x\<in>set kept. ts x \<le> ts (last kept)"
    by (subst split) (use before in \<open>auto intro: less_imp_le\<close>)
  have "increasing ts ?kept"
  proof (cases "ts v = ts (last kept)")
    case True
    then show ?thesis using before by (simp add: increasing_append)
  next
    case False
    then have "\<forall>x\<in>set kept. ts x < ts v" using le Cons.prems(4) by force
    then show ?thesis using False Cons.prems(2) by (simp add: increasing_append)
  qed
  then show ?case using Cons.prems(3) unfolding dedup_list.simps by (intro Cons.IH) simp_all
qed simp

lemma value_at_snoc: "value_at ts (a @ [x]) t = (if ts x = t then Some x else value_at ts a t)"
  by (simp add: value_at_append value_at_Cons)

lemma dedup_list_value_at:
  assumes "kept \<noteq> []"
  shows "value_at ts (dedup_list ts kept rest) t = value_at ts (kept @ rest) t"
  using assms
proof (induction rest arbitrary: kept)
  case (Cons v rest)
  have split: "kept = butlast kept @ [last kept]" using Cons.prems by simp
  let ?kept = "(if ts v \<noteq> ts (last kept) then kept else butlast kept) @ [v]"
  have kept: "value_at ts ?kept t = value_at ts (kept @ [v]) t"
  proof (cases "ts v = ts (last kept)")
    case True
    then have "value_at ts (kept @ [v]) t = value_at ts (butlast kept @ [v]) t"
      by (subst split) (simp add: value_at_snoc flip: append_assoc)
    then show ?thesis using True by simp
  qed simp
  have "value_at ts (dedup_list ts kept (v # rest)) t = value_at ts (?kept @ rest) t"
    unfolding dedup_list.simps by (rule Cons.IH) simp
  also have "\<dots> = value_at ts ((kept @ [v]) @ rest) t" unfolding value_at_append [of ts _ rest] kept ..
  finally show ?case by simp
qed simp

lemma value_at_filter:
  "value_at ts a t = (let m = filter (\<lambda>x. ts x = t) a in if m = [] then None else Some (last m))"
  by (induction a rule: rev_induct) (auto simp: value_at_snoc Let_def)

lemma value_at_sort: "value_at ts (sort_key ts a) = value_at ts a"
  by (rule ext) (simp add: value_at_filter sort_key_stable)

lemma Deduplicate_sorted:
  assumes "\<not> increasing ts a"
  shows "vs_Deduplicate ts a = dedup_list ts [hd (sort_key ts a)] (tl (sort_key ts a)) \<and> a \<noteq> []"
proof -
  have len: "\<not> length a \<le> 1" using assms by (cases a rule: remdups_adj.cases) auto
  obtain x s where s: "sort_key ts a = x # s" using len by (cases "sort_key ts a") (auto dest: arg_cong [of _ _ length])
  have "vs_Deduplicate ts a = (case dedup_loop ts 1 0 (x # s) of (a, i) \<Rightarrow> take (i + 1) a)"
    using len assms unfolding vs_Deduplicate_def ordered_loop_iff s by simp
  also have "\<dots> = dedup_list ts [x] s" using dedup_loop_list [of 0 1 "x # s" ts] by simp
  finally show ?thesis using len s by auto
qed

lemma Deduplicate_fixed: "increasing ts a \<Longrightarrow> vs_Deduplicate ts a = a"
  by (simp add: vs_Deduplicate_def ordered_loop_iff)

lemma Deduplicate_increasing: "increasing ts (vs_Deduplicate ts a)"
proof (cases "increasing ts a")
  case False
  obtain x s where s: "sort_key ts a = x # s"
    using Deduplicate_sorted [OF False] by (cases "sort_key ts a") (auto dest: arg_cong [of _ _ length])
  have "sorted_wrt (\<lambda>x y. ts x \<le> ts y) (x # s)"
    using sorted_sort_key [of ts a] unfolding s sorted_map .
  then show ?thesis
    unfolding conjunct1 [OF Deduplicate_sorted [OF False]] s by (intro dedup_list_increasing) simp_all
qed (simp add: Deduplicate_fixed)

lemma Deduplicate_value_at: "value_at ts (vs_Deduplicate ts a) = value_at ts a"
proof (cases "increasing ts a")
  case False
  obtain x s where s: "sort_key ts a = x # s"
    using Deduplicate_sorted [OF False] by (cases "sort_key ts a") (auto dest: arg_cong [of _ _ length])
  have "value_at ts (dedup_list ts [x] s) t = value_at ts a t" for t
    using dedup_list_value_at [of "[x]" ts s t] value_at_sort [of ts a] by (simp add: s)
  then show ?thesis
    unfolding conjunct1 [OF Deduplicate_sorted [OF False]] s by (simp add: fun_eq_iff)
qed (simp add: Deduplicate_fixed)

lemma value_at_ne: "a \<noteq> [] \<longleftrightarrow> value_at ts a \<noteq> (\<lambda>_. None)"
proof
  assume "a \<noteq> []"
  then have "value_at ts a (ts (hd a)) \<noteq> None" unfolding value_at_None_iff by simp
  then show "value_at ts a \<noteq> (\<lambda>_. None)" by auto
qed auto

lemma Deduplicate_ne: "vs_Deduplicate ts a \<noteq> [] \<longleftrightarrow> a \<noteq> []"
  unfolding value_at_ne [where ts = ts] Deduplicate_value_at ..

subsection \<open>Merge\<close>

text \<open>
  Over the lookups, merging is the overriding union of maps. That is the specification; it makes
  \<open>Merge\<close> associative, so the order in which the blocks of several files are merged does not matter
  as long as newer ones are merged on top of older ones.
\<close>

lemma value_at_map_add: "value_at ts (a @ b) = value_at ts a ++ value_at ts b"
  by (rule ext) (simp add: value_at_append map_add_def split: option.splits)

lemma value_at_dom: "dom (value_at ts a) = ts ` set a"
  by (auto simp: dom_def value_at_None_iff)

lemma value_at_swap:
  assumes "\<forall>x\<in>set a. \<forall>y\<in>set b. ts x \<noteq> ts y"
  shows "value_at ts (a @ b) = value_at ts (b @ a)"
proof -
  have "dom (value_at ts a) \<inter> dom (value_at ts b) = {}" unfolding value_at_dom using assms by fastforce
  then show ?thesis unfolding value_at_map_add by (rule map_add_comm)
qed

lemma merge_loop_append: "merge_loop ts (p @ out) a b = p @ merge_loop ts out a b"
proof (induction ts out a b rule: merge_loop.induct)
  case (1 ts out a b)
  show ?case
  proof (cases "length a > 0 \<and> length b > 0")
    case True
    then show ?thesis
      using "1.IH"(1) [OF True] "1.IH"(2) [OF True] "1.IH"(3) [OF True]
      by (subst (1 2) merge_loop.simps) (simp del: One_nat_def)
  next
    case False
    then show ?thesis by (subst (1 2) merge_loop.simps) (cases "length a > 0", simp_all only: if_True if_False append_assoc)
  qed
qed

lemmas merge_loop_out = merge_loop_append [where out = "[]", simplified]

lemma merge_loop_simps:
  "merge_loop ts [] [] b = b"
  "merge_loop ts [] a [] = a"
  "merge_loop ts [] (x # a) (y # b) =
     (if ts x < ts y then x # merge_loop ts [] a (y # b)
      else if ts x = ts y then merge_loop ts [] a (y # b)
      else y # merge_loop ts [] (x # a) b)"
  subgoal by (subst merge_loop.simps) simp
  subgoal by (subst merge_loop.simps) simp
  subgoal by (subst merge_loop.simps) (simp add: merge_loop_out [of ts "[x]"] merge_loop_out [of ts "[y]"])
  done

lemma merge_loop_increasing:
  assumes "increasing ts a" "increasing ts b"
  shows "set (merge_loop ts [] a b) \<subseteq> set a \<union> set b \<and> increasing ts (merge_loop ts [] a b)"
  using assms
proof (induction "length a + length b" arbitrary: a b rule: less_induct)
  case less
  show ?case
  proof (cases a)
    case a: (Cons x c)
    show ?thesis
    proof (cases b)
      case b: (Cons y d)
      have c: "set (merge_loop ts [] c b) \<subseteq> set c \<union> set b \<and> increasing ts (merge_loop ts [] c b)"
        using less.prems by (intro less) (simp_all add: a b)
      have d: "set (merge_loop ts [] a d) \<subseteq> set a \<union> set d \<and> increasing ts (merge_loop ts [] a d)"
        using less.prems by (intro less) (simp_all add: a b)
      consider "ts x < ts y" | "ts x = ts y" | "ts y < ts x" by linarith
      then show ?thesis
      proof cases
        case 1
        then have "\<forall>z\<in>set c \<union> set b. ts x < ts z" using less.prems unfolding a b by force
        then show ?thesis using 1 c unfolding a b merge_loop_simps by auto
      next
        case 2
        then show ?thesis using c unfolding a b merge_loop_simps by auto
      next
        case 3
        then have "\<forall>z\<in>set a \<union> set d. ts y < ts z" using less.prems unfolding a b by force
        then show ?thesis using 3 d unfolding a b merge_loop_simps by auto
      qed
    qed (use less.prems a in \<open>simp add: merge_loop_simps\<close>)
  qed (use less.prems in \<open>simp add: merge_loop_simps\<close>)
qed

lemma merge_loop_value_at:
  assumes "increasing ts a" "increasing ts b"
  shows "value_at ts (merge_loop ts [] a b) = value_at ts a ++ value_at ts b"
  using assms
proof (induction "length a + length b" arbitrary: a b rule: less_induct)
  case less
  show ?case
  proof (cases a)
    case a: (Cons x c)
    show ?thesis
    proof (cases b)
      case b: (Cons y d)
      have c: "value_at ts (merge_loop ts [] c b) = value_at ts c ++ value_at ts b"
        using less.prems by (intro less) (simp_all add: a b)
      have d: "value_at ts (merge_loop ts [] a d) = value_at ts a ++ value_at ts d"
        using less.prems by (intro less) (simp_all add: a b)
      have x: "value_at ts (x # v) = value_at ts [x] ++ value_at ts v" for x v
        using value_at_map_add [of ts "[x]" v] by simp
      consider "ts x < ts y" | "ts x = ts y" | "ts y < ts x" by linarith
      then show ?thesis
      proof cases
        case 1
        then have m: "merge_loop ts [] a b = x # merge_loop ts [] c b" by (simp add: a b merge_loop_simps)
        show ?thesis unfolding m x [of x "merge_loop ts [] c b"] c unfolding a x [of x c] by simp
      next
        case 2
        have "value_at ts (x # c) ++ value_at ts b = value_at ts c ++ (value_at ts [x] ++ value_at ts b)"
        proof -
          have "value_at ts (c @ [x]) = value_at ts ([x] @ c)"
            using less.prems(1) by (intro value_at_swap) (auto simp: a)
          then show ?thesis unfolding value_at_map_add x [of x c] by simp
        qed
        moreover have "value_at ts [x] ++ value_at ts b = value_at ts b"
        proof -
          have "dom (value_at ts [x]) \<subseteq> dom (value_at ts b)" using 2 unfolding value_at_dom by (simp add: b)
          then show ?thesis by (auto simp: map_add_def fun_eq_iff domIff subset_iff split: option.splits)
        qed
        moreover have "merge_loop ts [] a b = merge_loop ts [] c b" using 2 by (simp add: a b merge_loop_simps)
        ultimately show ?thesis using c by (simp add: a)
      next
        case 3
        have "value_at ts (a @ [y]) = value_at ts ([y] @ a)"
          using 3 less.prems(1) by (intro value_at_swap) (auto simp: a)
        then have swap: "value_at ts [y] ++ value_at ts a = value_at ts a ++ value_at ts [y]" unfolding value_at_map_add ..
        have m: "merge_loop ts [] a b = y # merge_loop ts [] a d" using 3 by (simp add: a b merge_loop_simps)
        show ?thesis unfolding m x [of y "merge_loop ts [] a d"] d unfolding b x [of y d] map_add_assoc swap ..
      qed
    qed (simp add: a merge_loop_simps)
  qed (simp add: merge_loop_simps)
qed

lemma increasing_append_nth:
  assumes "increasing ts a" "increasing ts b" "a \<noteq> []" "b \<noteq> []" "ts (a ! (length a - 1)) < ts (b ! 0)"
  shows "increasing ts (a @ b)"
proof -
  have "ts x \<le> ts (last a)" if "x \<in> set a" for x
  proof -
    have a: "a = butlast a @ [last a]" using assms(3) by simp
    then have "x \<in> set (butlast a) \<or> x = last a" using that by (metis Un_iff empty_iff insert_iff list.set set_append)
    then show ?thesis using assms(1) a increasing_append [of ts "butlast a" "[last a]"] by auto
  qed
  moreover have "ts (hd b) \<le> ts y" if "y \<in> set b" for y
    using that assms(2,4) by (cases b) auto
  ultimately show ?thesis
    using assms by (fastforce simp: increasing_append last_conv_nth hd_conv_nth)
qed

lemma Merge_ne:
  assumes "a \<noteq> []" "b \<noteq> []"
  shows "increasing ts (vs_Merge ts a b) \<and> value_at ts (vs_Merge ts a b) = value_at ts a ++ value_at ts b"
proof -
  define c d where "c = vs_Deduplicate ts a" and "d = vs_Deduplicate ts b"
  have cd: "increasing ts c" "increasing ts d" "c \<noteq> []" "d \<noteq> []"
    "value_at ts a = value_at ts c" "value_at ts b = value_at ts d"
    using assms by (simp_all add: c_def d_def Deduplicate_increasing Deduplicate_ne Deduplicate_value_at)
  have m: "vs_Merge ts a b = (if ts (c ! (length c - 1)) < ts (d ! 0) then c @ d
      else if ts (d ! (length d - 1)) < ts (c ! 0) then d @ c else merge_loop ts [] c d)"
    using assms by (simp add: vs_Merge_def c_def d_def Let_def)
  consider (before) "ts (c ! (length c - 1)) < ts (d ! 0)" | (after) "\<not> ts (c ! (length c - 1)) < ts (d ! 0)" "ts (d ! (length d - 1)) < ts (c ! 0)"
    | (mixed) "\<not> ts (c ! (length c - 1)) < ts (d ! 0)" "\<not> ts (d ! (length d - 1)) < ts (c ! 0)" by blast
  then show ?thesis
  proof cases
    case before
    then show ?thesis using increasing_append_nth [OF cd(1-4) before] cd unfolding m by (simp add: value_at_map_add)
  next
    case after
    have inc: "increasing ts (d @ c)" by (rule increasing_append_nth [OF cd(2,1,4,3) after(2)])
    then have "value_at ts (d @ c) = value_at ts (c @ d)" by (intro value_at_swap) (fastforce simp: increasing_append)
    then show ?thesis using inc after cd unfolding m by (simp add: value_at_map_add)
  next
    case mixed
    then show ?thesis
      using merge_loop_increasing [OF cd(1,2)] merge_loop_value_at [OF cd(1,2)] cd unfolding m by simp
  qed
qed

lemma Merge_Nil [simp]: "vs_Merge ts [] b = b" "vs_Merge ts a [] = a"
  by (simp_all add: vs_Merge_def)

lemma Merge_value_at: "value_at ts (vs_Merge ts a b) = value_at ts a ++ value_at ts b"
  using Merge_ne [of a b ts] by (cases "a = []"; cases "b = []") auto

lemma Merge_increasing: "increasing ts a \<Longrightarrow> increasing ts b \<Longrightarrow> increasing ts (vs_Merge ts a b)"
  using Merge_ne [of a b ts] by (cases "a = []"; cases "b = []") auto

lemma Merge_not_Nil: "a \<noteq> [] \<Longrightarrow> vs_Merge ts a b \<noteq> []"
  using value_at_ne [of a ts] unfolding value_at_ne [of "vs_Merge ts a b" ts] Merge_value_at
  by (auto simp: fun_eq_iff map_add_None)

lemma increasing_unique: "increasing ts a \<Longrightarrow> increasing ts b \<and> value_at ts b = value_at ts a \<longleftrightarrow> b = a"
  using increasing_ext [of ts b a] by auto

subsection \<open>The length of a search\<close>

text \<open>The loop of \<open>search\<close>, given up after a number of rounds.\<close>

fun search_rounds :: "nat \<Rightarrow> ('a \<Rightarrow> int) \<Rightarrow> int \<Rightarrow> 'a list \<Rightarrow> nat \<Rightarrow> nat \<Rightarrow> nat option" where
  "search_rounds 0 ts v a lo hi = (if lo < hi then None else Some lo)"
| "search_rounds (Suc n) ts v a lo hi =
     (if lo < hi
      then let mid = (lo + hi) div 2
           in if ts (a ! mid) < v then search_rounds n ts v a (mid + 1) hi else search_rounds n ts v a lo mid
      else Some lo)"

lemma search_rounds_enough:
  "\<exists>p. 2 ^ p \<le> max 1 (2 * (hi - lo)) \<and> search_rounds p ts v a lo hi = Some (search_loop ts v a lo hi)"
proof (induction ts v a lo hi rule: search_loop.induct)
  case (1 ts v a lo hi)
  show ?case
  proof (cases "lo < hi")
    case True
    define mid where "mid = (lo + hi) div 2"
    have halves: "2 * (hi - (mid + 1)) \<le> hi - lo" "2 * (mid - lo) \<le> hi - lo"
      using True by (auto simp: mid_def)
    obtain l h where lh: "2 * (h - l) \<le> hi - lo" "search_loop ts v a lo hi = search_loop ts v a l h"
      "\<And>p. search_rounds (Suc p) ts v a lo hi = search_rounds p ts v a l h"
      "\<exists>p. 2 ^ p \<le> max 1 (2 * (h - l)) \<and> search_rounds p ts v a l h = Some (search_loop ts v a l h)"
    proof (cases "ts (a ! mid) < v")
      case less: True
      then show ?thesis
        using that [of hi "mid + 1"] halves(1) 1(1) [OF True mid_def less] True search_loop_step [OF True mid_def, of ts v a]
        by (simp add: Let_def mid_def)
    next
      case geq: False
      then show ?thesis
        using that [of mid lo] halves(2) 1(2) [OF True mid_def geq] True search_loop_step [OF True mid_def, of ts v a]
        by (simp add: Let_def mid_def)
    qed
    then obtain p where p: "2 ^ p \<le> max 1 (2 * (h - l))" "search_rounds p ts v a l h = Some (search_loop ts v a l h)" by blast
    have "2 ^ Suc p \<le> max 1 (2 * (hi - lo))" using p(1) lh(1) True by auto
    moreover have "search_rounds (Suc p) ts v a lo hi = Some (search_loop ts v a lo hi)" unfolding lh(3) lh(2) by (rule p(2))
    ultimately show ?thesis by blast
  next
    case False
    then have "search_rounds 0 ts v a lo hi = Some (search_loop ts v a lo hi)" by (simp add: search_loop.simps)
    then show ?thesis by (metis max.cobounded1 power_0)
  qed
qed

subsection \<open>Properties\<close>

text \<open>
  C17. \<open>Deduplicate\<close> has the result its comment promises, and no other one has it: the values are in
  strictly increasing order of time, and at every timestamp stands the value that appeared last in
  the argument.
\<close>

theorem Deduplicate_correct:
  "increasing ts b \<and> value_at ts b = value_at ts a \<longleftrightarrow> b = vs_Deduplicate ts a"
  using increasing_unique [OF Deduplicate_increasing, of ts b a] unfolding Deduplicate_value_at .



text \<open>
  The grouping of merges does not matter, for any three slices: merging the blocks of several
  files gives the same values however the merges are nested.
\<close>

theorem Merge_assoc: "vs_Merge ts (vs_Merge ts a b) c = vs_Merge ts a (vs_Merge ts b c)"
proof (cases "a = [] \<or> b = [] \<or> c = []")
  case False
  have "increasing ts (vs_Merge ts (vs_Merge ts a b) c)" "increasing ts (vs_Merge ts a (vs_Merge ts b c))"
    using False by (simp_all add: conjunct1 [OF Merge_ne] Merge_not_Nil)
  then show ?thesis by (rule increasing_ext) (simp add: Merge_value_at)
qed auto

text \<open>
  C18. \<open>Exclude\<close> and \<open>Include\<close> on a sorted slice without duplicates: the first removes exactly the
  values of the closed range of time, the second keeps exactly those, both in order.
\<close>

theorem Exclude_Include_filter:
  assumes "sl_wf a" "increasing ts (sl_list a)"
  shows "(\<exists>b. vs_Exclude ts mn mx a = Inr b \<and> sl_list b = filter (\<lambda>x. \<not> (mn \<le> ts x \<and> ts x \<le> mx)) (sl_list a)) \<and>
    (\<exists>b. vs_Include ts mn mx a = Inr b \<and> sl_list b = filter (\<lambda>x. mn \<le> ts x \<and> ts x \<le> mx) (sl_list a))"
  using Exclude_filter [OF assms, of mn mx] Include_filter [OF assms, of mn mx] by blast

theorem Exclude_Include_filter_witness:
  "(\<exists>b. vs_Exclude nano 2 3 (slice_of [(1, True), (2, False), (3, True), (7, True)]) = Inr b \<and> sl_list b = [(1, True), (7, True)]) \<and>
   (\<exists>b. vs_Include nano 2 3 (slice_of [(1, True), (2, False), (3, True), (7, True)]) = Inr b \<and> sl_list b = [(2, False), (3, True)])"
  using Exclude_Include_filter [of "slice_of [(1, True), (2, False), (3, True), (7, True)]" nano 2 3]
  by (simp add: nano_def)

text \<open>
  The order matters only for the result: on any slice, sorted or not, the search ends inside it,
  later timestamps have later positions, and neither \<open>Exclude\<close> nor \<open>Include\<close> leaves the bounds of the
  slice or makes it longer.
\<close>

theorem ranges_stay_inside:
  assumes "sl_wf a"
  shows "vs_search ts mn (sl_list a) \<le> sl_len a \<and>
    vs_search ts mn (sl_list a) \<le> vs_search ts (max mn mx) (sl_list a) \<and>
    (\<exists>b. vs_Exclude ts mn mx a = Inr b \<and> sl_wf b \<and> length (sl_list b) \<le> sl_len a) \<and>
    (\<exists>b. vs_Include ts mn mx a = Inr b \<and> sl_wf b \<and> length (sl_list b) \<le> sl_len a)"
proof -
  have len: "length (sl_list a) = sl_len a" using assms by simp
  have s: "vs_search ts mn (sl_list a) \<le> sl_len a" using vs_search_bound [of ts mn "sl_list a"] len by simp
  show ?thesis
  proof (cases "meets ts mn mx (sl_list a)")
    case True
    have p: "vs_search ts mn (sl_list a) \<le> past ts mx (sl_list a)"
      using True by (intro past_bounds(1)) (simp add: meets_def)
    show ?thesis
      using s p len Exclude_meets [OF assms True] Include_meets [OF assms True] vs_search_mono [of mn "max mn mx" ts]
      by auto
  next
    case False
    then show ?thesis using s assms vs_search_mono [of mn "max mn mx" ts] by (auto simp: Exclude_apart Include_apart)
  qed
qed

theorem ranges_stay_inside_witness:
  "\<exists>b. vs_Include nano 2 3 (slice_of [(3, True), (1, False), (2, True)]) = Inr b \<and> length (sl_list b) \<le> 3"
  using ranges_stay_inside [of "slice_of [(3, True), (1, False), (2, True)]" nano 2 3] by auto

text \<open>
  C32. The search of \<open>n\<close> values ends, and does so within \<open>p\<close> rounds where \<open>2 ^ p \<le> 2 * n\<close>: at most one
  round more than the logarithm of the length.
\<close>

theorem search_logarithmic:
  assumes "a \<noteq> []"
  shows "\<exists>p. 2 ^ p \<le> 2 * length a \<and> search_rounds p ts v a 0 (length a) = Some (vs_search ts v a)"
proof -
  have "max 1 (2 * (length a - 0)) = 2 * length a" using assms by (cases a) auto
  then show ?thesis using search_rounds_enough [of "length a" 0 ts v a] unfolding vs_search_def by simp
qed

theorem search_logarithmic_witness:
  "\<exists>p. 2 ^ p \<le> (10 :: nat) \<and> search_rounds p id 6 [1, 3, 5, 7, 9] 0 (length [1, 3, 5, 7, 9 :: int]) = Some 3"
proof -
  have "vs_search id 6 [1, 3, 5, 7, 9] = 3" by code_simp
  then show ?thesis using search_logarithmic [of "[1, 3, 5, 7, 9]" id 6] by simp
qed

end
