(* ===== verification/TsmArrays.thy ===== *)
theory TsmArrays
  imports TsmBlock TsmValues
begin

text \<open>
  The arrays of timestamps and values of \<open>src/backend/tsdb/cursors/arrayvalues.gen.go\<close>: the same
  operations as those of the slices in \<open>TsmValues\<close>, done in place on two parallel slices. The five
  array types are one text with another value type; the definitions here are polymorphic in it (the
  zero value that \<open>make\<close> fills a slice with is a parameter) and are instantiated per type in
  \<open>TsmValueTypes\<close>.

  The result of a method that updates its receiver is the updated array. The lemmas show that on
  arrays whose two slices have one length the methods compute what the methods of the slices of
  values compute on the zipped list.
\<close>

subsection \<open>Model\<close>

definition sl_get :: "nat \<Rightarrow> 'a slice \<Rightarrow> 'a res" where
  "sl_get i s = (if i < sl_len s then Inr (sl_list s ! i) else Inl Panic)"

definition NewArrayLen :: "'v \<Rightarrow> nat \<Rightarrow> 'v ts_array" where
  "NewArrayLen zero sz = \<lparr>Timestamps = slice_of (replicate sz 0), Values = slice_of (replicate sz zero)\<rparr>"

text \<open>\<open>Len\<close> is also called on a nil pointer.\<close>

definition arr_Len :: "'v ts_array option \<Rightarrow> nat" where
  "arr_Len a = (case a of Some a \<Rightarrow> sl_len (Timestamps a) | None \<Rightarrow> 0)"

definition arr_MinTime :: "'v ts_array \<Rightarrow> int res" where
  "arr_MinTime a = rbind (sl_get 0 (Timestamps a)) (\<lambda>t. Inr (sint t))"

definition arr_MaxTime :: "'v ts_array \<Rightarrow> int res" where
  "arr_MaxTime a =
     (if sl_len (Timestamps a) = 0 then Inl Panic
      else rbind (sl_get (sl_len (Timestamps a) - 1) (Timestamps a)) (\<lambda>t. Inr (sint t)))"

definition arr_search :: "int \<Rightarrow> 'v ts_array \<Rightarrow> nat" where
  "arr_search v a = search_loop sint v (sl_list (Timestamps a)) 0 (arr_Len (Some a))"

definition arr_FindRange :: "int \<Rightarrow> int \<Rightarrow> 'v ts_array \<Rightarrow> (int \<times> int) res" where
  "arr_FindRange mn mx a =
     (if arr_Len (Some a) = 0 \<or> mn > mx then Inr (- 1, - 1)
      else rbind (arr_MinTime a) (\<lambda>minVal. rbind (arr_MaxTime a) (\<lambda>maxVal.
             if maxVal < mn \<or> minVal > mx then Inr (- 1, - 1)
             else Inr (int (arr_search mn a), int (arr_search mx a)))))"

text \<open>The update of the two slices, the timestamps first.\<close>

definition both :: "(i64 slice \<Rightarrow> i64 slice res) \<Rightarrow> ('v slice \<Rightarrow> 'v slice res) \<Rightarrow> 'v ts_array \<Rightarrow> 'v ts_array res" where
  "both f g a = rbind (f (Timestamps a)) (\<lambda>ts. rbind (g (Values a)) (\<lambda>vs. Inr \<lparr>Timestamps = ts, Values = vs\<rparr>))"

definition arr_Exclude :: "int \<Rightarrow> int \<Rightarrow> 'v ts_array \<Rightarrow> 'v ts_array res" where
  "arr_Exclude mn mx a =
     rbind (arr_FindRange mn mx a) (\<lambda>(rmin, rmax).
       if rmin = - 1 \<and> rmax = - 1 then Inr a
       else if nat rmax < arr_Len (Some a) then
         let rmax = (if sint (sl_list (Timestamps a) ! nat rmax) = mx then nat rmax + 1 else nat rmax);
             rest = arr_Len (Some a) - rmax
         in both (cut_out (nat rmin) rmax rest) (cut_out (nat rmin) rmax rest) a
       else both (sl_reslice (nat rmin)) (sl_reslice (nat rmin)) a)"

definition arr_Include :: "int \<Rightarrow> int \<Rightarrow> 'v ts_array \<Rightarrow> 'v ts_array res" where
  "arr_Include mn mx a =
     rbind (arr_FindRange mn mx a) (\<lambda>(rmin, rmax).
       if rmin = - 1 \<and> rmax = - 1 then both (sl_reslice 0) (sl_reslice 0) a
       else
         let rmax = (if nat rmax < arr_Len (Some a) \<and> sint (sl_list (Timestamps a) ! nat rmax) = mx then rmax + 1 else rmax)
         in if rmin > - 1 then both (keep_only (nat rmin) (nat rmax)) (keep_only (nat rmin) (nat rmax)) a
            else both (sl_reslice (nat rmax)) (sl_reslice (nat rmax)) a)"

text \<open>\<open>out.Timestamps[k] = s.Timestamps[i]; out.Values[k] = s.Values[i]\<close>\<close>

definition arr_put :: "nat \<Rightarrow> 'v ts_array \<Rightarrow> nat \<Rightarrow> 'v ts_array \<Rightarrow> 'v ts_array res" where
  "arr_put k s i out =
     rbind (sl_get i (Timestamps s)) (\<lambda>t. rbind (sl_get i (Values s)) (\<lambda>v. both (sl_set k t) (sl_set k v) out))"

function arr_merge_loop ::
  "'v ts_array \<Rightarrow> 'v ts_array \<Rightarrow> nat \<Rightarrow> nat \<Rightarrow> nat \<Rightarrow> 'v ts_array \<Rightarrow> (nat \<times> nat \<times> nat \<times> 'v ts_array) res" where
  "arr_merge_loop a b i j k out =
     (if i < sl_len (Timestamps a) \<and> j < sl_len (Timestamps b) then
        if sint (sl_list (Timestamps a) ! i) < sint (sl_list (Timestamps b) ! j) then
          rbind (arr_put k a i out) (arr_merge_loop a b (i + 1) j (k + 1))
        else if sl_list (Timestamps a) ! i = sl_list (Timestamps b) ! j then
          rbind (arr_put k b j out) (arr_merge_loop a b (i + 1) (j + 1) (k + 1))
        else
          rbind (arr_put k b j out) (arr_merge_loop a b i (j + 1) (k + 1))
      else Inr (i, j, k, out))"
  by auto
termination
  by (relation "measure (\<lambda>(a, b, i, j, k, out). (sl_len (Timestamps a) - i) + (sl_len (Timestamps b) - j))") auto

declare arr_merge_loop.simps [simp del]

text \<open>\<open>n := copy(out.Timestamps[k:], s.Timestamps[i:]); copy(out.Values[k:], s.Values[i:]); k += n\<close>\<close>

definition arr_put_rest :: "nat \<Rightarrow> 'v ts_array \<Rightarrow> nat \<Rightarrow> 'v ts_array \<Rightarrow> (nat \<times> 'v ts_array) res" where
  "arr_put_rest k s i out =
     (if i \<le> sl_len (Timestamps s) \<and> i \<le> sl_len (Values s) \<and> k \<le> sl_len (Timestamps out) \<and> k \<le> sl_len (Values out)
      then Inr (k + min (sl_len (Timestamps s) - i) (sl_len (Timestamps out) - k),
             \<lparr>Timestamps = sl_copy k (drop i (sl_list (Timestamps s))) (Timestamps out),
              Values = sl_copy k (drop i (sl_list (Values s))) (Values out)\<rparr>)
      else Inl Panic)"

definition arr_append :: "'v ts_array \<Rightarrow> 'v ts_array \<Rightarrow> 'v ts_array" where
  "arr_append a b =
     \<lparr>Timestamps = sl_append (Timestamps a) (sl_list (Timestamps b)), Values = sl_append (Values a) (sl_list (Values b))\<rparr>"

definition arr_Merge :: "'v \<Rightarrow> 'v ts_array \<Rightarrow> 'v ts_array option \<Rightarrow> 'v ts_array res" where
  "arr_Merge zero a pb =
     (if arr_Len (Some a) = 0 then (case pb of None \<Rightarrow> Inl Panic | Some b \<Rightarrow> Inr b)
      else case pb of
        None \<Rightarrow> Inr a
      | Some b \<Rightarrow>
          if arr_Len (Some b) = 0 then Inr a
          else
            rbind (arr_MaxTime a) (\<lambda>amax. rbind (arr_MinTime b) (\<lambda>bmin.
            if amax < bmin then Inr (arr_append a b)
            else rbind (arr_MaxTime b) (\<lambda>bmax. rbind (arr_MinTime a) (\<lambda>amin.
            if bmax < amin then Inr (arr_append b a)
            else
              rbind (arr_merge_loop a b 0 0 0 (NewArrayLen zero (arr_Len (Some a) + arr_Len (Some b)))) (\<lambda>(i, j, k, out).
              rbind (if i < sl_len (Timestamps a) then arr_put_rest k a i out
                     else if j < sl_len (Timestamps b) then arr_put_rest k b j out
                     else Inr (k, out)) (\<lambda>(k, out).
              both (sl_reslice k) (sl_reslice k) out)))))))"

subsection \<open>The array as a list\<close>

definition arr_wf :: "'v ts_array \<Rightarrow> bool" where
  "arr_wf a \<longleftrightarrow> sl_wf (Timestamps a) \<and> sl_wf (Values a) \<and> sl_len (Timestamps a) = sl_len (Values a)"

definition arr_list :: "'v ts_array \<Rightarrow> 'v tvalue list" where
  "arr_list a = zip (sl_list (Timestamps a)) (sl_list (Values a))"

lemma arr_wf_simps:
  assumes "arr_wf a"
  shows "length (sl_list (Timestamps a)) = arr_Len (Some a)" "length (sl_list (Values a)) = arr_Len (Some a)"
    "length (arr_list a) = arr_Len (Some a)" "map nano (arr_list a) = map sint (sl_list (Timestamps a))"
    "sl_len (Timestamps a) = arr_Len (Some a)" "sl_len (Values a) = arr_Len (Some a)"
proof -
  show len: "length (sl_list (Timestamps a)) = arr_Len (Some a)" "length (sl_list (Values a)) = arr_Len (Some a)"
    "sl_len (Timestamps a) = arr_Len (Some a)" "sl_len (Values a) = arr_Len (Some a)"
    using assms by (simp_all add: arr_wf_def arr_Len_def)
  then show "length (arr_list a) = arr_Len (Some a)" by (simp add: arr_list_def)
  have "map nano (zip xs ys) = map sint xs" if "length xs = length ys" for xs and ys :: "'a list"
    using that by (induction xs ys rule: list_induct2) (simp_all add: nano_def)
  then show "map nano (arr_list a) = map sint (sl_list (Timestamps a))" using len by (simp add: arr_list_def)
qed

lemma nano_nth: "arr_wf a \<Longrightarrow> i < arr_Len (Some a) \<Longrightarrow> sint (sl_list (Timestamps a) ! i) = nano (arr_list a ! i)"
  by (simp add: arr_list_def nano_def arr_wf_simps)

lemma search_loop_map: "hi \<le> length a \<Longrightarrow> search_loop ts v a lo hi = search_loop (\<lambda>t. t) v (map ts a) lo hi"
proof (induction ts v a lo hi rule: search_loop.induct)
  case (1 ts v a lo hi)
  show ?case
  proof (cases "lo < hi")
    case True
    define mid where "mid = (lo + hi) div 2"
    have mid: "mid < length a" using True 1(3) by (simp add: mid_def)
    show ?thesis
      unfolding search_loop_step [OF True mid_def]
      using 1(1) [OF True mid_def] 1(2) [OF True mid_def] 1(3) mid by (simp add: mid_def)
  qed (simp add: search_loop.simps)
qed

lemma arr_search_list: "arr_wf a \<Longrightarrow> arr_search v a = vs_search nano v (arr_list a)"
  using search_loop_map [of "arr_Len (Some a)" "sl_list (Timestamps a)" sint v 0]
    search_loop_map [of "arr_Len (Some a)" "arr_list a" nano v 0]
  by (simp add: arr_search_def vs_search_def arr_wf_simps)

lemma arr_FindRange_list:
  assumes "arr_wf a"
  shows "arr_FindRange mn mx a = Inr (vs_FindRange nano mn mx (arr_list a))"
  using assms nano_nth [OF assms]
  by (simp add: arr_FindRange_def vs_FindRange_def arr_MinTime_def arr_MaxTime_def sl_get_def arr_wf_simps
      arr_search_list Let_def del: length_0_conv)

subsection \<open>Ranges\<close>

lemma both_spec:
  assumes "\<exists>t. f (Timestamps a) = Inr t \<and> sl_wf t \<and> sl_list t = ts" "\<exists>v. g (Values a) = Inr v \<and> sl_wf v \<and> sl_list v = vs"
    and "length ts = length vs"
  shows "\<exists>b. both f g a = Inr b \<and> arr_wf b \<and> arr_list b = zip ts vs"
proof -
  obtain t v where tv: "f (Timestamps a) = Inr t" "sl_wf t" "sl_list t = ts" "g (Values a) = Inr v" "sl_wf v" "sl_list v = vs"
    using assms(1,2) by blast
  have "sl_len t = sl_len v" using length_sl_list [OF tv(2)] length_sl_list [OF tv(5)] assms(3) tv(3,6) by simp
  then show ?thesis using tv by (simp add: both_def arr_wf_def arr_list_def)
qed

lemma reslice_spec:
  assumes "sl_wf a" "n \<le> sl_len a"
  shows "\<exists>b. sl_reslice n a = Inr b \<and> sl_wf b \<and> sl_list b = take n (sl_list a)"
  using assms by (auto simp: sl_reslice_def sl_cap_def sl_wf_def sl_list_def min_absorb1)

lemma arr_past:
  assumes "arr_wf a" "vs_search nano mx (arr_list a) < arr_Len (Some a)"
  shows "(if sint (sl_list (Timestamps a) ! vs_search nano mx (arr_list a)) = mx then vs_search nano mx (arr_list a) + 1
    else vs_search nano mx (arr_list a)) = past nano mx (arr_list a)"
  using assms nano_nth [OF assms] by (simp add: past_def Let_def arr_wf_simps)

lemma arr_Exclude_meets:
  assumes "arr_wf a" "meets nano mn mx (arr_list a)"
  shows "\<exists>b. arr_Exclude mn mx a = Inr b \<and> arr_wf b \<and>
    arr_list b = take (vs_search nano mn (arr_list a)) (arr_list a) @ drop (past nano mx (arr_list a)) (arr_list a)"
proof -
  let ?m = "vs_search nano mn (arr_list a)" and ?M = "past nano mx (arr_list a)" and ?n = "arr_Len (Some a)"
  note len = arr_wf_simps [OF assms(1)]
  have wf: "sl_wf (Timestamps a)" "sl_wf (Values a)" using assms(1) by (simp_all add: arr_wf_def)
  have mM: "?m \<le> ?M" "?M \<le> ?n"
    using past_bounds(1) [of mn mx nano "arr_list a"] past_bounds(2) [of nano mx "arr_list a"] assms(2) len
    by (simp_all add: meets_def)
  show ?thesis
  proof (cases "vs_search nano mx (arr_list a) < ?n")
    case True
    have "arr_Exclude mn mx a = both (cut_out ?m ?M (?n - ?M)) (cut_out ?m ?M (?n - ?M)) a"
      using True assms(2) arr_past [OF assms(1) True]
      by (simp add: arr_Exclude_def arr_FindRange_list [OF assms(1)] FindRange_meets Let_def split: if_splits)
    moreover have "\<exists>b. both (cut_out ?m ?M (?n - ?M)) (cut_out ?m ?M (?n - ?M)) a = Inr b \<and> arr_wf b \<and>
        arr_list b = zip (take ?m (sl_list (Timestamps a)) @ drop ?M (sl_list (Timestamps a)))
          (take ?m (sl_list (Values a)) @ drop ?M (sl_list (Values a)))"
      using cut_out_spec [OF wf(1) mM(1)] cut_out_spec [OF wf(2) mM(1)] mM(2) len by (intro both_spec) simp_all
    ultimately show ?thesis using len by (simp add: arr_list_def take_zip drop_zip)
  next
    case False
    have M: "?M = ?n" "?m \<le> ?n" using False mM vs_search_bound [of nano mx "arr_list a"] len by (auto simp: past_def Let_def)
    have "arr_Exclude mn mx a = both (sl_reslice ?m) (sl_reslice ?m) a"
      using False assms(2) by (simp add: arr_Exclude_def arr_FindRange_list [OF assms(1)] FindRange_meets)
    moreover have "\<exists>b. both (sl_reslice ?m) (sl_reslice ?m) a = Inr b \<and> arr_wf b \<and>
        arr_list b = zip (take ?m (sl_list (Timestamps a))) (take ?m (sl_list (Values a)))"
      using reslice_spec [OF wf(1), of ?m] reslice_spec [OF wf(2), of ?m] M(2) len by (intro both_spec) simp_all
    ultimately show ?thesis using M len by (simp add: arr_list_def take_zip)
  qed
qed

lemma arr_Include_meets:
  assumes "arr_wf a" "meets nano mn mx (arr_list a)"
  shows "\<exists>b. arr_Include mn mx a = Inr b \<and> arr_wf b \<and>
    arr_list b = drop (vs_search nano mn (arr_list a)) (take (past nano mx (arr_list a)) (arr_list a))"
proof -
  let ?m = "vs_search nano mn (arr_list a)" and ?M = "past nano mx (arr_list a)" and ?n = "arr_Len (Some a)"
  note len = arr_wf_simps [OF assms(1)]
  have wf: "sl_wf (Timestamps a)" "sl_wf (Values a)" using assms(1) by (simp_all add: arr_wf_def)
  have mM: "?m \<le> ?M" "?M \<le> ?n"
    using past_bounds(1) [of mn mx nano "arr_list a"] past_bounds(2) [of nano mx "arr_list a"] assms(2) len
    by (simp_all add: meets_def)
  have M: "nat (if vs_search nano mx (arr_list a) < ?n \<and> sint (sl_list (Timestamps a) ! vs_search nano mx (arr_list a)) = mx
      then int (vs_search nano mx (arr_list a)) + 1 else int (vs_search nano mx (arr_list a))) = ?M"
    using nano_nth [OF assms(1), of "vs_search nano mx (arr_list a)"] len by (auto simp: past_def Let_def nat_add_distrib)
  have "arr_Include mn mx a = both (keep_only ?m ?M) (keep_only ?m ?M) a"
    using assms(2) M by (simp add: arr_Include_def arr_FindRange_list [OF assms(1)] FindRange_meets Let_def)
  moreover have "\<exists>b. both (keep_only ?m ?M) (keep_only ?m ?M) a = Inr b \<and> arr_wf b \<and>
      arr_list b = zip (drop ?m (take ?M (sl_list (Timestamps a)))) (drop ?m (take ?M (sl_list (Values a))))"
    using keep_only_spec [OF wf(1) mM(1)] keep_only_spec [OF wf(2) mM(1)] mM(2) len by (intro both_spec) simp_all
  ultimately show ?thesis by (simp add: arr_list_def take_zip drop_zip)
qed

lemma arr_Include_apart:
  assumes "arr_wf a" "\<not> meets nano mn mx (arr_list a)"
  shows "\<exists>b. arr_Include mn mx a = Inr b \<and> arr_wf b \<and> arr_list b = []"
proof -
  have "\<exists>b. both (sl_reslice 0) (sl_reslice 0) a = Inr b \<and> arr_wf b \<and> arr_list b = zip [] []"
    using reslice_spec [of "Timestamps a" 0] reslice_spec [of "Values a" 0] assms(1)
    by (intro both_spec) (simp_all add: arr_wf_def)
  then show ?thesis
    using assms(2) by (simp add: arr_Include_def arr_FindRange_list [OF assms(1)] FindRange_meets)
qed

lemma arr_Exclude_list:
  assumes "arr_wf a"
  shows "\<exists>b c. arr_Exclude mn mx a = Inr b \<and> vs_Exclude nano mn mx (slice_of (arr_list a)) = Inr c \<and>
    arr_wf b \<and> arr_list b = sl_list c"
proof (cases "meets nano mn mx (arr_list a)")
  case True
  then show ?thesis
    using arr_Exclude_meets [OF assms True] Exclude_meets [of "slice_of (arr_list a)" nano mn mx] by auto
next
  case False
  then have "arr_Exclude mn mx a = Inr a" by (simp add: arr_Exclude_def arr_FindRange_list [OF assms] FindRange_meets)
  then show ?thesis using assms Exclude_apart [of nano mn mx "slice_of (arr_list a)"] False by auto
qed

lemma arr_Include_list:
  assumes "arr_wf a"
  shows "\<exists>b c. arr_Include mn mx a = Inr b \<and> vs_Include nano mn mx (slice_of (arr_list a)) = Inr c \<and>
    arr_wf b \<and> arr_list b = sl_list c"
proof (cases "meets nano mn mx (arr_list a)")
  case True
  then show ?thesis
    using arr_Include_meets [OF assms True] Include_meets [of "slice_of (arr_list a)" nano mn mx] by auto
next
  case False
  then show ?thesis
    using arr_Include_apart [OF assms False] Include_apart [of nano mn mx "slice_of (arr_list a)"] by auto
qed

subsection \<open>Merging\<close>

text \<open>What the merge of the arrays computes: of two values at one time only the second is taken.\<close>

fun merge_lists :: "('a \<Rightarrow> int) \<Rightarrow> 'a list \<Rightarrow> 'a list \<Rightarrow> 'a list" where
  "merge_lists ts [] b = b"
| "merge_lists ts a [] = a"
| "merge_lists ts (x # a) (y # b) =
     (if ts x < ts y then x # merge_lists ts a (y # b)
      else if ts x = ts y then y # merge_lists ts a b
      else y # merge_lists ts (x # a) b)"

lemma merge_lists_Nil2 [simp]: "merge_lists ts a [] = a"
  by (cases a) simp_all

text \<open>On strictly increasing lists it is the merge of the slices of values.\<close>

lemma merge_lists_increasing:
  "increasing ts a \<Longrightarrow> increasing ts b \<Longrightarrow> merge_lists ts a b = merge_loop ts [] a b"
proof (induction ts a b rule: merge_lists.induct)
  case (3 ts x a y b)
  consider "ts x < ts y" | "ts x = ts y" | "ts y < ts x" by linarith
  then show ?case
  proof cases
    case 2
    have "merge_loop ts [] a (y # b) = y # merge_loop ts [] a b"
      using 2 3(4) by (cases a) (auto simp: merge_loop_simps)
    then show ?thesis using 2 3 by (simp add: merge_loop_simps)
  qed (use 3 in \<open>simp_all add: merge_loop_simps\<close>)
qed (simp_all add: merge_loop_simps)

text \<open>The loop fills \<open>out\<close> up to \<open>k\<close>; the copy behind it moves what is left of the longer array.\<close>

lemma sl_list_set: "sl_list (s\<lparr>sl_arr := (sl_arr s)[k := v]\<rparr>) = (sl_list s)[k := v]"
  by (simp add: sl_list_def take_update_swap)

lemma arr_put_spec:
  assumes "arr_wf s" "i < arr_Len (Some s)" "arr_wf out" "k < arr_Len (Some out)"
  shows "\<exists>out'. arr_put k s i out = Inr out' \<and> arr_wf out' \<and> arr_Len (Some out') = arr_Len (Some out) \<and>
    take (k + 1) (arr_list out') = take k (arr_list out) @ [arr_list s ! i]"
proof -
  let ?t = "sl_list (Timestamps s) ! i" and ?v = "sl_list (Values s) ! i"
  let ?T = "Timestamps out" and ?V = "Values out"
  define out' where "out' = \<lparr>Timestamps = ?T\<lparr>sl_arr := (sl_arr ?T)[k := ?t]\<rparr>, Values = ?V\<lparr>sl_arr := (sl_arr ?V)[k := ?v]\<rparr>\<rparr>"
  have "arr_put k s i out = Inr out'"
    using assms by (simp add: arr_put_def sl_get_def both_def sl_set_def arr_wf_simps out'_def)
  moreover have "arr_wf out'" "arr_Len (Some out') = arr_Len (Some out)"
    using assms(3) by (simp_all add: out'_def arr_wf_def sl_wf_def arr_Len_def)
  moreover have "take (k + 1) (arr_list out') = take k (arr_list out) @ [(?t, ?v)]"
    using assms(3,4) by (simp add: out'_def arr_list_def sl_list_set take_zip take_Suc_update arr_wf_simps)
  moreover have "arr_list s ! i = (?t, ?v)" using assms(1,2) by (simp add: arr_list_def arr_wf_simps)
  ultimately show ?thesis by simp
qed

lemma take_sl_copy:
  assumes "sl_wf s" "k + length xs \<le> sl_len s"
  shows "sl_wf (sl_copy k xs s)" "sl_len (sl_copy k xs s) = sl_len s"
    "take (k + length xs) (sl_list (sl_copy k xs s)) = take k (sl_list s) @ xs"
proof -
  have "min (length xs) (sl_len s - k) = length xs" using assms(2) by linarith
  then have c: "sl_copy k xs s = s\<lparr>sl_arr := take k (sl_arr s) @ xs @ drop (k + length xs) (sl_arr s)\<rparr>"
    by (simp add: sl_copy_def)
  have k: "k + length xs \<le> length (sl_arr s)" "k \<le> sl_len s" using assms by (simp_all add: sl_wf_def)
  show "sl_wf (sl_copy k xs s)" "sl_len (sl_copy k xs s) = sl_len s" using assms k by (simp_all add: c sl_wf_def)
  have "sl_list (sl_copy k xs s) = take (sl_len s) (take k (sl_arr s) @ xs @ drop (k + length xs) (sl_arr s))"
    by (simp add: c sl_list_def)
  then have "take (k + length xs) (sl_list (sl_copy k xs s)) = take (k + length xs) (take k (sl_arr s) @ xs @ drop (k + length xs) (sl_arr s))"
    using assms(2) by (simp only: take_take min_absorb1)
  also have "\<dots> = take k (sl_list s) @ xs" using k by (simp add: sl_list_def min_absorb1)
  finally show "take (k + length xs) (sl_list (sl_copy k xs s)) = take k (sl_list s) @ xs" .
qed

lemma arr_put_rest_spec:
  assumes "arr_wf s" "i \<le> arr_Len (Some s)" "arr_wf out" "k + (arr_Len (Some s) - i) \<le> arr_Len (Some out)"
  shows "\<exists>out'. arr_put_rest k s i out = Inr (k + (arr_Len (Some s) - i), out') \<and> arr_wf out' \<and>
    arr_Len (Some out') = arr_Len (Some out) \<and>
    take (k + (arr_Len (Some s) - i)) (arr_list out') = take k (arr_list out) @ drop i (arr_list s)"
proof -
  note len = arr_wf_simps [OF assms(1)] arr_wf_simps [OF assms(3)]
  let ?T = "drop i (sl_list (Timestamps s))" and ?V = "drop i (sl_list (Values s))"
  have wf: "sl_wf (Timestamps out)" "sl_wf (Values out)" using assms(3) by (simp_all add: arr_wf_def)
  have T: "k + length ?T \<le> sl_len (Timestamps out)" "k + length ?V \<le> sl_len (Values out)" using assms(4) len by simp_all
  define out' where "out' = \<lparr>Timestamps = sl_copy k ?T (Timestamps out), Values = sl_copy k ?V (Values out)\<rparr>"
  have "arr_put_rest k s i out = Inr (k + (arr_Len (Some s) - i), out')"
    using assms(2,4) len by (simp add: arr_put_rest_def out'_def min_absorb1)
  moreover have "arr_wf out'" "arr_Len (Some out') = arr_Len (Some out)"
    using take_sl_copy(1,2) [OF wf(1) T(1)] take_sl_copy(1,2) [OF wf(2) T(2)] assms(3)
    by (simp_all add: out'_def arr_wf_def arr_Len_def)
  moreover have "take (k + (arr_Len (Some s) - i)) (arr_list out') = take k (arr_list out) @ drop i (arr_list s)"
  proof -
    let ?n = "k + (arr_Len (Some s) - i)"
    have n: "?n = k + length ?T" "?n = k + length ?V" using len by simp_all
    have "take ?n (arr_list out') = zip (take ?n (sl_list (Timestamps out'))) (take ?n (sl_list (Values out')))"
      by (simp add: arr_list_def take_zip)
    also have "take ?n (sl_list (Timestamps out')) = take k (sl_list (Timestamps out)) @ ?T"
      unfolding n(1) out'_def using take_sl_copy(3) [OF wf(1) T(1)] by simp
    also have "take ?n (sl_list (Values out')) = take k (sl_list (Values out)) @ ?V"
      unfolding n(2) out'_def using take_sl_copy(3) [OF wf(2) T(2)] by simp
    finally show ?thesis using len by (simp add: arr_list_def take_zip drop_zip)
  qed
  ultimately show ?thesis by blast
qed

lemma arr_merge_loop_spec:
  assumes "arr_wf a" "arr_wf b" "arr_wf out" "arr_Len (Some out) = arr_Len (Some a) + arr_Len (Some b)"
    and "i \<le> arr_Len (Some a)" "j \<le> arr_Len (Some b)" "k \<le> i + j"
  shows "\<exists>i' j' k' out'. arr_merge_loop a b i j k out = Inr (i', j', k', out') \<and> arr_wf out' \<and>
    arr_Len (Some out') = arr_Len (Some out) \<and> i' \<le> arr_Len (Some a) \<and> j' \<le> arr_Len (Some b) \<and> k' \<le> i' + j' \<and>
    (i' = arr_Len (Some a) \<or> j' = arr_Len (Some b)) \<and>
    take k' (arr_list out') @ drop i' (arr_list a) @ drop j' (arr_list b) =
      take k (arr_list out) @ merge_lists nano (drop i (arr_list a)) (drop j (arr_list b))"
    (is "\<exists>i' j' k' out'. _ = _ \<and> ?P i j k out i' j' k' out'")
  using assms(3-)
proof (induction "(arr_Len (Some a) - i) + (arr_Len (Some b) - j)" arbitrary: i j k out rule: less_induct)
  case less
  let ?na = "arr_Len (Some a)" and ?nb = "arr_Len (Some b)" and ?A = "arr_list a" and ?B = "arr_list b"
  note len = arr_wf_simps [OF assms(1)] arr_wf_simps [OF assms(2)]
  show ?case
  proof (cases "i < ?na \<and> j < ?nb")
    case True
    then have A: "drop i ?A = ?A ! i # drop (i + 1) ?A" and B: "drop j ?B = ?B ! j # drop (j + 1) ?B"
      using len by (simp_all add: Cons_nth_drop_Suc)
    have k: "k < arr_Len (Some out)" using True less.prems by linarith
    obtain oa where oa: "arr_put k a i out = Inr oa" "arr_wf oa" "arr_Len (Some oa) = arr_Len (Some out)"
      "take (k + 1) (arr_list oa) = take k (arr_list out) @ [?A ! i]"
      using arr_put_spec [OF assms(1) _ less.prems(1) k] True by blast
    obtain ob where ob: "arr_put k b j out = Inr ob" "arr_wf ob" "arr_Len (Some ob) = arr_Len (Some out)"
      "take (k + 1) (arr_list ob) = take k (arr_list out) @ [?B ! j]"
      using arr_put_spec [OF assms(2) _ less.prems(1) k] True by blast
    have na: "sint (sl_list (Timestamps a) ! i) = nano (?A ! i)" "sint (sl_list (Timestamps b) ! j) = nano (?B ! j)"
      using nano_nth [OF assms(1), of i] nano_nth [OF assms(2), of j] True by simp_all
    then have eq: "sl_list (Timestamps a) ! i = sl_list (Timestamps b) ! j \<longleftrightarrow> nano (?A ! i) = nano (?B ! j)"
      by (metis signed_word_eqI)
    note step = arr_merge_loop.simps [of a b i j k out, unfolded na eq len]
    consider "nano (?A ! i) < nano (?B ! j)" | "nano (?A ! i) = nano (?B ! j)" | "nano (?B ! j) < nano (?A ! i)" by linarith
    then show ?thesis
    proof cases
      case 1
      have "\<exists>i' j' k' out'. arr_merge_loop a b (i + 1) j (k + 1) oa = Inr (i', j', k', out') \<and> ?P (i + 1) j (k + 1) oa i' j' k' out'"
        using True less.prems oa by (intro less.hyps) auto
      then show ?thesis using 1 True oa A B step by simp
    next
      case 2
      have "\<exists>i' j' k' out'. arr_merge_loop a b (i + 1) (j + 1) (k + 1) ob = Inr (i', j', k', out') \<and> ?P (i + 1) (j + 1) (k + 1) ob i' j' k' out'"
        using True less.prems ob by (intro less.hyps) auto
      then show ?thesis using 2 True ob A B step by simp
    next
      case 3
      have "\<exists>i' j' k' out'. arr_merge_loop a b i (j + 1) (k + 1) ob = Inr (i', j', k', out') \<and> ?P i (j + 1) (k + 1) ob i' j' k' out'"
        using True less.prems ob by (intro less.hyps) auto
      then show ?thesis using 3 True ob A B step by simp
    qed
  next
    case False
    then have "arr_merge_loop a b i j k out = Inr (i, j, k, out)" using len by (subst arr_merge_loop.simps) auto
    moreover have "i = ?na \<or> j = ?nb" using False less.prems by auto
    ultimately show ?thesis using less.prems len by auto
  qed
qed

lemma sl_append_spec:
  assumes "sl_wf s"
  shows "sl_wf (sl_append s xs)" "sl_list (sl_append s xs) = sl_list s @ xs" "sl_len (sl_append s xs) = sl_len s + length xs"
  using assms by (auto simp: sl_append_def sl_wf_def sl_cap_def sl_list_def slice_of_def min_absorb1)

lemma arr_append_spec:
  assumes "arr_wf a" "arr_wf b"
  shows "arr_wf (arr_append a b)" "arr_list (arr_append a b) = arr_list a @ arr_list b"
proof -
  have wf: "sl_wf (Timestamps a)" "sl_wf (Values a)" using assms(1) by (simp_all add: arr_wf_def)
  note len = arr_wf_simps(1,2,5,6) [OF assms(1)] arr_wf_simps(1,2,5,6) [OF assms(2)]
  show "arr_wf (arr_append a b)"
    using sl_append_spec(1,3) [OF wf(1)] sl_append_spec(1,3) [OF wf(2)] len by (simp add: arr_append_def arr_wf_def)
  show "arr_list (arr_append a b) = arr_list a @ arr_list b"
    using sl_append_spec(2) [OF wf(1)] sl_append_spec(2) [OF wf(2)] len by (simp add: arr_append_def arr_list_def)
qed

lemma arr_Times:
  assumes "arr_wf a" "arr_list a \<noteq> []"
  shows "arr_MinTime a = Inr (nano (arr_list a ! 0))" "arr_MaxTime a = Inr (nano (arr_list a ! (length (arr_list a) - 1)))"
proof -
  have n: "arr_Len (Some a) > 0" using assms(2) arr_wf_simps(3) [OF assms(1)] by (cases "arr_list a") auto
  show "arr_MinTime a = Inr (nano (arr_list a ! 0))"
    using n nano_nth [OF assms(1), of 0] by (simp add: arr_MinTime_def sl_get_def arr_wf_simps [OF assms(1)])
  show "arr_MaxTime a = Inr (nano (arr_list a ! (length (arr_list a) - 1)))"
    using n nano_nth [OF assms(1), of "arr_Len (Some a) - 1"]
    by (simp add: arr_MaxTime_def sl_get_def arr_wf_simps [OF assms(1)])
qed

lemma arr_NewArrayLen: "arr_wf (NewArrayLen z n)" "arr_Len (Some (NewArrayLen z n)) = n"
  by (simp_all add: NewArrayLen_def arr_wf_def arr_Len_def)

lemma arr_interleave:
  assumes "arr_wf a" "arr_wf b"
  shows "\<exists>c. rbind (arr_merge_loop a b 0 0 0 (NewArrayLen zero (arr_Len (Some a) + arr_Len (Some b)))) (\<lambda>(i, j, k, out).
      rbind (if i < sl_len (Timestamps a) then arr_put_rest k a i out
             else if j < sl_len (Timestamps b) then arr_put_rest k b j out
             else Inr (k, out)) (\<lambda>(k, out).
      both (sl_reslice k) (sl_reslice k) out)) = Inr c \<and> arr_wf c \<and> arr_list c = merge_lists nano (arr_list a) (arr_list b)"
proof -
  let ?na = "arr_Len (Some a)" and ?nb = "arr_Len (Some b)"
  note len = arr_wf_simps [OF assms(1)] arr_wf_simps [OF assms(2)]
  obtain i j k out where l: "arr_merge_loop a b 0 0 0 (NewArrayLen zero (?na + ?nb)) = Inr (i, j, k, out)" "arr_wf out"
    "arr_Len (Some out) = ?na + ?nb" "i \<le> ?na" "j \<le> ?nb" "k \<le> i + j" "i = ?na \<or> j = ?nb"
    "take k (arr_list out) @ drop i (arr_list a) @ drop j (arr_list b) = merge_lists nano (arr_list a) (arr_list b)"
    using arr_merge_loop_spec [OF assms arr_NewArrayLen(1) [of zero "?na + ?nb"] arr_NewArrayLen(2), of 0 0 0]
      arr_NewArrayLen(2) [of zero "?na + ?nb"] by auto
  define rest where "rest = (if i < sl_len (Timestamps a) then arr_put_rest k a i out
    else if j < sl_len (Timestamps b) then arr_put_rest k b j out else Inr (k, out))"
  have "\<exists>k' out'. rest = Inr (k', out') \<and> arr_wf out' \<and> k' \<le> arr_Len (Some out') \<and>
      take k' (arr_list out') = merge_lists nano (arr_list a) (arr_list b)"
  proof -
    consider "i < ?na" "j = ?nb" | "i = ?na" "j < ?nb" | "i = ?na" "j = ?nb" using l by linarith
    then show ?thesis
    proof cases
      case 1
      then have fit: "k + (?na - i) \<le> arr_Len (Some out)" using l by linarith
      have "rest = arr_put_rest k a i out" using 1 len by (simp add: rest_def)
      then show ?thesis using arr_put_rest_spec [OF assms(1) l(4) l(2) fit] fit 1 l(8) len by auto
    next
      case 2
      then have fit: "k + (?nb - j) \<le> arr_Len (Some out)" using l by linarith
      have "rest = arr_put_rest k b j out" using 2 len by (simp add: rest_def)
      then show ?thesis using arr_put_rest_spec [OF assms(2) l(5) l(2) fit] fit 2 l(8) len by auto
    next
      case 3
      then show ?thesis using l len by (auto simp: rest_def)
    qed
  qed
  then obtain k' out' where r: "rest = Inr (k', out')" "arr_wf out'" "k' \<le> arr_Len (Some out')"
    "take k' (arr_list out') = merge_lists nano (arr_list a) (arr_list b)" by blast
  have "\<exists>c. both (sl_reslice k') (sl_reslice k') out' = Inr c \<and> arr_wf c \<and>
      arr_list c = zip (take k' (sl_list (Timestamps out'))) (take k' (sl_list (Values out')))"
    using r(2,3) reslice_spec [of "Timestamps out'" k'] reslice_spec [of "Values out'" k'] arr_wf_simps [OF r(2)]
    by (intro both_spec) (simp_all add: arr_wf_def)
  then show ?thesis using l(1) r(1,4) by (simp flip: rest_def add: arr_list_def take_zip)
qed

lemma arr_Merge_eq:
  assumes "arr_wf a" "arr_wf b"
  shows "\<exists>c. arr_Merge zero a (Some b) = Inr c \<and> arr_wf c \<and>
    arr_list c =
      (let A = arr_list a; B = arr_list b
       in if A = [] then B else if B = [] then A
          else if nano (A ! (length A - 1)) < nano (B ! 0) then A @ B
          else if nano (B ! (length B - 1)) < nano (A ! 0) then B @ A
          else merge_lists nano A B)"
proof -
  let ?A = "arr_list a" and ?B = "arr_list b"
  have ne: "arr_Len (Some a) = 0 \<longleftrightarrow> ?A = []" "arr_Len (Some b) = 0 \<longleftrightarrow> ?B = []"
    using arr_wf_simps(3) [OF assms(1)] arr_wf_simps(3) [OF assms(2)] by (metis length_0_conv)+
  show ?thesis
  proof (cases "?A = [] \<or> ?B = []")
    case True
    then show ?thesis using ne assms by (auto simp: arr_Merge_def Let_def)
  next
    case False
    note times = arr_Times [OF assms(1)] arr_Times [OF assms(2)]
    show ?thesis
      using False ne times assms arr_append_spec [OF assms] arr_append_spec [OF assms(2,1)] arr_interleave [OF assms, of zero]
      by (simp add: arr_Merge_def Let_def)
  qed
qed

lemma arr_Merge_list:
  assumes "arr_wf a" "arr_wf b" "increasing nano (arr_list a)" "increasing nano (arr_list b)"
  shows "\<exists>c. arr_Merge zero a (Some b) = Inr c \<and> arr_wf c \<and> arr_list c = vs_Merge nano (arr_list a) (arr_list b)"
  using arr_Merge_eq [OF assms(1,2), of zero] assms(3,4)
  by (auto simp: vs_Merge_def Let_def Deduplicate_fixed merge_lists_increasing)

subsection \<open>Through the blocks\<close>

lemma array_of_wf: "length ts = length vs \<Longrightarrow> arr_wf (array_of ts vs)" "arr_list (array_of ts vs) = zip ts vs"
  by (simp_all add: array_of_def arr_wf_def arr_list_def)

lemma encode_shows: "encode_array_block typ enc a b = encode_array_block typ enc (array_of (sl_list (Timestamps a)) (sl_list (Values a))) b"
  by (simp add: encode_array_block_def array_of_def)

lemma merge_loop_length: "length (merge_loop ts [] a b) \<le> length a + length b"
proof (induction "length a + length b" arbitrary: a b rule: less_induct)
  case less
  show ?case
  proof (cases a)
    case a: (Cons x c)
    show ?thesis
    proof (cases b)
      case b: (Cons y d)
      have "length (merge_loop ts [] c b) \<le> length c + length b" "length (merge_loop ts [] a d) \<le> length a + length d"
        by (rule less; simp add: a b)+
      then show ?thesis by (simp add: a b merge_loop_simps)
    qed (simp add: a merge_loop_simps)
  qed (simp add: merge_loop_simps)
qed

lemma Merge_length:
  assumes "increasing ts a" "increasing ts b"
  shows "length (vs_Merge ts a b) \<le> length a + length b"
  using merge_loop_length [of ts a b] assms by (simp add: vs_Merge_def Let_def Deduplicate_fixed)

subsection \<open>Properties\<close>

text \<open>
  \<open>Exclude\<close> and \<open>Include\<close> of the arrays refine those of the slices of values: on an array whose
  two slices have one length they succeed, keep the lengths equal, and show the timestamps and values
  that the methods of the slices give on the zipped list, whether or not it is sorted.
\<close>

theorem arr_ranges_refine:
  assumes "arr_wf a"
  shows "(\<exists>b c. arr_Exclude mn mx a = Inr b \<and> vs_Exclude nano mn mx (slice_of (arr_list a)) = Inr c \<and>
      arr_wf b \<and> arr_list b = sl_list c) \<and>
    (\<exists>b c. arr_Include mn mx a = Inr b \<and> vs_Include nano mn mx (slice_of (arr_list a)) = Inr c \<and>
      arr_wf b \<and> arr_list b = sl_list c)"
  using arr_Exclude_list [OF assms] arr_Include_list [OF assms] by blast

theorem arr_ranges_refine_witness:
  "\<exists>b c. arr_Exclude 2 4 (array_of [1, 2, 5] [10, 20, 50 :: i64]) = Inr b \<and>
     vs_Exclude nano 2 4 (slice_of [(1, 10), (2, 20), (5, 50)]) = Inr c \<and> arr_wf b \<and> arr_list b = sl_list c"
  using arr_ranges_refine [of "array_of [1, 2, 5] [10, 20, 50 :: i64]" 2 4] by (simp add: array_of_wf)

text \<open>
  C16. On arrays in strictly increasing order \<open>Merge\<close> of the arrays and \<open>Merge\<close> of the slices agree,
  although the first interleaves by index into a preallocated pair of slices and the second pops
  elements and removes duplicates first.
\<close>

theorem arr_Merge_equivalent:
  assumes "arr_wf a" "arr_wf b" "increasing nano (arr_list a)" "increasing nano (arr_list b)"
  shows "\<exists>c. arr_Merge zero a (Some b) = Inr c \<and> arr_wf c \<and> arr_list c = vs_Merge nano (arr_list a) (arr_list b)"
  by (rule arr_Merge_list [OF assms])

theorem arr_Merge_equivalent_witness:
  "\<exists>c. arr_Merge 0 (array_of [1, 3, 5] [10, 30, 50 :: i64]) (Some (array_of [2, 3] [21, 31])) = Inr c \<and> arr_wf c \<and>
     arr_list c = vs_Merge nano [(1, 10), (3, 30), (5, 50)] [(2, 21), (3, 31)]"
  using arr_Merge_equivalent [of "array_of [1, 3, 5] [10, 30, 50 :: i64]" "array_of [2, 3] [21, 31]" 0]
  by (simp add: array_of_wf nano_def)




end
