(* ===== verification/TsmValueTypes.thy ===== *)
theory TsmValueTypes
  imports TsmArrays
begin

text \<open>
  The five value types of \<open>encoding.gen.go\<close> and \<open>arrayvalues.gen.go\<close>. Both files are generated: each type
  has the same methods, and what one type differs in is its value type, the size of a value and the
  zero value of a slice. A method set is a record of the operations of \<open>TsmValues\<close> and \<open>TsmArrays\<close>,
  and each generated type is one such record. \<open>float64\<close> values are kept as their bits; no method here
  compares them.
\<close>

subsection \<open>Slices of values\<close>

record 'a order_methods =
  m_MinTime :: "'a list \<Rightarrow> int res"
  m_MaxTime :: "'a list \<Rightarrow> int res"
  m_Size :: "'a list \<Rightarrow> nat"
  m_ordered :: "'a list \<Rightarrow> bool"
  m_assertOrdered :: "'a list \<Rightarrow> unit res"
  m_Deduplicate :: "'a list \<Rightarrow> 'a list"

record 'a range_methods =
  m_Exclude :: "int \<Rightarrow> int \<Rightarrow> 'a slice \<Rightarrow> 'a slice res"
  m_Include :: "int \<Rightarrow> int \<Rightarrow> 'a slice \<Rightarrow> 'a slice res"
  m_search :: "int \<Rightarrow> 'a list \<Rightarrow> nat"
  m_FindRange :: "int \<Rightarrow> int \<Rightarrow> 'a list \<Rightarrow> int \<times> int"
  m_Merge :: "'a list \<Rightarrow> 'a list \<Rightarrow> 'a list"

definition ordered_by :: "('a \<Rightarrow> int) \<Rightarrow> ('a \<Rightarrow> nat) \<Rightarrow> 'a order_methods" where
  "ordered_by ts size_of =
     \<lparr>m_MinTime = vs_MinTime ts, m_MaxTime = vs_MaxTime ts, m_Size = vs_Size size_of, m_ordered = vs_ordered ts,
      m_assertOrdered = vs_assertOrdered ts, m_Deduplicate = vs_Deduplicate ts\<rparr>"

definition ranged_by :: "('a \<Rightarrow> int) \<Rightarrow> 'a range_methods" where
  "ranged_by ts =
     \<lparr>m_Exclude = vs_Exclude ts, m_Include = vs_Include ts, m_search = vs_search ts, m_FindRange = vs_FindRange ts,
      m_Merge = vs_Merge ts\<rparr>"

definition FloatValue_Size :: "u64 tvalue \<Rightarrow> nat" where
  "FloatValue_Size v = 16"

definition FloatValues_order :: "u64 tvalue order_methods" where
  "FloatValues_order = ordered_by nano FloatValue_Size"

definition FloatValues_ranges :: "u64 tvalue range_methods" where
  "FloatValues_ranges = ranged_by nano"

definition IntegerValue_Size :: "i64 tvalue \<Rightarrow> nat" where
  "IntegerValue_Size v = 16"

definition IntegerValues_order :: "i64 tvalue order_methods" where
  "IntegerValues_order = ordered_by nano IntegerValue_Size"

definition IntegerValues_ranges :: "i64 tvalue range_methods" where
  "IntegerValues_ranges = ranged_by nano"

definition UnsignedValue_Size :: "u64 tvalue \<Rightarrow> nat" where
  "UnsignedValue_Size v = 16"

definition UnsignedValues_order :: "u64 tvalue order_methods" where
  "UnsignedValues_order = ordered_by nano UnsignedValue_Size"

definition UnsignedValues_ranges :: "u64 tvalue range_methods" where
  "UnsignedValues_ranges = ranged_by nano"

definition StringValue_Size :: "(u8 list) tvalue \<Rightarrow> nat" where
  "StringValue_Size v = 8 + length (snd v)"

definition StringValues_order :: "(u8 list) tvalue order_methods" where
  "StringValues_order = ordered_by nano StringValue_Size"

definition StringValues_ranges :: "(u8 list) tvalue range_methods" where
  "StringValues_ranges = ranged_by nano"

definition BooleanValue_Size :: "bool tvalue \<Rightarrow> nat" where
  "BooleanValue_Size v = 9"

definition BooleanValues_order :: "bool tvalue order_methods" where
  "BooleanValues_order = ordered_by nano BooleanValue_Size"

definition BooleanValues_ranges :: "bool tvalue range_methods" where
  "BooleanValues_ranges = ranged_by nano"

subsection \<open>Arrays\<close>

record 'v array_reads =
  a_NewLen :: "nat \<Rightarrow> 'v ts_array"
  a_MinTime :: "'v ts_array \<Rightarrow> int res"
  a_MaxTime :: "'v ts_array \<Rightarrow> int res"
  a_Len :: "'v ts_array option \<Rightarrow> nat"
  a_search :: "int \<Rightarrow> 'v ts_array \<Rightarrow> nat"
  a_FindRange :: "int \<Rightarrow> int \<Rightarrow> 'v ts_array \<Rightarrow> (int \<times> int) res"

record 'v array_updates =
  a_Exclude :: "int \<Rightarrow> int \<Rightarrow> 'v ts_array \<Rightarrow> 'v ts_array res"
  a_Include :: "int \<Rightarrow> int \<Rightarrow> 'v ts_array \<Rightarrow> 'v ts_array res"
  a_Merge :: "'v ts_array \<Rightarrow> 'v ts_array option \<Rightarrow> 'v ts_array res"

definition array_reads_of :: "'v \<Rightarrow> 'v array_reads" where
  "array_reads_of zero =
     \<lparr>a_NewLen = NewArrayLen zero, a_MinTime = arr_MinTime, a_MaxTime = arr_MaxTime, a_Len = arr_Len,
      a_search = arr_search, a_FindRange = arr_FindRange\<rparr>"

definition array_updates_of :: "'v \<Rightarrow> 'v array_updates" where
  "array_updates_of zero = \<lparr>a_Exclude = arr_Exclude, a_Include = arr_Include, a_Merge = arr_Merge zero\<rparr>"

text \<open>\<open>New...ArrayFromValues\<close>: a fresh array, filled by index.\<close>

fun from_values_loop :: "nat \<Rightarrow> 'v tvalue list \<Rightarrow> 'v ts_array \<Rightarrow> 'v ts_array res" where
  "from_values_loop i [] a = Inr a"
| "from_values_loop i (val # rest) a =
     rbind (both (sl_set i (fst val)) (sl_set i (snd val)) a) (from_values_loop (i + 1) rest)"

definition NewArrayFromValues :: "'v \<Rightarrow> 'v tvalue list \<Rightarrow> 'v ts_array res" where
  "NewArrayFromValues zero v = from_values_loop 0 v (NewArrayLen zero (length v))"

text \<open>The size of an array: eight bytes per timestamp and the values.\<close>

definition word_array_Size :: "'v ts_array \<Rightarrow> nat" where
  "word_array_Size a = sl_len (Timestamps a) * 8 + sl_len (Values a) * 8"

definition FloatArray_reads :: "u64 array_reads" where
  "FloatArray_reads = array_reads_of 0"

definition FloatArray_updates :: "u64 array_updates" where
  "FloatArray_updates = array_updates_of 0"

definition NewFloatArrayFromValues :: "u64 tvalue list \<Rightarrow> u64 ts_array res" where
  "NewFloatArrayFromValues = NewArrayFromValues 0"

definition IntegerArray_reads :: "i64 array_reads" where
  "IntegerArray_reads = array_reads_of 0"

definition IntegerArray_updates :: "i64 array_updates" where
  "IntegerArray_updates = array_updates_of 0"

definition NewIntegerArrayFromValues :: "i64 tvalue list \<Rightarrow> i64 ts_array res" where
  "NewIntegerArrayFromValues = NewArrayFromValues 0"

definition UnsignedArray_reads :: "u64 array_reads" where
  "UnsignedArray_reads = array_reads_of 0"

definition UnsignedArray_updates :: "u64 array_updates" where
  "UnsignedArray_updates = array_updates_of 0"

definition NewUnsignedArrayFromValues :: "u64 tvalue list \<Rightarrow> u64 ts_array res" where
  "NewUnsignedArrayFromValues = NewArrayFromValues 0"

definition StringArray_reads :: "(u8 list) array_reads" where
  "StringArray_reads = array_reads_of []"

definition StringArray_updates :: "(u8 list) array_updates" where
  "StringArray_updates = array_updates_of []"

definition NewStringArrayFromValues :: "(u8 list) tvalue list \<Rightarrow> (u8 list) ts_array res" where
  "NewStringArrayFromValues = NewArrayFromValues []"

definition BooleanArray_reads :: "bool array_reads" where
  "BooleanArray_reads = array_reads_of False"

definition BooleanArray_updates :: "bool array_updates" where
  "BooleanArray_updates = array_updates_of False"

definition NewBooleanArrayFromValues :: "bool tvalue list \<Rightarrow> bool ts_array res" where
  "NewBooleanArrayFromValues = NewArrayFromValues False"

definition FloatArray_Size :: "u64 ts_array \<Rightarrow> nat" where "FloatArray_Size = word_array_Size"
definition IntegerArray_Size :: "i64 ts_array \<Rightarrow> nat" where "IntegerArray_Size = word_array_Size"
definition UnsignedArray_Size :: "u64 ts_array \<Rightarrow> nat" where "UnsignedArray_Size = word_array_Size"

definition StringArray_Size :: "u8 list ts_array \<Rightarrow> nat" where
  "StringArray_Size a = fold (\<lambda>s sz. sz + length s) (sl_list (Values a)) (sl_len (Timestamps a) * 8)"

definition BooleanArray_Size :: "bool ts_array \<Rightarrow> nat" where
  "BooleanArray_Size a = sl_len (Timestamps a) * 8 + sl_len (Values a)"

subsection \<open>From values to arrays\<close>

lemma from_values_loop_fill:
  assumes "i + length v \<le> length T" "length V = length T"
  shows "from_values_loop i v (array_of T V) =
    Inr (array_of (take i T @ map fst v @ drop (i + length v) T) (take i V @ map snd v @ drop (i + length v) V))"
  using assms
proof (induction v arbitrary: i T V)
  case (Cons x v)
  have step: "both (sl_set i (fst x)) (sl_set i (snd x)) (array_of T V) = Inr (array_of (T[i := fst x]) (V[i := snd x]))"
    using Cons.prems by (simp add: both_def array_of_def sl_set_def slice_of_def)
  show ?case
    using step Cons.IH [of "i + 1" "T[i := fst x]" "V[i := snd x]"] Cons.prems
    by (simp add: take_Suc_update)
qed simp

lemma NewArrayFromValues_array_of: "NewArrayFromValues zero v = Inr (array_of (map fst v) (map snd v))"
  using from_values_loop_fill [of 0 v "replicate (length v) 0" "replicate (length v) zero"]
  by (simp add: NewArrayFromValues_def NewArrayLen_def array_of_def)

lemma NewArrayFromValues_list:
  "\<exists>a. NewArrayFromValues zero v = Inr a \<and> arr_wf a \<and> arr_list a = v"
  by (simp add: NewArrayFromValues_array_of array_of_wf zip_map_fst_snd)

text \<open>The sizes agree: an array has the size of the slice of values it was made from.\<close>

lemma fold_add: "fold (\<lambda>v sz. sz + f v) a n = n + sum_list (map f a)" for n :: nat
  by (induction a arbitrary: n) simp_all

lemma array_sizes:
  "\<exists>a. NewFloatArrayFromValues f = Inr a \<and> FloatArray_Size a = m_Size FloatValues_order f"
  "\<exists>a. NewIntegerArrayFromValues i = Inr a \<and> IntegerArray_Size a = m_Size IntegerValues_order i"
  "\<exists>a. NewUnsignedArrayFromValues u = Inr a \<and> UnsignedArray_Size a = m_Size UnsignedValues_order u"
  "\<exists>a. NewStringArrayFromValues s = Inr a \<and> StringArray_Size a = m_Size StringValues_order s"
  "\<exists>a. NewBooleanArrayFromValues b = Inr a \<and> BooleanArray_Size a = m_Size BooleanValues_order b"
proof -
  have const: "sum_list (map (\<lambda>_. n) xs) = length xs * n" for n and xs :: "'x list"
    by (induction xs) simp_all
  have str: "sum_list (map (\<lambda>v. 8 + length (snd v)) xs) = length xs * 8 + sum_list (map (\<lambda>v. length (snd v)) xs)" for xs :: "(u8 list) tvalue list"
    by (induction xs) simp_all
  note defs = NewArrayFromValues_array_of array_of_def ordered_by_def vs_Size_def fold_add word_array_Size_def
  show "\<exists>a. NewFloatArrayFromValues f = Inr a \<and> FloatArray_Size a = m_Size FloatValues_order f"
    by (simp add: defs NewFloatArrayFromValues_def FloatArray_Size_def FloatValues_order_def FloatValue_Size_def [abs_def] const)
  show "\<exists>a. NewIntegerArrayFromValues i = Inr a \<and> IntegerArray_Size a = m_Size IntegerValues_order i"
    by (simp add: defs NewIntegerArrayFromValues_def IntegerArray_Size_def IntegerValues_order_def IntegerValue_Size_def [abs_def] const)
  show "\<exists>a. NewUnsignedArrayFromValues u = Inr a \<and> UnsignedArray_Size a = m_Size UnsignedValues_order u"
    by (simp add: defs NewUnsignedArrayFromValues_def UnsignedArray_Size_def UnsignedValues_order_def UnsignedValue_Size_def [abs_def] const)
  show "\<exists>a. NewStringArrayFromValues s = Inr a \<and> StringArray_Size a = m_Size StringValues_order s"
    by (simp add: defs NewStringArrayFromValues_def StringArray_Size_def StringValues_order_def StringValue_Size_def [abs_def] str comp_def)
  show "\<exists>a. NewBooleanArrayFromValues b = Inr a \<and> BooleanArray_Size a = m_Size BooleanValues_order b"
    by (simp add: defs NewBooleanArrayFromValues_def BooleanArray_Size_def BooleanValues_order_def BooleanValue_Size_def [abs_def] const)
qed

end
