(* ===== verification/CacheStore.thy ===== *)
theory CacheStore
  imports TsmValues "HOL-Library.AList" "HOL-Library.List_Lexorder" "HOL-Library.Multiset"
begin

text \<open>
  The store of the cache: entries, partitions and the ring of
  \<open>src/backend/tsdb/engine/tsm1/cache.go\<close> and \<open>ring.go\<close>. An entry is a list of values of one type; a
  partition maps series keys to entries; a ring spreads the keys over partitions by a hash. The hash
  (\<open>github.com/cespare/xxhash\<close>) is a parameter of the definitions: nothing is assumed about it.

  A Go map is an association list with distinct keys. Entries are reached through pointers; changing an
  entry is storing it again under its key. Operations are atomic here; what interleaving can do
  is the subject of the theories that use the cache.
\<close>

unbundle bit_operations_syntax

subsection \<open>Entries\<close>

type_synonym key = "u8 list"

datatype tsm_err =
    ErrFieldTypeConflict
  | ErrSnapshotInProgress
  | ErrCacheMemorySizeLimitExceeded u64 u64
  | ErrPartitions string
  | ErrUnknownFieldType
  | ErrNoValues

fun valueType :: "Value \<Rightarrow> u8" where
  "valueType (FloatValue t x) = 1"
| "valueType (IntegerValue t x) = 2"
| "valueType (StringValue t x) = 3"
| "valueType (BooleanValue t x) = 4"
| "valueType (UnsignedValue t x) = 5"
| "valueType EmptyValue = 0"

record entry =
  e_values :: "Value list"
  e_vtype :: u8

definition newEntryValues :: "Value list \<Rightarrow> tsm_err + entry" where
  "newEntryValues values =
     (if values = [] then Inr \<lparr>e_values = [], e_vtype = 0\<rparr>
      else
        let et = valueType (values ! 0)
        in if list_all (\<lambda>v. et = valueType v) values then Inr \<lparr>e_values = values, e_vtype = et\<rparr>
           else Inl ErrFieldTypeConflict)"

definition entry_add :: "Value list \<Rightarrow> entry \<Rightarrow> tsm_err + entry" where
  "entry_add values e =
     (if values = [] then Inr e
      else if e_vtype e \<noteq> 0 \<and> \<not> list_all (\<lambda>v. e_vtype e = valueType v) values then Inl ErrFieldTypeConflict
      else if e_values e = [] then Inr \<lparr>e_values = values, e_vtype = valueType (values ! 0)\<rparr>
      else Inr (e\<lparr>e_values := e_values e @ values\<rparr>))"

definition entry_deduplicate :: "entry \<Rightarrow> entry" where
  "entry_deduplicate e =
     (if length (e_values e) \<le> 1 then e else e\<lparr>e_values := vs_Deduplicate Value_nano (e_values e)\<rparr>)"

definition entry_count :: "entry \<Rightarrow> nat" where
  "entry_count e = length (e_values e)"

definition entry_filter :: "int \<Rightarrow> int \<Rightarrow> entry \<Rightarrow> entry res" where
  "entry_filter mn mx e =
     (let values = (if length (e_values e) > 1 then vs_Deduplicate Value_nano (e_values e) else e_values e)
      in rbind (vs_Exclude Value_nano mn mx (slice_of values)) (\<lambda>b. Inr (e\<lparr>e_values := sl_list b\<rparr>)))"

definition entry_size :: "entry \<Rightarrow> nat" where
  "entry_size e = vs_Size Value_Size (e_values e)"

subsection \<open>Partitions and the ring\<close>

type_synonym partition = "(key \<times> entry) list"

definition partition_entry :: "key \<Rightarrow> partition \<Rightarrow> entry option" where
  "partition_entry key p = map_of p key"

text \<open>The second lookup, under the write lock, finds what the first one found.\<close>

definition partition_write :: "key \<Rightarrow> Value list \<Rightarrow> partition \<Rightarrow> (bool \<times> tsm_err option) \<times> partition" where
  "partition_write key values p =
     (case partition_entry key p of
        Some e \<Rightarrow>
          (case entry_add values e of
             Inl er \<Rightarrow> ((False, Some er), p)
           | Inr e \<Rightarrow> ((False, None), AList.update key e p))
      | None \<Rightarrow>
          (case newEntryValues values of
             Inl er \<Rightarrow> ((False, Some er), p)
           | Inr e \<Rightarrow> ((True, None), AList.update key e p)))"

definition partition_remove :: "key \<Rightarrow> partition \<Rightarrow> partition" where
  "partition_remove key p = AList.delete key p"

definition partition_keys :: "partition \<Rightarrow> key list" where
  "partition_keys p = map fst (filter (\<lambda>(k, v). entry_count v \<noteq> 0) p)"

definition partition_count :: "partition \<Rightarrow> nat" where
  "partition_count p = fold (\<lambda>(k, v) n. if entry_count v > 0 then n + 1 else n) p 0"

definition partition_reset :: "partition \<Rightarrow> partition" where
  "partition_reset p = []"

definition max_partitions :: nat where "max_partitions = 16"

record ring =
  ring_partitions :: "partition list"

definition newring :: "nat \<Rightarrow> tsm_err + ring" where
  "newring n =
     (if n = 0 \<or> n > max_partitions then Inl (ErrPartitions ''invalid number of partitions'')
      else if n AND (n - 1) \<noteq> 0 then Inl (ErrPartitions ''partitions is not a power of two'')
      else Inr \<lparr>ring_partitions = replicate n []\<rparr>)"

definition ring_reset :: "ring \<Rightarrow> ring" where
  "ring_reset r = r\<lparr>ring_partitions := map partition_reset (ring_partitions r)\<rparr>"

definition getPartition :: "(key \<Rightarrow> u64) \<Rightarrow> ring \<Rightarrow> key \<Rightarrow> nat" where
  "getPartition h r key = unat (h key) mod length (ring_partitions r)"

definition ring_entry :: "(key \<Rightarrow> u64) \<Rightarrow> ring \<Rightarrow> key \<Rightarrow> entry option" where
  "ring_entry h r key = partition_entry key (ring_partitions r ! getPartition h r key)"

definition ring_write ::
  "(key \<Rightarrow> u64) \<Rightarrow> key \<Rightarrow> Value list \<Rightarrow> ring \<Rightarrow> (bool \<times> tsm_err option) \<times> ring" where
  "ring_write h key values r =
     (let i = getPartition h r key
      in case partition_write key values (ring_partitions r ! i) of
           (res, p) \<Rightarrow> (res, r\<lparr>ring_partitions := (ring_partitions r)[i := p]\<rparr>))"

definition ring_remove :: "(key \<Rightarrow> u64) \<Rightarrow> key \<Rightarrow> ring \<Rightarrow> ring" where
  "ring_remove h key r =
     (let i = getPartition h r key
      in r\<lparr>ring_partitions := (ring_partitions r)[i := partition_remove key (ring_partitions r ! i)]\<rparr>)"

text \<open>Storing a changed entry: what a method of an entry does through the pointer that \<open>entry\<close> returned.\<close>

definition ring_put :: "(key \<Rightarrow> u64) \<Rightarrow> key \<Rightarrow> entry \<Rightarrow> ring \<Rightarrow> ring" where
  "ring_put h key e r =
     (let i = getPartition h r key
      in r\<lparr>ring_partitions := (ring_partitions r)[i := AList.update key e (ring_partitions r ! i)]\<rparr>)"

definition ring_keys :: "bool \<Rightarrow> ring \<Rightarrow> key list" where
  "ring_keys inorder r =
     (let keys = concat (map partition_keys (ring_partitions r)) in if inorder then sort keys else keys)"

definition ring_count :: "ring \<Rightarrow> nat" where
  "ring_count r = fold (\<lambda>p n. n + partition_count p) (ring_partitions r) 0"

text \<open>
  \<open>apply\<close> with a function that returns no error, as \<open>Deduplicate\<close> uses it: each entry is replaced once, so
  the order in which the goroutines run does not matter.
\<close>

definition ring_apply :: "(entry \<Rightarrow> entry) \<Rightarrow> ring \<Rightarrow> ring" where
  "ring_apply f r = r\<lparr>ring_partitions := map (map (\<lambda>(k, e). (k, f e))) (ring_partitions r)\<rparr>"

text \<open>\<open>applySerial\<close> with a function that reads entries: the first error ends the walk.\<close>

fun first_error :: "(key \<Rightarrow> entry \<Rightarrow> 'e option) \<Rightarrow> partition \<Rightarrow> 'e option" where
  "first_error f [] = None"
| "first_error f ((k, e) # p) =
     (if entry_count e = 0 then first_error f p
      else case f k e of None \<Rightarrow> first_error f p | Some er \<Rightarrow> Some er)"

definition ring_applySerial :: "(key \<Rightarrow> entry \<Rightarrow> 'e option) \<Rightarrow> ring \<Rightarrow> 'e option" where
  "ring_applySerial f r = first_error f (concat (ring_partitions r))"

text \<open>\<open>split\<close>: partition \<open>i\<close> goes to store \<open>i mod n\<close>, which has fresh partitions elsewhere.\<close>

definition ring_split :: "nat \<Rightarrow> ring \<Rightarrow> ring list" where
  "ring_split n r =
     map (\<lambda>j. \<lparr>ring_partitions =
           map (\<lambda>i. if i mod n = j then ring_partitions r ! i else []) [0..<length (ring_partitions r)]\<rparr>) [0..<n]"

subsection \<open>Stores\<close>

text \<open>\<open>storer\<close>: the ring, or the store of a cache that has not been initialized, which forgets what is written.\<close>

datatype storer = EmptyStore | RingStore ring

fun st_entry :: "(key \<Rightarrow> u64) \<Rightarrow> storer \<Rightarrow> key \<Rightarrow> entry option" where
  "st_entry h EmptyStore key = None"
| "st_entry h (RingStore r) key = ring_entry h r key"

fun st_write :: "(key \<Rightarrow> u64) \<Rightarrow> key \<Rightarrow> Value list \<Rightarrow> storer \<Rightarrow> (bool \<times> tsm_err option) \<times> storer" where
  "st_write h key values EmptyStore = ((False, None), EmptyStore)"
| "st_write h key values (RingStore r) = (case ring_write h key values r of (res, r) \<Rightarrow> (res, RingStore r))"

fun st_remove :: "(key \<Rightarrow> u64) \<Rightarrow> key \<Rightarrow> storer \<Rightarrow> storer" where
  "st_remove h key EmptyStore = EmptyStore"
| "st_remove h key (RingStore r) = RingStore (ring_remove h key r)"

fun st_put :: "(key \<Rightarrow> u64) \<Rightarrow> key \<Rightarrow> entry \<Rightarrow> storer \<Rightarrow> storer" where
  "st_put h key e EmptyStore = EmptyStore"
| "st_put h key e (RingStore r) = RingStore (ring_put h key e r)"

fun st_keys :: "bool \<Rightarrow> storer \<Rightarrow> key list" where
  "st_keys inorder EmptyStore = []"
| "st_keys inorder (RingStore r) = ring_keys inorder r"

fun st_apply :: "(entry \<Rightarrow> entry) \<Rightarrow> storer \<Rightarrow> storer" where
  "st_apply f EmptyStore = EmptyStore"
| "st_apply f (RingStore r) = RingStore (ring_apply f r)"

fun st_applySerial :: "(key \<Rightarrow> entry \<Rightarrow> 'e option) \<Rightarrow> storer \<Rightarrow> 'e option" where
  "st_applySerial f EmptyStore = None"
| "st_applySerial f (RingStore r) = ring_applySerial f r"

fun st_reset :: "storer \<Rightarrow> storer" where
  "st_reset EmptyStore = EmptyStore"
| "st_reset (RingStore r) = RingStore (ring_reset r)"

fun st_split :: "nat \<Rightarrow> storer \<Rightarrow> storer list" where
  "st_split n EmptyStore = []"
| "st_split n (RingStore r) = map RingStore (ring_split n r)"

fun st_count :: "storer \<Rightarrow> nat" where
  "st_count EmptyStore = 0"
| "st_count (RingStore r) = ring_count r"

subsection \<open>The contract of a store\<close>

text \<open>
  What the cache relies on: lookups after storing and removing, \<open>write\<close> as a lookup followed by a change
  of the entry or a new entry, and how the accounted bytes of the store (the keys and the values of its
  entries) change.
\<close>

definition written :: "Value list \<Rightarrow> entry option \<Rightarrow> tsm_err + entry" where
  "written values oe = (case oe of Some e \<Rightarrow> entry_add values e | None \<Rightarrow> newEntryValues values)"

definition weight :: "key \<Rightarrow> entry option \<Rightarrow> nat" where
  "weight k oe = (case oe of Some e \<Rightarrow> length k + entry_size e | None \<Rightarrow> 0)"

definition values_in :: "entry option \<Rightarrow> Value list" where
  "values_in oe = (case oe of Some e \<Rightarrow> e_values e | None \<Rightarrow> [])"

locale entry_store =
  fixes ok :: "'s \<Rightarrow> bool"
    and entry_of :: "'s \<Rightarrow> key \<Rightarrow> entry option"
    and put :: "key \<Rightarrow> entry \<Rightarrow> 's \<Rightarrow> 's"
    and store_write :: "key \<Rightarrow> Value list \<Rightarrow> 's \<Rightarrow> (bool \<times> tsm_err option) \<times> 's"
    and remove :: "key \<Rightarrow> 's \<Rightarrow> 's"
    and bytes :: "'s \<Rightarrow> nat"
  assumes put_ok: "ok s \<Longrightarrow> ok (put k e s)"
    and entry_put: "ok s \<Longrightarrow> entry_of (put k e s) j = (if j = k then Some e else entry_of s j)"
    and bytes_put: "ok s \<Longrightarrow> bytes (put k e s) + weight k (entry_of s k) = bytes s + length k + entry_size e"
    and remove_ok: "ok s \<Longrightarrow> ok (remove k s)"
    and entry_remove: "ok s \<Longrightarrow> entry_of (remove k s) j = (if j = k then None else entry_of s j)"
    and bytes_remove: "ok s \<Longrightarrow> bytes (remove k s) + weight k (entry_of s k) = bytes s"
    and write_eq: "ok s \<Longrightarrow> store_write k values s =
      (case written values (entry_of s k) of
         Inl er \<Rightarrow> ((False, Some er), s)
       | Inr e \<Rightarrow> ((entry_of s k = None, None), put k e s))"
begin

lemma write_ok: "ok s \<Longrightarrow> ok (snd (store_write k values s))"
  by (auto simp: write_eq put_ok split: sum.split)

lemma entry_write:
  "ok s \<Longrightarrow> entry_of (snd (store_write k values s)) j =
    (if j = k then (case written values (entry_of s k) of Inl er \<Rightarrow> entry_of s k | Inr e \<Rightarrow> Some e) else entry_of s j)"
  by (auto simp: write_eq entry_put split: sum.split)

end

subsection \<open>The ring keeps the contract\<close>

definition partition_bytes :: "partition \<Rightarrow> nat" where
  "partition_bytes p = sum_list (map (\<lambda>(k, e). length k + entry_size e) p)"

definition ring_bytes :: "ring \<Rightarrow> nat" where
  "ring_bytes r = sum_list (map partition_bytes (ring_partitions r))"

definition ring_ok :: "(key \<Rightarrow> u64) \<Rightarrow> ring \<Rightarrow> bool" where
  "ring_ok h r \<longleftrightarrow> ring_partitions r \<noteq> [] \<and>
     (\<forall>i<length (ring_partitions r). distinct (map fst (ring_partitions r ! i)) \<and>
        (\<forall>k\<in>set (map fst (ring_partitions r ! i)). getPartition h r k = i))"

lemma partition_bytes_update:
  "distinct (map fst p) \<Longrightarrow>
    partition_bytes (AList.update k e p) + weight k (map_of p k) = partition_bytes p + length k + entry_size e"
proof (induction p)
  case (Cons x p)
  show ?case
  proof (cases "fst x = k")
    case True
    then show ?thesis by (cases x) (simp add: partition_bytes_def weight_def)
  next
    case False
    then have "partition_bytes (AList.update k e (x # p)) = length (fst x) + entry_size (snd x) + partition_bytes (AList.update k e p)"
      by (cases x) (simp add: partition_bytes_def)
    moreover have "partition_bytes (x # p) = length (fst x) + entry_size (snd x) + partition_bytes p"
      by (cases x) (simp add: partition_bytes_def)
    moreover have "map_of (x # p) k = map_of p k" using False by (cases x) simp
    ultimately show ?thesis using Cons by simp
  qed
qed (simp add: partition_bytes_def weight_def)

lemma partition_bytes_delete:
  "distinct (map fst p) \<Longrightarrow> partition_bytes (AList.delete k p) + weight k (map_of p k) = partition_bytes p"
proof (induction p)
  case (Cons x p)
  show ?case
  proof (cases "fst x = k")
    case True
    then have "AList.delete k (x # p) = p" using Cons.prems by (cases x) auto
    then show ?thesis using True by (cases x) (simp add: partition_bytes_def weight_def)
  next
    case False
    then have "AList.delete k (x # p) = x # AList.delete k p" "map_of (x # p) k = map_of p k" by (cases x; simp)+
    then show ?thesis using Cons by (cases x) (simp add: partition_bytes_def)
  qed
qed (simp add: partition_bytes_def weight_def)

lemma ring_bytes_upd:
  assumes "i < length (ring_partitions r)"
  shows "ring_bytes (r\<lparr>ring_partitions := (ring_partitions r)[i := p]\<rparr>) + partition_bytes (ring_partitions r ! i) =
    ring_bytes r + partition_bytes p"
proof -
  have "ring_partitions r ! i \<in> set (ring_partitions r)" using assms by simp
  then have "partition_bytes (ring_partitions r ! i) \<le> ring_bytes r"
    unfolding ring_bytes_def by (intro member_le_sum_list) simp_all
  then show ?thesis using assms by (simp add: ring_bytes_def map_update sum_list_update)
qed

lemma getPartition_bound: "ring_ok h r \<Longrightarrow> getPartition h r k < length (ring_partitions r)"
  by (cases "ring_partitions r") (simp_all add: ring_ok_def getPartition_def)

lemma getPartition_upd [simp]: "getPartition h (r\<lparr>ring_partitions := (ring_partitions r)[i := p]\<rparr>) k = getPartition h r k"
  by (simp add: getPartition_def)

lemma ring_entry_upd:
  assumes "ring_ok h r" "i = getPartition h r k" "\<And>j. j \<noteq> k \<Longrightarrow> map_of p j = map_of (ring_partitions r ! i) j"
  shows "ring_entry h (r\<lparr>ring_partitions := (ring_partitions r)[i := p]\<rparr>) j = (if j = k then map_of p k else ring_entry h r j)"
  using assms getPartition_bound [OF assms(1), of j]
  by (cases "getPartition h r j = i") (auto simp: ring_entry_def partition_entry_def)

lemma ring_ok_upd:
  assumes "ring_ok h r" "i = getPartition h r k" "distinct (map fst p)" "set (map fst p) \<subseteq> insert k (set (map fst (ring_partitions r ! i)))"
  shows "ring_ok h (r\<lparr>ring_partitions := (ring_partitions r)[i := p]\<rparr>)"
proof -
  have "getPartition h r j = i" if "j \<in> set (map fst p)" for j
  proof (cases "j = k")
    case False
    then have "j \<in> set (map fst (ring_partitions r ! i))" using that assms(4) by auto
    then show ?thesis using assms(1,2) getPartition_bound [OF assms(1), of k] unfolding ring_ok_def by blast
  qed (simp add: assms(2))
  then have "distinct (map fst ((ring_partitions r)[i := p] ! m)) \<and> (\<forall>k\<in>set (map fst ((ring_partitions r)[i := p] ! m)). getPartition h r k = m)"
    if "m < length (ring_partitions r)" for m
    using that assms(1,3) by (cases "m = i") (auto simp: ring_ok_def)
  then show ?thesis using assms(1) unfolding ring_ok_def getPartition_upd by simp
qed

lemma ring_distinct: "ring_ok h r \<Longrightarrow> distinct (map fst (ring_partitions r ! getPartition h r k))"
  using getPartition_bound [of h r k] by (simp add: ring_ok_def)

lemma ring_put_laws:
  assumes "ring_ok h r"
  shows "ring_ok h (ring_put h k e r)"
    and "ring_entry h (ring_put h k e r) j = (if j = k then Some e else ring_entry h r j)"
    and "ring_bytes (ring_put h k e r) + weight k (ring_entry h r k) = ring_bytes r + length k + entry_size e"
proof -
  let ?i = "getPartition h r k" and ?p = "ring_partitions r ! getPartition h r k"
  note d = ring_distinct [OF assms, of k] and b = getPartition_bound [OF assms, of k]
  show "ring_ok h (ring_put h k e r)"
    unfolding ring_put_def Let_def using d by (intro ring_ok_upd [OF assms refl]) (auto simp: distinct_update dom_update)
  show "ring_entry h (ring_put h k e r) j = (if j = k then Some e else ring_entry h r j)"
    unfolding ring_put_def Let_def by (subst ring_entry_upd [OF assms refl]) (simp_all add: update_conv')
  show "ring_bytes (ring_put h k e r) + weight k (ring_entry h r k) = ring_bytes r + length k + entry_size e"
    using ring_bytes_upd [OF b, of "AList.update k e ?p"] partition_bytes_update [OF d, of k e]
    by (simp add: ring_put_def Let_def ring_entry_def partition_entry_def)
qed

lemma ring_remove_laws:
  assumes "ring_ok h r"
  shows "ring_ok h (ring_remove h k r)"
    and "ring_entry h (ring_remove h k r) j = (if j = k then None else ring_entry h r j)"
    and "ring_bytes (ring_remove h k r) + weight k (ring_entry h r k) = ring_bytes r"
proof -
  let ?i = "getPartition h r k" and ?p = "ring_partitions r ! getPartition h r k"
  note d = ring_distinct [OF assms, of k] and b = getPartition_bound [OF assms, of k]
  have "fst ` set (AList.delete k ?p) \<subseteq> fst ` set ?p" by (rule dom_delete_subset)
  then show "ring_ok h (ring_remove h k r)"
    unfolding ring_remove_def Let_def partition_remove_def using d
    by (intro ring_ok_upd [OF assms refl]) (auto simp: distinct_delete)
  show "ring_entry h (ring_remove h k r) j = (if j = k then None else ring_entry h r j)"
    unfolding ring_remove_def Let_def partition_remove_def
    by (subst ring_entry_upd [OF assms refl]) (simp_all add: delete_conv')
  show "ring_bytes (ring_remove h k r) + weight k (ring_entry h r k) = ring_bytes r"
    using ring_bytes_upd [OF b, of "AList.delete k ?p"] partition_bytes_delete [OF d, of k]
    by (simp add: ring_remove_def partition_remove_def Let_def ring_entry_def partition_entry_def)
qed

lemma ring_write_put:
  "ring_write h k values r =
    (case written values (ring_entry h r k) of
       Inl er \<Rightarrow> ((False, Some er), r)
     | Inr e \<Rightarrow> ((ring_entry h r k = None, None), ring_put h k e r))"
  by (simp add: ring_write_def partition_write_def written_def ring_entry_def ring_put_def Let_def
      split: option.split sum.split)

interpretation ring_store: entry_store "ring_ok h" "ring_entry h" "ring_put h" "ring_write h" "ring_remove h" ring_bytes for h
  by unfold_locales (simp_all only: ring_put_laws ring_remove_laws ring_write_put)

text \<open>An initialized store of a cache is a ring, and inherits the contract.\<close>

fun st_ok :: "(key \<Rightarrow> u64) \<Rightarrow> storer \<Rightarrow> bool" where
  "st_ok h EmptyStore = False"
| "st_ok h (RingStore r) = ring_ok h r"

fun st_bytes :: "storer \<Rightarrow> nat" where
  "st_bytes EmptyStore = 0"
| "st_bytes (RingStore r) = ring_bytes r"

interpretation cache_store: entry_store "st_ok h" "st_entry h" "st_put h" "st_write h" "st_remove h" st_bytes for h
proof unfold_locales
  fix s k e j vals
  assume s: "st_ok h s"
  then obtain r where r: "s = RingStore r" "ring_ok h r" by (cases s) auto
  show "st_ok h (st_put h k e s)" "st_ok h (st_remove h k s)" using r by (simp_all add: ring_put_laws ring_remove_laws)
  show "st_entry h (st_put h k e s) j = (if j = k then Some e else st_entry h s j)"
    "st_entry h (st_remove h k s) j = (if j = k then None else st_entry h s j)"
    using r by (simp_all add: ring_put_laws ring_remove_laws)
  show "st_bytes (st_put h k e s) + weight k (st_entry h s k) = st_bytes s + length k + entry_size e"
    "st_bytes (st_remove h k s) + weight k (st_entry h s k) = st_bytes s"
    using r by (simp_all add: ring_put_laws ring_remove_laws)
  show "st_write h k vals s =
      (case written vals (st_entry h s k) of
         Inl er \<Rightarrow> ((False, Some er), s)
       | Inr e \<Rightarrow> ((st_entry h s k = None, None), st_put h k e s))"
    using r by (simp add: ring_write_put split: sum.split)
qed

subsection \<open>What the entry methods do to the values\<close>

lemma vs_Size_sum: "vs_Size f a = sum_list (map f a)"
proof -
  have "fold (\<lambda>v sz. sz + f v) a n = n + sum_list (map f a)" for n
    by (induction a arbitrary: n) simp_all
  then show ?thesis by (simp add: vs_Size_def)
qed

lemma dedup_list_sum: "kept \<noteq> [] \<Longrightarrow> sum_list (map f (dedup_list ts kept rest)) \<le> sum_list (map f kept) + (sum_list (map f rest) :: nat)"
proof (induction rest arbitrary: kept)
  case (Cons v rest)
  let ?kept = "(if ts v \<noteq> ts (last kept) then kept else butlast kept) @ [v]"
  have "sum_list (map f (butlast kept @ [last kept])) = sum_list (map f (butlast kept)) + f (last kept)" by simp
  then have "sum_list (map f kept) = sum_list (map f (butlast kept)) + f (last kept)"
    unfolding append_butlast_last_id [OF Cons.prems] .
  then have "sum_list (map f ?kept) \<le> sum_list (map f kept) + f v" by simp
  moreover have "sum_list (map f (dedup_list ts kept (v # rest))) \<le> sum_list (map f ?kept) + sum_list (map f rest)"
    unfolding dedup_list.simps by (rule Cons.IH) simp
  ultimately show ?case unfolding list.map sum_list.Cons by linarith
qed simp

lemma Deduplicate_Size: "vs_Size f (vs_Deduplicate ts a) \<le> vs_Size f a"
proof (cases "increasing ts a")
  case False
  obtain x s where s: "sort_key ts a = x # s"
    using Deduplicate_sorted [OF False] by (cases "sort_key ts a") (auto dest: arg_cong [of _ _ length])
  have "sum_list (map f (vs_Deduplicate ts a)) \<le> sum_list (map f (sort_key ts a))"
    unfolding conjunct1 [OF Deduplicate_sorted [OF False]] s using dedup_list_sum [of "[x]" f ts s] by simp
  also have "\<dots> = sum_list (map f a)"
    by (metis mset_map mset_sort sum_mset_sum_list)
  finally show ?thesis by (simp add: vs_Size_sum)
qed (simp add: Deduplicate_fixed)

lemma Deduplicate_subset: "set (vs_Deduplicate ts a) \<subseteq> set a"
proof
  fix x assume "x \<in> set (vs_Deduplicate ts a)"
  then have "value_at ts a (ts x) = Some x"
    using increasing_value_at [OF Deduplicate_increasing, of x ts a] unfolding Deduplicate_value_at by blast
  then show "x \<in> set a" using value_at_SomeD by fastforce
qed

lemma entry_deduplicate_values: "e_values (entry_deduplicate e) = vs_Deduplicate Value_nano (e_values e)"
  by (simp add: entry_deduplicate_def vs_Deduplicate_def)

lemma entry_deduplicate_vtype [simp]: "e_vtype (entry_deduplicate e) = e_vtype e"
  by (simp add: entry_deduplicate_def)

lemma entry_deduplicate_size: "entry_size (entry_deduplicate e) \<le> entry_size e"
  unfolding entry_size_def entry_deduplicate_values by (rule Deduplicate_Size)

lemma value_at_filter_time: "value_at ts (filter (\<lambda>x. P (ts x)) a) t = (if P t then value_at ts a t else None)"
proof -
  have "filter (\<lambda>x. P (ts x) \<and> ts x = t) a = (if P t then filter (\<lambda>x. ts x = t) a else [])" by (induction a) auto
  then show ?thesis unfolding value_at_filter filter_filter by simp
qed

lemma Exclude_slice_of:
  assumes "increasing ts a"
  shows "\<exists>b. vs_Exclude ts mn mx (slice_of a) = Inr b \<and> sl_list b = filter (\<lambda>x. \<not> (mn \<le> ts x \<and> ts x \<le> mx)) a"
  using Exclude_filter [of "slice_of a" ts mn mx] assms by auto

text \<open>
  \<open>filter\<close> never panics; it leaves exactly the values outside the range, deduplicated.
\<close>

lemma entry_filter_eq:
  "entry_filter mn mx e =
    Inr (e\<lparr>e_values := filter (\<lambda>x. \<not> (mn \<le> Value_nano x \<and> Value_nano x \<le> mx)) (vs_Deduplicate Value_nano (e_values e))\<rparr>)"
proof -
  have "(if length (e_values e) > 1 then vs_Deduplicate Value_nano (e_values e) else e_values e) = vs_Deduplicate Value_nano (e_values e)"
    by (simp add: vs_Deduplicate_def)
  then show ?thesis
    using Exclude_slice_of [OF Deduplicate_increasing, of Value_nano mn mx "e_values e"] by (auto simp: entry_filter_def)
qed

lemma filter_Size: "vs_Size f (filter P a) \<le> vs_Size f a"
  unfolding vs_Size_sum by (induction a) auto

lemma filter_dedup_size: "vs_Size f (filter P (vs_Deduplicate ts a)) \<le> vs_Size f a"
  using filter_Size [of f P "vs_Deduplicate ts a"] Deduplicate_Size [of f ts a] by linarith

lemma written_values:
  "written vals oe = Inr e \<Longrightarrow> e_values e = values_in oe @ vals"
  by (auto simp: written_def values_in_def entry_add_def newEntryValues_def Let_def split: option.splits if_splits)

lemma written_weight: "written vals oe = Inr e \<Longrightarrow>
    length k + entry_size e = weight k oe + vs_Size Value_Size vals + (if oe = None then length k else 0)"
  using written_values [of vals oe e] by (auto simp: weight_def entry_size_def values_in_def vs_Size_sum split: option.splits)

subsection \<open>Entries hold values of one type\<close>

definition entry_typed :: "entry \<Rightarrow> bool" where
  "entry_typed e \<longleftrightarrow> e_vtype e \<noteq> 0 \<and> e_values e \<noteq> [] \<and> (\<forall>v\<in>set (e_values e). valueType v = e_vtype e)"

text \<open>A batch that a write should bring: some values, the first of them with a type.\<close>

definition batch_ok :: "Value list \<Rightarrow> bool" where
  "batch_ok vals \<longleftrightarrow> vals \<noteq> [] \<and> valueType (vals ! 0) \<noteq> 0"

lemma written_typed:
  assumes "written vals oe = Inr e" "batch_ok vals" "\<And>e0. oe = Some e0 \<Longrightarrow> entry_typed e0"
  shows "entry_typed e"
  using assms
  by (cases oe) (auto simp: written_def entry_typed_def batch_ok_def newEntryValues_def entry_add_def list_all_iff Let_def split: if_splits)

lemma entry_deduplicate_typed: "entry_typed e \<Longrightarrow> entry_typed (entry_deduplicate e)"
  using Deduplicate_subset [of Value_nano "e_values e"] Deduplicate_ne [of Value_nano "e_values e"]
  by (auto simp: entry_typed_def entry_deduplicate_values)

lemma entry_filter_typed:
  "entry_typed e \<Longrightarrow> entry_filter mn mx e = Inr e' \<Longrightarrow> entry_count e' \<noteq> 0 \<Longrightarrow> entry_typed e'"
  using Deduplicate_subset [of Value_nano "e_values e"]
  by (auto simp: entry_typed_def entry_filter_eq entry_count_def)

subsection \<open>Walking over the ring\<close>

lemma ring_nth_upd:
  assumes "ring_ok h r" "length ps = length (ring_partitions r)"
  shows "getPartition h (r\<lparr>ring_partitions := ps\<rparr>) k = getPartition h r k"
  using assms by (simp add: getPartition_def)

lemma st_apply_laws:
  assumes "st_ok h s"
  shows "st_ok h (st_apply f s)" "st_entry h (st_apply f s) k = map_option f (st_entry h s k)"
    and "(\<And>e. entry_size (f e) \<le> entry_size e) \<Longrightarrow> st_bytes (st_apply f s) \<le> st_bytes s"
proof -
  obtain r where r: "s = RingStore r" "ring_ok h r" using assms by (cases s) auto
  let ?g = "map (\<lambda>(k, e). (k, f e)) :: partition \<Rightarrow> partition"
  have keys: "map fst (?g p) = map fst p" for p by (induction p) auto
  have part: "getPartition h (ring_apply f r) k = getPartition h r k" for k
    by (simp add: ring_apply_def getPartition_def)
  have len: "length (ring_partitions (ring_apply f r)) = length (ring_partitions r)"
    and nth: "i < length (ring_partitions r) \<Longrightarrow> ring_partitions (ring_apply f r) ! i = ?g (ring_partitions r ! i)" for i
    by (simp_all add: ring_apply_def)
  have "ring_partitions (ring_apply f r) \<noteq> []" using r(2) by (simp add: ring_ok_def ring_apply_def)
  moreover have "distinct (map fst (ring_partitions (ring_apply f r) ! i)) \<and>
      (\<forall>k\<in>set (map fst (ring_partitions (ring_apply f r) ! i)). getPartition h (ring_apply f r) k = i)"
    if "i < length (ring_partitions r)" for i
    using r(2) that unfolding nth [OF that] keys part by (simp add: ring_ok_def)
  ultimately show "st_ok h (st_apply f s)" unfolding r(1) st_apply.simps st_ok.simps ring_ok_def len by blast
  show "st_entry h (st_apply f s) k = map_option f (st_entry h s k)"
    using r nth [OF getPartition_bound [OF r(2), of k]]
    by (simp add: ring_entry_def partition_entry_def part map_of_map)
  show "st_bytes (st_apply f s) \<le> st_bytes s" if "\<And>e. entry_size (f e) \<le> entry_size e"
  proof -
    have "partition_bytes (?g p) \<le> partition_bytes p" for p
      using that unfolding partition_bytes_def by (induction p) (auto intro: add_mono)
    then show ?thesis using r by (auto simp: ring_bytes_def ring_apply_def comp_def intro!: sum_list_mono)
  qed
qed

lemma st_reset_laws:
  assumes "st_ok h s"
  shows "st_ok h (st_reset s)" "st_entry h (st_reset s) k = None" "st_bytes (st_reset s) = 0"
proof -
  obtain r where r: "s = RingStore r" "ring_ok h r" using assms by (cases s) auto
  have ps: "ring_partitions (ring_reset r) = replicate (length (ring_partitions r)) []"
    by (simp add: ring_reset_def partition_reset_def [abs_def] map_replicate_const)
  then show "st_ok h (st_reset s)" using r by (simp add: ring_ok_def)
  show "st_entry h (st_reset s) k = None"
    using r getPartition_bound [OF r(2), of k] ps by (simp add: ring_entry_def partition_entry_def getPartition_def)
  show "st_bytes (st_reset s) = 0"
    using r ps by (simp add: ring_bytes_def partition_bytes_def sum_list_replicate)
qed

text \<open>The keys of a store are the keys whose entries have values, each once.\<close>

lemma st_keys_set:
  assumes "st_ok h s"
  shows "set (st_keys b s) = {k. values_in (st_entry h s k) \<noteq> []}"
proof -
  obtain r where r: "s = RingStore r" "ring_ok h r" using assms by (cases s) auto
  let ?ps = "ring_partitions r"
  have k: "k \<in> set (partition_keys (?ps ! i)) \<longleftrightarrow> getPartition h r k = i \<and> values_in (ring_entry h r k) \<noteq> []"
    if "i < length ?ps" for k i
  proof -
    have d: "distinct (map fst (?ps ! i))" and pl: "\<And>e. (k, e) \<in> set (?ps ! i) \<Longrightarrow> getPartition h r k = i"
      using r(2) that by (force simp: ring_ok_def)+
    have "k \<in> set (partition_keys (?ps ! i)) \<longleftrightarrow> (\<exists>e. (k, e) \<in> set (?ps ! i) \<and> e_values e \<noteq> [])"
      by (force simp: partition_keys_def entry_count_def)
    also have "\<dots> \<longleftrightarrow> getPartition h r k = i \<and> (\<exists>e. map_of (?ps ! i) k = Some e \<and> e_values e \<noteq> [])"
      using pl d by (auto simp: map_of_eq_Some_iff)
    finally show ?thesis by (auto simp: ring_entry_def partition_entry_def values_in_def split: option.splits)
  qed
  have "set (st_keys b s) = (\<Union>i<length ?ps. set (partition_keys (?ps ! i)))"
    using r by (auto simp: ring_keys_def Let_def in_set_conv_nth set_conv_nth [of ?ps])
  then show ?thesis using k getPartition_bound [OF r(2)] r(1) by auto
qed

end
