(* ===== verification/TsmCache.thy ===== *)
theory TsmCache
  imports CacheStore
begin

text \<open>
  The cache of \<open>src/backend/tsdb/engine/tsm1/cache.go\<close>: the values that have been written and are not yet
  in a TSM file, the snapshot that is being written to one, and the accounting of their sizes. The sizes
  are kept in 64 bits and updated by wrapping addition, as in the code. The stores are those of
  \<open>CacheStore\<close>, used through their contract. Metrics are left out; the clock is a parameter.
\<close>

unbundle bit_operations_syntax

subsection \<open>Model\<close>

definition ringShards :: nat where "ringShards = 16"

text \<open>A snapshot is a cache of which only the size and the store are used.\<close>

record snapshot_cache =
  s_size :: u64
  s_store :: storer

record Cache =
  c_size :: u64
  c_snapshotSize :: u64
  c_store :: storer
  c_maxSize :: u64
  c_snapshot :: "snapshot_cache option"
  c_snapshotting :: bool
  c_snapshotAttempts :: nat
  c_lastWriteTime :: int
  c_initialized :: bool

definition NewCache :: "u64 \<Rightarrow> Cache" where
  "NewCache maxSize =
     \<lparr>c_size = 0, c_snapshotSize = 0, c_store = EmptyStore, c_maxSize = maxSize, c_snapshot = None,
      c_snapshotting = False, c_snapshotAttempts = 0, c_lastWriteTime = 0, c_initialized = False\<rparr>"

definition c_init :: "Cache \<Rightarrow> Cache" where
  "c_init c =
     (if c_initialized c then c
      else c\<lparr>c_initialized := True,
             c_store := (case newring ringShards of Inr r \<Rightarrow> RingStore r | Inl _ \<Rightarrow> c_store c)\<rparr>)"

definition c_Free :: "Cache \<Rightarrow> Cache" where
  "c_Free c = (if c_initialized c then c\<lparr>c_initialized := False, c_store := EmptyStore\<rparr> else c)"

definition c_Size :: "Cache \<Rightarrow> u64" where
  "c_Size c = c_size c + c_snapshotSize c"

definition increaseSize :: "u64 \<Rightarrow> Cache \<Rightarrow> Cache" where
  "increaseSize delta c = c\<lparr>c_size := c_size c + delta\<rparr>"

definition decreaseSize :: "u64 \<Rightarrow> Cache \<Rightarrow> Cache" where
  "decreaseSize delta c = c\<lparr>c_size := c_size c + NOT (delta - 1)\<rparr>"

definition batch_size :: "Value list \<Rightarrow> u64" where
  "batch_size v = of_nat (vs_Size Value_Size v)"

text \<open>The loop of \<open>WriteMulti\<close>; the map of values is given as the list of its keys and values in the order of the range.\<close>

fun write_loop ::
  "(key \<Rightarrow> u64) \<Rightarrow> (key \<times> Value list) list \<Rightarrow> tsm_err option \<Rightarrow> Cache \<Rightarrow> tsm_err option \<times> Cache" where
  "write_loop h [] werr c = (werr, c)"
| "write_loop h ((k, v) # rest) werr c =
     (case st_write h k v (c_store c) of ((newKey, err), st) \<Rightarrow>
        let c = c\<lparr>c_store := st\<rparr>;
            werr = (if err \<noteq> None then err else werr);
            c = (if err \<noteq> None then decreaseSize (batch_size v) c else c);
            c = (if newKey then increaseSize (of_nat (length k)) c else c)
        in write_loop h rest werr c)"

definition WriteMulti ::
  "(key \<Rightarrow> u64) \<Rightarrow> int \<Rightarrow> (key \<times> Value list) list \<Rightarrow> Cache \<Rightarrow> tsm_err option \<times> Cache" where
  "WriteMulti h now vals c =
     (let c = c_init c;
          addedSize = fold (\<lambda>(k, v) sz. sz + batch_size v) vals 0;
          limit = c_maxSize c;
          n = c_Size c + addedSize
      in if limit > 0 \<and> n > limit then (Some (ErrCacheMemorySizeLimitExceeded n limit), c)
         else case write_loop h vals None (increaseSize addedSize c) of
                (werr, c) \<Rightarrow> (werr, c\<lparr>c_lastWriteTime := now\<rparr>))"

text \<open>\<open>Snapshot\<close> returns its error, if any; the snapshot it returns is the one the cache then holds.\<close>

definition Snapshot :: "Cache \<Rightarrow> tsm_err option \<times> Cache" where
  "Snapshot c =
     (let c = c_init c
      in if c_snapshotting c then (Some ErrSnapshotInProgress, c)
         else
           let c = c\<lparr>c_snapshotting := True, c_snapshotAttempts := c_snapshotAttempts c + 1\<rparr>
           in case (case c_snapshot c of
                      Some s \<Rightarrow> Inr s
                    | None \<Rightarrow>
                        (case newring ringShards of
                           Inl e \<Rightarrow> Inl e
                         | Inr r \<Rightarrow> Inr \<lparr>s_size = 0, s_store = RingStore r\<rparr>)) of
                Inl e \<Rightarrow> (Some e, c)
              | Inr s \<Rightarrow>
                  if s_size s > 0 then (None, c\<lparr>c_snapshot := Some s\<rparr>)
                  else
                    let snapshotSize = c_Size c
                    in (None, c\<lparr>c_snapshot := Some \<lparr>s_size = snapshotSize, s_store = c_store c\<rparr>,
                                c_snapshotSize := snapshotSize,
                                c_store := st_reset (s_store s),
                                c_size := 0\<rparr>))"

text \<open>\<open>Deduplicate\<close>, which the engine calls on the snapshot.\<close>

definition snapshot_Deduplicate :: "Cache \<Rightarrow> Cache" where
  "snapshot_Deduplicate c =
     c\<lparr>c_snapshot := map_option (\<lambda>s. s\<lparr>s_store := st_apply entry_deduplicate (s_store s)\<rparr>) (c_snapshot c)\<rparr>"

definition ClearSnapshot :: "bool \<Rightarrow> Cache \<Rightarrow> Cache res" where
  "ClearSnapshot success c =
     (let c = c_init c
      in case c_snapshot c of
           None \<Rightarrow> Inl Panic
         | Some s \<Rightarrow>
             let c = c\<lparr>c_snapshotting := False\<rparr>
             in Inr (if success
                     then c\<lparr>c_snapshotAttempts := 0,
                            c_snapshot := Some \<lparr>s_size = 0, s_store = st_reset (s_store s)\<rparr>,
                            c_snapshotSize := 0\<rparr>
                     else c))"

definition c_Count :: "Cache \<Rightarrow> nat" where
  "c_Count c = st_count (c_store c)"

definition c_Keys :: "Cache \<Rightarrow> key list" where
  "c_Keys c = st_keys True (c_store c)"

definition c_Split :: "nat \<Rightarrow> Cache \<Rightarrow> Cache list" where
  "c_Split n c = (if n = 1 then [c] else map (\<lambda>st. (NewCache 0)\<lparr>c_store := st\<rparr>) (st_split n (c_store c)))"

definition snapshot_entry :: "(key \<Rightarrow> u64) \<Rightarrow> Cache \<Rightarrow> key \<Rightarrow> entry option" where
  "snapshot_entry h c key = (case c_snapshot c of None \<Rightarrow> None | Some s \<Rightarrow> st_entry h (s_store s) key)"

datatype data_type = DT_Float | DT_Integer | DT_Unsigned | DT_Boolean | DT_String

definition InfluxQLType :: "Value list \<Rightarrow> tsm_err + data_type" where
  "InfluxQLType a =
     (if length a = 0 then Inl ErrNoValues
      else case a ! 0 of
             FloatValue _ _ \<Rightarrow> Inr DT_Float
           | IntegerValue _ _ \<Rightarrow> Inr DT_Integer
           | UnsignedValue _ _ \<Rightarrow> Inr DT_Unsigned
           | BooleanValue _ _ \<Rightarrow> Inr DT_Boolean
           | StringValue _ _ \<Rightarrow> Inr DT_String
           | EmptyValue \<Rightarrow> Inl ErrUnknownFieldType)"

definition c_Type :: "(key \<Rightarrow> u64) \<Rightarrow> key \<Rightarrow> Cache \<Rightarrow> tsm_err + data_type" where
  "c_Type h key c =
     (let e = st_entry h (c_store c) key;
          e = (if e = None then snapshot_entry h c key else e)
      in case e of
           Some e \<Rightarrow> (case InfluxQLType (e_values e) of Inl _ \<Rightarrow> Inl ErrUnknownFieldType | Inr t \<Rightarrow> Inr t)
         | None \<Rightarrow> Inl ErrUnknownFieldType)"

text \<open>\<open>Values\<close> deduplicates the entries in place before it copies them.\<close>

definition c_Values :: "(key \<Rightarrow> u64) \<Rightarrow> key \<Rightarrow> Cache \<Rightarrow> Value list \<times> Cache" where
  "c_Values h key c =
     (let e = st_entry h (c_store c) key;
          snapshotEntries = snapshot_entry h c key
      in if e = None \<and> snapshotEntries = None then ([], c)
         else
           let c = (case e of None \<Rightarrow> c | Some x \<Rightarrow> c\<lparr>c_store := st_put h key (entry_deduplicate x) (c_store c)\<rparr>);
               c = (case snapshotEntries of
                      None \<Rightarrow> c
                    | Some x \<Rightarrow>
                        c\<lparr>c_snapshot :=
                            map_option (\<lambda>s. s\<lparr>s_store := st_put h key (entry_deduplicate x) (s_store s)\<rparr>) (c_snapshot c)\<rparr>);
               entries =
                 (case snapshotEntries of None \<Rightarrow> [] | Some x \<Rightarrow> [entry_deduplicate x]) @
                 (case e of None \<Rightarrow> [] | Some x \<Rightarrow> [entry_deduplicate x]);
               sz = sum_list (map entry_count entries)
           in if sz = 0 then ([], c)
              else (vs_Deduplicate Value_nano (concat (map e_values entries)), c))"

definition MinInt64 :: int where "MinInt64 = - (2 ^ 63)"
definition MaxInt64 :: int where "MaxInt64 = 2 ^ 63 - 1"

definition delete_key :: "(key \<Rightarrow> u64) \<Rightarrow> int \<Rightarrow> int \<Rightarrow> key \<Rightarrow> Cache \<Rightarrow> Cache res" where
  "delete_key h mn mx k c =
     (case st_entry h (c_store c) k of
        None \<Rightarrow> Inr c
      | Some e \<Rightarrow>
          let origSize = of_nat (entry_size e)
          in if mn = MinInt64 \<and> mx = MaxInt64 then
               Inr ((decreaseSize (origSize + of_nat (length k)) c)\<lparr>c_store := st_remove h k (c_store c)\<rparr>)
             else
               rbind (entry_filter mn mx e) (\<lambda>e. Inr (
                 if entry_count e = 0 then
                   decreaseSize (origSize + of_nat (length k)) (c\<lparr>c_store := st_remove h k (c_store c)\<rparr>)
                 else
                   decreaseSize (origSize - of_nat (entry_size e)) (c\<lparr>c_store := st_put h k e (c_store c)\<rparr>))))"

fun delete_loop :: "(key \<Rightarrow> u64) \<Rightarrow> key list \<Rightarrow> int \<Rightarrow> int \<Rightarrow> Cache \<Rightarrow> Cache res" where
  "delete_loop h [] mn mx c = Inr c"
| "delete_loop h (k # ks) mn mx c = rbind (delete_key h mn mx k c) (delete_loop h ks mn mx)"

definition c_DeleteRange :: "(key \<Rightarrow> u64) \<Rightarrow> key list \<Rightarrow> int \<Rightarrow> int \<Rightarrow> Cache \<Rightarrow> Cache res" where
  "c_DeleteRange h keys mn mx c = delete_loop h keys mn mx (c_init c)"

definition c_Delete :: "(key \<Rightarrow> u64) \<Rightarrow> key list \<Rightarrow> Cache \<Rightarrow> Cache res" where
  "c_Delete h keys c = c_DeleteRange h keys MinInt64 MaxInt64 c"

definition c_SetMaxSize :: "u64 \<Rightarrow> Cache \<Rightarrow> Cache" where
  "c_SetMaxSize sz c = c\<lparr>c_maxSize := sz\<rparr>"

definition c_values :: "(key \<Rightarrow> u64) \<Rightarrow> key \<Rightarrow> Cache \<Rightarrow> Value list" where
  "c_values h key c = (case st_entry h (c_store c) key of None \<Rightarrow> [] | Some e \<Rightarrow> e_values e)"

definition ApplyEntryFn :: "(key \<Rightarrow> entry \<Rightarrow> 'e option) \<Rightarrow> Cache \<Rightarrow> 'e option" where
  "ApplyEntryFn f c = st_applySerial f (c_store c)"

subsection \<open>Contents and invariant\<close>

text \<open>The values at each timestamp: in the store, in the snapshot, and as a reader sees them.\<close>

definition hot :: "(key \<Rightarrow> u64) \<Rightarrow> Cache \<Rightarrow> key \<Rightarrow> int \<rightharpoonup> Value" where
  "hot h c k = value_at Value_nano (values_in (st_entry h (c_store c) k))"

definition snapped :: "(key \<Rightarrow> u64) \<Rightarrow> Cache \<Rightarrow> key \<Rightarrow> int \<rightharpoonup> Value" where
  "snapped h c k = value_at Value_nano (values_in (snapshot_entry h c k))"

definition visible :: "(key \<Rightarrow> u64) \<Rightarrow> Cache \<Rightarrow> key \<Rightarrow> int \<rightharpoonup> Value" where
  "visible h c k = snapped h c k ++ hot h c k"

definition store_typed :: "(key \<Rightarrow> u64) \<Rightarrow> storer \<Rightarrow> bool" where
  "store_typed h st \<longleftrightarrow> (\<forall>k e. st_entry h st k = Some e \<longrightarrow> entry_typed e)"

fun snapshot_ok :: "(key \<Rightarrow> u64) \<Rightarrow> snapshot_cache option \<Rightarrow> u64 \<Rightarrow> bool \<Rightarrow> bool" where
  "snapshot_ok h None sz flag \<longleftrightarrow> sz = 0 \<and> \<not> flag"
| "snapshot_ok h (Some s) sz flag \<longleftrightarrow>
     s_size s = sz \<and> st_ok h (s_store s) \<and> store_typed h (s_store s) \<and> st_bytes (s_store s) \<le> unat sz"

definition cache_ok :: "(key \<Rightarrow> u64) \<Rightarrow> Cache \<Rightarrow> bool" where
  "cache_ok h c \<longleftrightarrow>
     (if c_initialized c then st_ok h (c_store c) else c_store c = EmptyStore) \<and>
     st_bytes (c_store c) \<le> unat (c_size c) \<and> store_typed h (c_store c) \<and>
     unat (c_size c) + unat (c_snapshotSize c) < 2 ^ 64 \<and>
     snapshot_ok h (c_snapshot c) (c_snapshotSize c) (c_snapshotting c)"

subsection \<open>Sizes\<close>

lemma unat_add_u64: "unat x + n < 2 ^ 64 \<Longrightarrow> unat (x + of_nat n :: u64) = unat x + n"
proof -
  assume n: "unat x + n < 2 ^ 64"
  have "x + of_nat n = of_nat (unat x + n)" by simp
  then show ?thesis by (simp only: unat_of_nat_u64 [OF n])
qed

lemma unat_sub_u64: "n \<le> unat x \<Longrightarrow> unat (x - of_nat n :: u64) = unat x - n"
proof -
  assume n: "n \<le> unat x"
  have lt: "unat x - n < 2 ^ 64" using unat_u64_less [of x] by linarith
  have "x - of_nat n = of_nat (unat x - n)" using n by (simp add: of_nat_diff)
  then show ?thesis by (simp only: unat_of_nat_u64 [OF lt])
qed

lemma decreaseSize_eq: "decreaseSize delta c = c\<lparr>c_size := c_size c - delta\<rparr>"
  by (simp add: decreaseSize_def not_eq_complement)

definition batch_bytes :: "(key \<times> Value list) list \<Rightarrow> nat" where
  "batch_bytes vals = sum_list (map (\<lambda>(k, v). vs_Size Value_Size v) vals)"

definition key_bytes :: "(key \<times> Value list) list \<Rightarrow> nat" where
  "key_bytes vals = sum_list (map (\<lambda>(k, v). length k) vals)"

lemma bytes_simps [simp]:
  "batch_bytes [] = 0" "batch_bytes ((k, v) # vals) = vs_Size Value_Size v + batch_bytes vals"
  "key_bytes [] = 0" "key_bytes ((k, v) # vals) = length k + key_bytes vals"
  by (simp_all add: batch_bytes_def key_bytes_def)

lemma added_size: "fold (\<lambda>(k, v) sz. sz + batch_size v) vals n = n + of_nat (batch_bytes vals)"
  by (induction vals arbitrary: n) (auto simp: batch_size_def)

subsection \<open>Writing\<close>

text \<open>Each key of a batch is written entirely or, when an error is returned, possibly not at all.\<close>

definition write_spec ::
  "(key \<times> Value list) list \<Rightarrow> bool \<Rightarrow> (key \<Rightarrow> int \<rightharpoonup> Value) \<Rightarrow> (key \<Rightarrow> int \<rightharpoonup> Value) \<Rightarrow> bool" where
  "write_spec vals failed m m' \<longleftrightarrow>
     (\<forall>k. case map_of vals k of
            None \<Rightarrow> m' k = m k
          | Some v \<Rightarrow> m' k = m k ++ value_at Value_nano v \<or> failed \<and> m' k = m k)"

lemma write_spec_Nil [simp]: "write_spec [] failed m m' \<longleftrightarrow> m' = m"
  by (auto simp: write_spec_def)

lemma write_spec_Cons:
  assumes "write_spec vals failed m1 m'" "k \<notin> set (map fst vals)"
    and "\<And>j. j \<noteq> k \<Longrightarrow> m1 j = m j" "m1 k = m k ++ value_at Value_nano v \<or> failed \<and> m1 k = m k"
  shows "write_spec ((k, v) # vals) failed m m'"
proof -
  have "map_of vals k = None" using assms(2) by (simp add: map_of_eq_None_iff)
  have "case map_of ((k, v) # vals) j of None \<Rightarrow> m' j = m j
      | Some v \<Rightarrow> m' j = m j ++ value_at Value_nano v \<or> failed \<and> m' j = m j" for j
  proof (cases "j = k")
    case True
    have "m' k = m1 k" using spec [OF assms(1) [unfolded write_spec_def], of k] \<open>map_of vals k = None\<close> by simp
    then show ?thesis using True assms(4) by simp
  next
    case False
    then show ?thesis using spec [OF assms(1) [unfolded write_spec_def], of j] assms(3) [OF False] by (cases "map_of vals j") simp_all
  qed
  then show ?thesis unfolding write_spec_def by blast
qed

text \<open>What a write needs: distinct keys, batches with values, and sizes that fit into 64 bits.\<close>

definition writable :: "(key \<times> Value list) list \<Rightarrow> Cache \<Rightarrow> bool" where
  "writable vals c \<longleftrightarrow> distinct (map fst vals) \<and> list_all (\<lambda>(k, v). batch_ok v) vals \<and>
     uint (c_size c) + uint (c_snapshotSize c) + int (batch_bytes vals) + int (key_bytes vals) < 2 ^ 64"

lemma writable_room: "writable vals c \<Longrightarrow> unat (c_size c) + unat (c_snapshotSize c) + batch_bytes vals + key_bytes vals < 2 ^ 64"
proof -
  assume "writable vals c"
  then have "int (unat (c_size c) + unat (c_snapshotSize c) + batch_bytes vals + key_bytes vals) < int (2 ^ 64)"
    by (simp add: writable_def)
  then show ?thesis unfolding of_nat_less_iff .
qed

lemma store_write:
  assumes "st_ok h st" "store_typed h st" "batch_ok v" "st_write h k v st = ((newKey, err), st')"
  shows "st_ok h st'" "store_typed h st'"
    and "st_bytes st' = st_bytes st + (if err = None then vs_Size Value_Size v else 0) + (if newKey then length k else 0)"
    and "err \<noteq> None \<Longrightarrow> \<not> newKey"
    and "values_in (st_entry h st' j) = (if j = k \<and> err = None then values_in (st_entry h st k) @ v else values_in (st_entry h st j))"
proof -
  note w = cache_store.write_eq [OF assms(1), of k v, unfolded assms(4)]
  show "st_ok h st'" using cache_store.write_ok [OF assms(1), of k v] unfolding assms(4) by simp
  consider (no) er where "written v (st_entry h st k) = Inl er" | (yes) e where "written v (st_entry h st k) = Inr e"
    by (cases "written v (st_entry h st k)") auto
  then have "store_typed h st' \<and>
    st_bytes st' = st_bytes st + (if err = None then vs_Size Value_Size v else 0) + (if newKey then length k else 0) \<and>
    (err \<noteq> None \<longrightarrow> \<not> newKey) \<and>
    values_in (st_entry h st' j) = (if j = k \<and> err = None then values_in (st_entry h st k) @ v else values_in (st_entry h st j))"
  proof cases
    case no
    then show ?thesis using w assms(2) by simp
  next
    case yes
    then have st': "st' = st_put h k e st" "err = None" "newKey = (st_entry h st k = None)" using w by simp_all
    have t: "entry_typed e"
      using assms(2) by (intro written_typed [OF yes assms(3)]) (auto simp: store_typed_def)
    have "st_bytes st' + weight k (st_entry h st k) = st_bytes st + length k + entry_size e"
      unfolding st'(1) by (rule cache_store.bytes_put [OF assms(1)])
    then have b: "st_bytes st' = st_bytes st + vs_Size Value_Size v + (if newKey then length k else 0)"
      using written_weight [OF yes, of k] st'(3) by simp
    have en: "st_entry h st' i = (if i = k then Some e else st_entry h st i)" for i
      unfolding st'(1) by (rule cache_store.entry_put [OF assms(1)])
    have vals: "values_in (Some e) = values_in (st_entry h st k) @ v"
      using written_values [OF yes] by (simp add: values_in_def)
    show ?thesis using b t st'(2) assms(2) vals unfolding store_typed_def en by simp
  qed
  then show "store_typed h st'" "st_bytes st' = st_bytes st + (if err = None then vs_Size Value_Size v else 0) + (if newKey then length k else 0)"
    "err \<noteq> None \<Longrightarrow> \<not> newKey"
    "values_in (st_entry h st' j) = (if j = k \<and> err = None then values_in (st_entry h st k) @ v else values_in (st_entry h st j))"
    by blast+
qed

lemma write_loop_spec:
  assumes "st_ok h (c_store c)" "store_typed h (c_store c)" "distinct (map fst vals)" "list_all (\<lambda>(k, v). batch_ok v) vals"
    and "st_bytes (c_store c) + batch_bytes vals \<le> unat (c_size c)" "unat (c_size c) + key_bytes vals < 2 ^ 64"
  shows "\<exists>werr' st sz. write_loop h vals werr c = (werr', c\<lparr>c_store := st, c_size := sz\<rparr>) \<and> st_ok h st \<and> store_typed h st \<and>
    st_bytes st \<le> unat sz \<and> unat sz \<le> unat (c_size c) + key_bytes vals \<and> (werr' = None \<longrightarrow> werr = None) \<and>
    write_spec vals (werr' \<noteq> None) (hot h c) (\<lambda>k. value_at Value_nano (values_in (st_entry h st k)))"
  using assms
proof (induction vals arbitrary: c werr)
  case Nil
  then show ?case by (intro exI [of _ werr] exI [of _ "c_store c"] exI [of _ "c_size c"]) (auto simp: hot_def fun_eq_iff)
next
  case (Cons kv vals)
  obtain k v where kv: "kv = (k, v)" by fastforce
  obtain newKey err st where w: "st_write h k v (c_store c) = ((newKey, err), st)" by (metis surj_pair)
  have bv: "batch_ok v" using Cons.prems(4) by (simp add: kv)
  note sw = store_write [OF Cons.prems(1,2) bv w]
  define d where "d = (if err \<noteq> None then vs_Size Value_Size v else 0)"
  define n where "n = (if newKey then length k else 0)"
  define sz where "sz = c_size c - of_nat d + of_nat n"
  define c1 where "c1 = c\<lparr>c_store := st, c_size := sz\<rparr>"
  have d: "d \<le> unat (c_size c)" using Cons.prems(5) by (simp add: kv d_def)
  have n: "n \<le> length k" by (simp add: n_def)
  have sz: "unat sz = unat (c_size c) - d + n"
    unfolding sz_def using Cons.prems(6) n d unat_sub_u64 [OF d] by (subst unat_add_u64) (simp_all add: kv)
  have "write_loop h (kv # vals) werr c = write_loop h vals (if err \<noteq> None then err else werr) c1"
    by (simp add: kv w Let_def c1_def sz_def d_def n_def decreaseSize_eq increaseSize_def batch_size_def)
  moreover have "\<exists>werr' st' sz'. write_loop h vals (if err \<noteq> None then err else werr) c1 = (werr', c1\<lparr>c_store := st', c_size := sz'\<rparr>) \<and>
      st_ok h st' \<and> store_typed h st' \<and> st_bytes st' \<le> unat sz' \<and> unat sz' \<le> unat (c_size c1) + key_bytes vals \<and>
      (werr' = None \<longrightarrow> (if err \<noteq> None then err else werr) = None) \<and>
      write_spec vals (werr' \<noteq> None) (hot h c1) (\<lambda>k. value_at Value_nano (values_in (st_entry h st' k)))"
  proof (rule Cons.IH)
    show "st_ok h (c_store c1)" "store_typed h (c_store c1)" using sw by (simp_all add: c1_def)
    show "distinct (map fst vals)" "list_all (\<lambda>(k, v). batch_ok v) vals" using Cons.prems(3,4) by simp_all
    show "st_bytes (c_store c1) + batch_bytes vals \<le> unat (c_size c1)"
      using Cons.prems(5) sw(3,4) by (cases err; cases newKey) (simp_all add: c1_def sz kv d_def n_def)
    show "unat (c_size c1) + key_bytes vals < 2 ^ 64" using Cons.prems(6) n by (simp add: c1_def sz kv)
  qed
  ultimately obtain werr' st' sz' where r: "write_loop h (kv # vals) werr c = (werr', c1\<lparr>c_store := st', c_size := sz'\<rparr>)"
    "st_ok h st'" "store_typed h st'" "st_bytes st' \<le> unat sz'" "unat sz' \<le> unat (c_size c1) + key_bytes vals"
    "werr' = None \<longrightarrow> (if err \<noteq> None then err else werr) = None"
    "write_spec vals (werr' \<noteq> None) (hot h c1) (\<lambda>k. value_at Value_nano (values_in (st_entry h st' k)))" by auto
  have h1: "hot h c1 j = (if j = k \<and> err = None then hot h c k ++ value_at Value_nano v else hot h c j)" for j
    using sw(5) [of j] by (simp add: hot_def c1_def value_at_map_add)
  have "write_spec (kv # vals) (werr' \<noteq> None) (hot h c) (\<lambda>k. value_at Value_nano (values_in (st_entry h st' k)))"
    unfolding kv using r(6,7) Cons.prems(3) h1 by (intro write_spec_Cons [OF r(7)]) (auto simp: kv split: if_splits)
  moreover have "unat sz' \<le> unat (c_size c) + key_bytes (kv # vals)"
    using r(5) n by (simp add: c1_def sz kv)
  moreover have "werr' = None \<longrightarrow> werr = None" using r(6) by (auto split: if_splits)
  moreover have "c1\<lparr>c_store := st', c_size := sz'\<rparr> = c\<lparr>c_store := st', c_size := sz'\<rparr>" by (simp add: c1_def)
  ultimately show ?case using r(1-4) by auto
qed

lemma newring_shards: "newring ringShards = Inr \<lparr>ring_partitions = replicate 16 []\<rparr>"
  by code_simp

lemma new_store:
  "st_ok h (RingStore \<lparr>ring_partitions = replicate 16 []\<rparr>)" "st_entry h (RingStore \<lparr>ring_partitions = replicate 16 []\<rparr>) k = None"
  "st_bytes (RingStore \<lparr>ring_partitions = replicate 16 []\<rparr>) = 0" "store_typed h (RingStore \<lparr>ring_partitions = replicate 16 []\<rparr>)"
proof -
  show "st_entry h (RingStore \<lparr>ring_partitions = replicate 16 []\<rparr>) k = None" for k
    by (simp add: ring_entry_def partition_entry_def getPartition_def)
  then show "store_typed h (RingStore \<lparr>ring_partitions = replicate 16 []\<rparr>)" by (simp add: store_typed_def)
  show "st_ok h (RingStore \<lparr>ring_partitions = replicate 16 []\<rparr>)" by (simp add: ring_ok_def)
  show "st_bytes (RingStore \<lparr>ring_partitions = replicate 16 []\<rparr>) = 0"
    by (simp add: ring_bytes_def partition_bytes_def sum_list_replicate)
qed

lemma c_init_fields [simp]:
  "c_size (c_init c) = c_size c" "c_snapshotSize (c_init c) = c_snapshotSize c" "c_maxSize (c_init c) = c_maxSize c"
  "c_snapshot (c_init c) = c_snapshot c" "c_snapshotting (c_init c) = c_snapshotting c" "c_initialized (c_init c)"
  by (simp_all add: c_init_def)

lemma c_init_ok:
  assumes "cache_ok h c"
  shows "cache_ok h (c_init c)" "st_ok h (c_store (c_init c))" "hot h (c_init c) = hot h c" "snapped h (c_init c) = snapped h c"
proof -
  have snap: "snapped h (c_init c) = snapped h c" by (simp add: snapped_def snapshot_entry_def fun_eq_iff)
  have "cache_ok h (c_init c) \<and> st_ok h (c_store (c_init c)) \<and> hot h (c_init c) = hot h c"
  proof (cases "c_initialized c")
    case True
    then show ?thesis using assms by (simp add: c_init_def cache_ok_def)
  next
    case False
    then have "c_store c = EmptyStore" using assms by (simp add: cache_ok_def)
    then show ?thesis
      using False assms new_store by (simp add: c_init_def newring_shards cache_ok_def hot_def fun_eq_iff)
  qed
  then show "cache_ok h (c_init c)" "st_ok h (c_store (c_init c))" "hot h (c_init c) = hot h c" "snapped h (c_init c) = snapped h c"
    using snap by blast+
qed

text \<open>A cache with another store and another size.\<close>

lemma cache_ok_store:
  assumes "cache_ok h c" "c_initialized c" "st_ok h st" "store_typed h st" "st_bytes st \<le> unat sz"
    and "unat sz + unat (c_snapshotSize c) < 2 ^ 64"
  shows "cache_ok h (c\<lparr>c_store := st, c_size := sz\<rparr>)"
  using assms by (simp add: cache_ok_def)

lemma WriteMulti_spec:
  assumes "cache_ok h c" "writable vals c" "WriteMulti h now vals c = (err, c')"
  shows "cache_ok h c' \<and> snapped h c' = snapped h c \<and>
    (hot h c' = hot h c \<and> (\<exists>n limit. err = Some (ErrCacheMemorySizeLimitExceeded n limit)) \<or>
      write_spec vals (err \<noteq> None) (hot h c) (hot h c')) \<and>
    unat (c_size c') \<le> unat (c_size c) + batch_bytes vals + key_bytes vals"
proof -
  let ?c = "c_init c"
  note i = c_init_ok [OF assms(1)]
  have room: "unat (c_size c) + unat (c_snapshotSize c) + batch_bytes vals + key_bytes vals < 2 ^ 64"
    by (rule writable_room [OF assms(2)])
  have keys: "distinct (map fst vals)" "list_all (\<lambda>(k, v). batch_ok v) vals" using assms(2) by (simp_all add: writable_def)
  show ?thesis
  proof (cases "c_maxSize c > 0 \<and> c_Size ?c + of_nat (batch_bytes vals) > c_maxSize c")
    case True
    then have "err = Some (ErrCacheMemorySizeLimitExceeded (c_Size ?c + of_nat (batch_bytes vals)) (c_maxSize c))" "c' = ?c"
      using assms(3) by (auto simp: WriteMulti_def Let_def added_size)
    then show ?thesis
      using i by auto
  next
    case False
    define c1 where "c1 = increaseSize (of_nat (batch_bytes vals)) ?c"
    have sz1: "unat (c_size c1) = unat (c_size c) + batch_bytes vals"
      using room by (simp add: c1_def increaseSize_def unat_add_u64)
    have st1: "c_store c1 = c_store ?c" "hot h c1 = hot h c" using i(3) by (auto simp: c1_def increaseSize_def hot_def fun_eq_iff)
    have inv: "store_typed h (c_store ?c)" "st_bytes (c_store ?c) \<le> unat (c_size c)" using i(1) by (simp_all add: cache_ok_def)
    obtain werr st sz where l: "write_loop h vals None c1 = (werr, c1\<lparr>c_store := st, c_size := sz\<rparr>)" "st_ok h st" "store_typed h st"
      "st_bytes st \<le> unat sz" "unat sz \<le> unat (c_size c1) + key_bytes vals"
      "write_spec vals (werr \<noteq> None) (hot h c1) (\<lambda>k. value_at Value_nano (values_in (st_entry h st k)))"
      using write_loop_spec [of h c1 vals None] i(2) inv keys room sz1 st1 by auto
    have r: "err = werr" "c' = (c1\<lparr>c_store := st, c_size := sz\<rparr>)\<lparr>c_lastWriteTime := now\<rparr>"
      using False assms(3) l(1) by (auto simp: WriteMulti_def Let_def added_size c1_def)
    have "cache_ok h (?c\<lparr>c_store := st, c_size := sz\<rparr>)"
      using l(2-5) room sz1 by (intro cache_ok_store [OF i(1)]) simp_all
    then have "cache_ok h c'" by (simp add: r c1_def increaseSize_def cache_ok_def)
    moreover have "snapped h c' = snapped h c"
      using i(4) by (auto simp: r c1_def increaseSize_def snapped_def snapshot_entry_def fun_eq_iff)
    moreover have "unat (c_size c') \<le> unat (c_size c) + batch_bytes vals + key_bytes vals" using l(5) sz1 by (simp add: r)
    moreover have "hot h c' = (\<lambda>k. value_at Value_nano (values_in (st_entry h st k)))" by (simp add: r hot_def fun_eq_iff)
    ultimately show ?thesis using l(6) st1(2) r(1) by simp
  qed
qed

subsection \<open>Snapshots\<close>

lemma typed_size: "entry_typed e \<Longrightarrow> entry_size e > 0"
proof -
  assume "entry_typed e"
  then obtain v vs where v: "e_values e = v # vs" "valueType v \<noteq> 0" by (cases "e_values e") (auto simp: entry_typed_def)
  then have "Value_Size v > 0" by (cases v) auto
  then show ?thesis by (simp add: entry_size_def vs_Size_sum v(1))
qed

lemma store_empty:
  assumes "st_ok h st" "store_typed h st" "st_bytes st = 0"
  shows "st_entry h st k = None"
proof (rule ccontr)
  assume "st_entry h st k \<noteq> None"
  then obtain e where e: "st_entry h st k = Some e" by auto
  then have "entry_size e > 0" using assms(2) by (intro typed_size) (auto simp: store_typed_def)
  then show False using cache_store.bytes_remove [OF assms(1), of k] assms(3) e by (simp add: weight_def)
qed

text \<open>A snapshot that starts takes all values over, one that is tried again leaves the new values where they are.\<close>

lemma Snapshot_spec:
  assumes "cache_ok h c" "Snapshot c = (err, c')"
  shows "cache_ok h c' \<and> visible h c' = visible h c \<and> (err = None \<longrightarrow> c_snapshotting c' \<and> c_snapshot c' \<noteq> None) \<and>
    (hot h c' = hot h c \<and> snapped h c' = snapped h c \<or>
     err = None \<and> c_snapshotSize c = 0 \<and> hot h c' = (\<lambda>_. Map.empty) \<and> snapped h c' = hot h c)"
proof -
  let ?c = "c_init c"
  note i = c_init_ok [OF assms(1)]
  have vis: "visible h ?c = visible h c" by (rule ext) (simp add: visible_def i(3,4))
  show ?thesis
  proof (cases "c_snapshotting c")
    case True
    then have "err = Some ErrSnapshotInProgress" "c' = ?c" using assms(2) by (auto simp: Snapshot_def Let_def)
    then show ?thesis using i vis by simp
  next
    case False
    define s where "s = (case c_snapshot c of Some s \<Rightarrow> s | None \<Rightarrow> \<lparr>s_size = 0, s_store = RingStore \<lparr>ring_partitions = replicate 16 []\<rparr>\<rparr>)"
    define c1 where "c1 = ?c\<lparr>c_snapshotting := True, c_snapshotAttempts := c_snapshotAttempts ?c + 1\<rparr>"
    have sk: "snapshot_ok h (c_snapshot c) (c_snapshotSize c) (c_snapshotting c)" using assms(1) by (simp add: cache_ok_def)
    have s: "s_size s = c_snapshotSize c" "st_ok h (s_store s)" "store_typed h (s_store s)" "st_bytes (s_store s) \<le> unat (s_size s)"
      using sk new_store by (cases "c_snapshot c"; simp add: s_def)+
    have e: "snapped h c k = value_at Value_nano (values_in (st_entry h (s_store s) k))" for k
      using new_store(2) by (cases "c_snapshot c") (simp_all add: snapped_def snapshot_entry_def s_def)
    have run: "Snapshot c =
        (if s_size s > 0 then (None, c1\<lparr>c_snapshot := Some s\<rparr>)
         else (None, c1\<lparr>c_snapshot := Some \<lparr>s_size = c_Size c1, s_store = c_store c1\<rparr>, c_snapshotSize := c_Size c1,
                c_store := st_reset (s_store s), c_size := 0\<rparr>))"
      using False by (cases "c_snapshot c") (simp_all add: Snapshot_def Let_def newring_shards s_def c1_def c_Size_def)
    show ?thesis
    proof (cases "s_size s > 0")
      case True
      then have r: "err = None" "c' = c1\<lparr>c_snapshot := Some s\<rparr>" using assms(2) run by simp_all
      have h: "hot h c' = hot h c" "snapped h c' = snapped h c"
        using i(3) by (auto simp: r c1_def hot_def fun_eq_iff e) (simp add: snapped_def snapshot_entry_def)
      moreover have "cache_ok h c'" using i(1) s by (simp add: r c1_def cache_ok_def)
      moreover have "visible h c' = visible h c" by (rule ext) (simp add: visible_def h)
      moreover have "c_snapshotting c'" "c_snapshot c' \<noteq> None" by (simp_all add: r c1_def)
      ultimately show ?thesis using r(1) by simp
    next
      case zero: False
      then have s0: "s_size s = 0" "c_snapshotSize c = 0" using s(1) by (auto simp: word_gt_0)
      then have "st_entry h (s_store s) k = None" for k using s by (intro store_empty) simp_all
      then have sn: "snapped h c k = Map.empty" for k using e [of k] by (simp add: values_in_def)
      have r: "err = None" "c' = c1\<lparr>c_snapshot := Some \<lparr>s_size = c_Size c1, s_store = c_store c1\<rparr>, c_snapshotSize := c_Size c1,
          c_store := st_reset (s_store s), c_size := 0\<rparr>" using zero assms(2) run by simp_all
      have sz: "c_Size c1 = c_size c" using s0(2) by (simp add: c_Size_def c1_def)
      have h: "hot h c' k = Map.empty" "snapped h c' k = hot h c k" for k
        using st_reset_laws(2) [OF s(2)] i(3)
        by (auto simp: r hot_def snapped_def snapshot_entry_def c1_def values_in_def fun_eq_iff)
      have ci: "st_ok h (c_store ?c)" "store_typed h (c_store ?c)" "st_bytes (c_store ?c) \<le> unat (c_size c)"
        using i(1,2) by (simp_all add: cache_ok_def)
      have "unat (c_size c) < 2 ^ 64" by (rule unat_u64_less)
      then have "cache_ok h c'"
        using ci st_reset_laws [OF s(2)] unfolding r(2) sz by (simp add: c1_def cache_ok_def store_typed_def)
      moreover have "visible h c' = visible h c" by (rule ext) (simp add: visible_def h sn)
      moreover have "c_snapshotting c'" "c_snapshot c' \<noteq> None" by (simp_all add: r c1_def)
      moreover have "hot h c' = (\<lambda>_. Map.empty)" "snapped h c' = hot h c" by (rule ext, simp add: h)+
      ultimately show ?thesis using r(1) s0(2) by simp
    qed
  qed
qed

lemma ClearSnapshot_spec:
  assumes "cache_ok h c" "ClearSnapshot success c = Inr c'"
  shows "cache_ok h c' \<and> hot h c' = hot h c \<and> \<not> c_snapshotting c' \<and>
    snapped h c' = (if success then (\<lambda>_. Map.empty) else snapped h c) \<and> (success \<longrightarrow> c_snapshotSize c' = 0)"
proof -
  let ?c = "c_init c"
  note i = c_init_ok [OF assms(1)]
  obtain s where s: "c_snapshot c = Some s" using assms(2) by (cases "c_snapshot c") (auto simp: ClearSnapshot_def Let_def)
  have sk: "snapshot_ok h (Some s) (c_snapshotSize c) (c_snapshotting c)" using assms(1) s by (simp add: cache_ok_def)
  show ?thesis
  proof (cases success)
    case True
    then have c': "c' = ?c\<lparr>c_snapshotting := False, c_snapshotAttempts := 0,
        c_snapshot := Some \<lparr>s_size = 0, s_store = st_reset (s_store s)\<rparr>, c_snapshotSize := 0\<rparr>"
      using assms(2) s by (simp add: ClearSnapshot_def Let_def)
    have r: "st_ok h (st_reset (s_store s))" "\<And>k. st_entry h (st_reset (s_store s)) k = None" "st_bytes (st_reset (s_store s)) = 0"
      using st_reset_laws sk by auto
    have "cache_ok h c'" using i(1) r by (simp add: c' cache_ok_def store_typed_def)
    moreover have "hot h c' = hot h c" using i(3) by (simp add: c' hot_def fun_eq_iff)
    moreover have "snapped h c' = (\<lambda>_. Map.empty)"
      using r(2) by (simp add: c' snapped_def snapshot_entry_def values_in_def fun_eq_iff)
    ultimately show ?thesis using True by (simp add: c')
  next
    case False
    then have c': "c' = ?c\<lparr>c_snapshotting := False\<rparr>" using assms(2) s by (simp add: ClearSnapshot_def Let_def)
    have "cache_ok h c'" using i(1) s by (simp add: c' cache_ok_def)
    moreover have "hot h c' = hot h c" using i(3) by (simp add: c' hot_def fun_eq_iff)
    moreover have "snapped h c' = snapped h c" by (simp add: c' snapped_def snapshot_entry_def fun_eq_iff)
    ultimately show ?thesis using False by (simp add: c')
  qed
qed

lemma snapshot_Deduplicate_spec:
  assumes "cache_ok h c"
  shows "cache_ok h (snapshot_Deduplicate c)" "hot h (snapshot_Deduplicate c) = hot h c" "snapped h (snapshot_Deduplicate c) = snapped h c"
proof -
  show "hot h (snapshot_Deduplicate c) = hot h c" by (simp add: snapshot_Deduplicate_def hot_def fun_eq_iff)
  have "cache_ok h (snapshot_Deduplicate c) \<and> snapped h (snapshot_Deduplicate c) = snapped h c"
  proof (cases "c_snapshot c")
    case None
    then have "snapshot_Deduplicate c = c" by (simp add: snapshot_Deduplicate_def)
    then show ?thesis using assms by simp
  next
    case (Some s)
    have sk: "snapshot_ok h (Some s) (c_snapshotSize c) (c_snapshotting c)" using assms Some by (simp add: cache_ok_def)
    let ?st = "st_apply entry_deduplicate (s_store s)"
    have a: "st_ok h ?st" "\<And>k. st_entry h ?st k = map_option entry_deduplicate (st_entry h (s_store s) k)" "st_bytes ?st \<le> st_bytes (s_store s)"
      using st_apply_laws [of h "s_store s" entry_deduplicate] entry_deduplicate_size sk by simp_all
    have "store_typed h ?st" using sk unfolding store_typed_def a(2) by (auto simp: store_typed_def intro: entry_deduplicate_typed)
    then have "cache_ok h (snapshot_Deduplicate c)" using assms Some sk a by (simp add: snapshot_Deduplicate_def cache_ok_def)
    moreover have "snapped h (snapshot_Deduplicate c) k = snapped h c k" for k
      using a(2) [of k] Some
      by (cases "st_entry h (s_store s) k")
        (simp_all add: snapshot_Deduplicate_def snapped_def snapshot_entry_def values_in_def entry_deduplicate_values Deduplicate_value_at)
    ultimately show ?thesis by (simp add: fun_eq_iff)
  qed
  then show "cache_ok h (snapshot_Deduplicate c)" "snapped h (snapshot_Deduplicate c) = snapped h c" by blast+
qed

subsection \<open>Reading\<close>

lemma put_deduplicated:
  assumes "st_ok h st" "store_typed h st" "st_entry h st k = Some x"
  shows "st_ok h (st_put h k (entry_deduplicate x) st)" "store_typed h (st_put h k (entry_deduplicate x) st)"
    "st_bytes (st_put h k (entry_deduplicate x) st) \<le> st_bytes st"
    "value_at Value_nano (values_in (st_entry h (st_put h k (entry_deduplicate x) st) j)) = value_at Value_nano (values_in (st_entry h st j))"
proof -
  note e = cache_store.entry_put [OF assms(1), of k "entry_deduplicate x"]
  show "st_ok h (st_put h k (entry_deduplicate x) st)" by (rule cache_store.put_ok [OF assms(1)])
  show "store_typed h (st_put h k (entry_deduplicate x) st)"
    using assms(2,3) unfolding store_typed_def e by (auto intro: entry_deduplicate_typed)
  show "st_bytes (st_put h k (entry_deduplicate x) st) \<le> st_bytes st"
    using cache_store.bytes_put [OF assms(1), of k "entry_deduplicate x"] entry_deduplicate_size [of x] assms(3)
    by (simp add: weight_def)
  show "value_at Value_nano (values_in (st_entry h (st_put h k (entry_deduplicate x) st) j)) = value_at Value_nano (values_in (st_entry h st j))"
    unfolding e using assms(3) by (simp add: values_in_def entry_deduplicate_values Deduplicate_value_at)
qed

lemma deduplicate_hot:
  assumes "cache_ok h c" "st_entry h (c_store c) k = Some x"
  shows "cache_ok h (c\<lparr>c_store := st_put h k (entry_deduplicate x) (c_store c)\<rparr>)"
    "hot h (c\<lparr>c_store := st_put h k (entry_deduplicate x) (c_store c)\<rparr>) = hot h c"
proof -
  have "c_initialized c" using assms by (cases "c_initialized c") (auto simp: cache_ok_def)
  then have st: "st_ok h (c_store c)" "store_typed h (c_store c)" using assms(1) by (simp_all add: cache_ok_def)
  note p = put_deduplicated [OF st assms(2)]
  show "cache_ok h (c\<lparr>c_store := st_put h k (entry_deduplicate x) (c_store c)\<rparr>)"
    using assms(1) p \<open>c_initialized c\<close> by (simp add: cache_ok_def)
  show "hot h (c\<lparr>c_store := st_put h k (entry_deduplicate x) (c_store c)\<rparr>) = hot h c"
    by (rule ext) (simp add: hot_def p(4))
qed

lemma deduplicate_snapped:
  assumes "cache_ok h c" "snapshot_entry h c k = Some x"
  defines "c' \<equiv> c\<lparr>c_snapshot := map_option (\<lambda>s. s\<lparr>s_store := st_put h k (entry_deduplicate x) (s_store s)\<rparr>) (c_snapshot c)\<rparr>"
  shows "cache_ok h c'" "hot h c' = hot h c" "snapped h c' = snapped h c"
proof -
  obtain s where s: "c_snapshot c = Some s" "st_entry h (s_store s) k = Some x"
    using assms(2) by (auto simp: snapshot_entry_def split: option.splits)
  have sk: "st_ok h (s_store s)" "store_typed h (s_store s)" "st_bytes (s_store s) \<le> unat (c_snapshotSize c)" "s_size s = c_snapshotSize c"
    using assms(1) s by (simp_all add: cache_ok_def)
  note p = put_deduplicated [OF sk(1,2) s(2)]
  show "cache_ok h c'" using assms(1) s sk p by (simp add: c'_def cache_ok_def)
  show "hot h c' = hot h c" by (rule ext) (simp add: c'_def hot_def)
  show "snapped h c' = snapped h c" by (rule ext) (simp add: c'_def snapped_def snapshot_entry_def s p(4))
qed

lemma snapped_upd: "snapped h (c\<lparr>c_store := st\<rparr>) = snapped h c" "snapshot_entry h (c\<lparr>c_store := st\<rparr>) k = snapshot_entry h c k"
  by (simp_all add: snapped_def snapshot_entry_def fun_eq_iff)

lemma Values_spec:
  assumes "cache_ok h c" "c_Values h k c = (vals, c')"
  shows "cache_ok h c' \<and> hot h c' = hot h c \<and> snapped h c' = snapped h c \<and>
    vals = vs_Deduplicate Value_nano (values_in (snapshot_entry h c k) @ values_in (st_entry h (c_store c) k)) \<and>
    increasing Value_nano vals \<and> value_at Value_nano vals = visible h c k"
proof -
  let ?e = "st_entry h (c_store c) k" and ?s = "snapshot_entry h c k"
  let ?all = "values_in ?s @ values_in ?e"
  have all: "increasing Value_nano (vs_Deduplicate Value_nano ?all)" "value_at Value_nano (vs_Deduplicate Value_nano ?all) = visible h c k"
    by (simp_all add: Deduplicate_increasing Deduplicate_value_at value_at_map_add visible_def hot_def snapped_def)
  define c1 where "c1 = (case ?e of None \<Rightarrow> c | Some x \<Rightarrow> c\<lparr>c_store := st_put h k (entry_deduplicate x) (c_store c)\<rparr>)"
  have c1: "cache_ok h c1" "hot h c1 = hot h c" "snapped h c1 = snapped h c" "snapshot_entry h c1 k = ?s"
    using assms(1) deduplicate_hot [OF assms(1)] by (cases ?e; simp add: c1_def snapped_upd)+
  define c2 where "c2 = (case ?s of None \<Rightarrow> c1 | Some x \<Rightarrow>
    c1\<lparr>c_snapshot := map_option (\<lambda>s. s\<lparr>s_store := st_put h k (entry_deduplicate x) (s_store s)\<rparr>) (c_snapshot c1)\<rparr>)"
  have c2: "cache_ok h c2" "hot h c2 = hot h c" "snapped h c2 = snapped h c"
    using c1 deduplicate_snapped [OF c1(1)] by (cases ?s; simp add: c2_def)+
  define entries where "entries = (case ?s of None \<Rightarrow> [] | Some x \<Rightarrow> [entry_deduplicate x]) @ (case ?e of None \<Rightarrow> [] | Some x \<Rightarrow> [entry_deduplicate x])"
  have ent: "concat (map e_values entries) = vs_Deduplicate Value_nano (values_in ?s) @ vs_Deduplicate Value_nano (values_in ?e)"
    by (cases ?s; cases ?e) (simp_all add: entries_def values_in_def entry_deduplicate_values vs_Deduplicate_def)
  then have "vs_Deduplicate Value_nano (concat (map e_values entries)) = vs_Deduplicate Value_nano ?all"
    by (intro increasing_ext [OF Deduplicate_increasing Deduplicate_increasing])
      (simp add: Deduplicate_value_at value_at_map_add)
  moreover have "sum_list (map entry_count entries) = length (concat (map e_values entries))"
    by (induction entries) (simp_all add: entry_count_def)
  moreover have "?all = []" if "concat (map e_values entries) = []"
    using that Deduplicate_ne [of Value_nano "values_in ?s"] Deduplicate_ne [of Value_nano "values_in ?e"] unfolding ent by auto
  moreover have "(vals, c') = (if ?e = None \<and> ?s = None then ([], c) else if sum_list (map entry_count entries) = 0 then ([], c2)
      else (vs_Deduplicate Value_nano (concat (map e_values entries)), c2))"
    unfolding assms(2) [symmetric] c_Values_def Let_def c1_def c2_def entries_def ..
  ultimately have "vals = vs_Deduplicate Value_nano ?all" "c' = c \<or> c' = c2"
    by (auto split: if_splits simp: values_in_def vs_Deduplicate_def)
  then show ?thesis using all c2 assms(1) by auto
qed

subsection \<open>Deleting\<close>

definition outside :: "int \<Rightarrow> int \<Rightarrow> (int \<rightharpoonup> Value) \<Rightarrow> int \<rightharpoonup> Value" where
  "outside mn mx m = (\<lambda>t. if mn \<le> t \<and> t \<le> mx then None else m t)"

lemma Value_nano_range: "MinInt64 \<le> Value_nano v" "Value_nano v \<le> MaxInt64"
  unfolding Value_nano_def MinInt64_def MaxInt64_def
  using sint_ge [of "UnixNano v"] sint_lt [of "UnixNano v"] by simp_all

lemma outside_all: "outside MinInt64 MaxInt64 (value_at Value_nano a) = Map.empty"
proof
  fix t
  show "outside MinInt64 MaxInt64 (value_at Value_nano a) t = None"
  proof (cases "value_at Value_nano a t")
    case (Some x)
    then have "Value_nano x = t" using value_at_SomeD by fastforce
    then show ?thesis using Value_nano_range [of x] by (simp add: outside_def)
  qed (simp add: outside_def)
qed

lemma entry_filter_spec:
  assumes "entry_filter mn mx e = Inr e'"
  shows "value_at Value_nano (e_values e') = outside mn mx (value_at Value_nano (e_values e))" "entry_size e' \<le> entry_size e"
proof -
  let ?f = "filter (\<lambda>x. \<not> (mn \<le> Value_nano x \<and> Value_nano x \<le> mx)) (vs_Deduplicate Value_nano (e_values e))"
  have e': "e_values e' = ?f" using assms by (auto simp: entry_filter_eq)
  have "value_at Value_nano ?f t = (if \<not> (mn \<le> t \<and> t \<le> mx) then value_at Value_nano (e_values e) t else None)" for t
    using value_at_filter_time [of Value_nano "\<lambda>t. \<not> (mn \<le> t \<and> t \<le> mx)"] by (simp only: Deduplicate_value_at)
  then show "value_at Value_nano (e_values e') = outside mn mx (value_at Value_nano (e_values e))"
    unfolding e' by (auto simp: outside_def fun_eq_iff)
  show "entry_size e' \<le> entry_size e" unfolding entry_size_def e' by (rule filter_dedup_size)
qed

text \<open>One key: the store loses what is in the range, and the size goes down by as much or less.\<close>

lemma shrink_store:
  assumes "cache_ok h c" "c_initialized c" "st_ok h st" "store_typed h st" "st_bytes st + n \<le> st_bytes (c_store c)"
    and "\<And>j. value_at Value_nano (values_in (st_entry h st j)) = (if j = k then m else hot h c j)"
  defines "c' \<equiv> c\<lparr>c_store := st, c_size := c_size c - of_nat n\<rparr>"
  shows "cache_ok h c' \<and> c_initialized c' \<and> snapped h c' = snapped h c \<and> hot h c' = (hot h c)(k := m)"
proof -
  have b: "st_bytes (c_store c) \<le> unat (c_size c)" "unat (c_size c) + unat (c_snapshotSize c) < 2 ^ 64"
    using assms(1) unfolding cache_ok_def by blast+
  have sz: "unat (c_size c - of_nat n) = unat (c_size c) - n" using assms(5) b(1) by (intro unat_sub_u64) linarith
  have "unat (c_size c - of_nat n) + unat (c_snapshotSize c) < 2 ^ 64" unfolding sz using b(2) by linarith
  moreover have "st_bytes st \<le> unat (c_size c - of_nat n)" unfolding sz using assms(5) b(1) by linarith
  ultimately have "cache_ok h c'" unfolding c'_def by (intro cache_ok_store [OF assms(1-4)])
  moreover have "snapped h c' = snapped h c" by (simp add: c'_def snapped_def snapshot_entry_def fun_eq_iff)
  moreover have "hot h c' = (hot h c)(k := m)" by (rule ext) (simp add: c'_def hot_def [of h "c\<lparr>c_store := st, c_size := c_size c - of_nat n\<rparr>"] assms(6))
  ultimately show ?thesis using assms(2) by (simp add: c'_def)
qed

lemma remove_key:
  assumes "cache_ok h c" "c_initialized c" "st_entry h (c_store c) k = Some e"
  defines "c' \<equiv> c\<lparr>c_store := st_remove h k (c_store c), c_size := c_size c - of_nat (entry_size e + length k)\<rparr>"
  shows "cache_ok h c' \<and> c_initialized c' \<and> snapped h c' = snapped h c \<and> hot h c' = (hot h c)(k := Map.empty)"
  unfolding c'_def
proof (rule shrink_store [OF assms(1,2)])
  have st: "st_ok h (c_store c)" "store_typed h (c_store c)" using assms(1,2) by (simp_all add: cache_ok_def)
  note er = cache_store.entry_remove [OF st(1), of k]
  show "st_ok h (st_remove h k (c_store c))" by (rule cache_store.remove_ok [OF st(1)])
  show "store_typed h (st_remove h k (c_store c))" using st(2) unfolding store_typed_def er by simp
  show "st_bytes (st_remove h k (c_store c)) + (entry_size e + length k) \<le> st_bytes (c_store c)"
    using cache_store.bytes_remove [OF st(1), of k] assms(3) by (simp add: weight_def)
  show "value_at Value_nano (values_in (st_entry h (st_remove h k (c_store c)) j)) = (if j = k then Map.empty else hot h c j)" for j
    unfolding er by (simp add: hot_def values_in_def)
qed

lemma replace_entry:
  assumes "cache_ok h c" "c_initialized c" "st_entry h (c_store c) k = Some e" "entry_typed e'" "entry_size e' \<le> entry_size e"
  defines "c' \<equiv> c\<lparr>c_store := st_put h k e' (c_store c), c_size := c_size c - of_nat (entry_size e - entry_size e')\<rparr>"
  shows "cache_ok h c' \<and> c_initialized c' \<and> snapped h c' = snapped h c \<and> hot h c' = (hot h c)(k := value_at Value_nano (e_values e'))"
  unfolding c'_def
proof (rule shrink_store [OF assms(1,2)])
  have st: "st_ok h (c_store c)" "store_typed h (c_store c)" using assms(1,2) by (simp_all add: cache_ok_def)
  note ep = cache_store.entry_put [OF st(1), of k e']
  show "st_ok h (st_put h k e' (c_store c))" by (rule cache_store.put_ok [OF st(1)])
  show "store_typed h (st_put h k e' (c_store c))" using st(2) assms(4) unfolding store_typed_def ep by simp
  show "st_bytes (st_put h k e' (c_store c)) + (entry_size e - entry_size e') \<le> st_bytes (c_store c)"
    using cache_store.bytes_put [OF st(1), of k e'] assms(3,5) by (simp add: weight_def)
  show "value_at Value_nano (values_in (st_entry h (st_put h k e' (c_store c)) j)) =
      (if j = k then value_at Value_nano (e_values e') else hot h c j)" for j
    unfolding ep by (simp add: hot_def values_in_def)
qed

lemma delete_key_spec:
  assumes "cache_ok h c" "c_initialized c"
  shows "\<exists>c'. delete_key h mn mx k c = Inr c' \<and> cache_ok h c' \<and> c_initialized c' \<and> snapped h c' = snapped h c \<and>
    hot h c' = (hot h c)(k := outside mn mx (hot h c k))"
proof (cases "st_entry h (c_store c) k")
  case None
  have "outside mn mx (hot h c k) = hot h c k" using None by (simp add: hot_def values_in_def outside_def fun_eq_iff)
  then show ?thesis using assms None by (simp add: delete_key_def)
next
  case (Some e)
  let ?gone = "c\<lparr>c_store := st_remove h k (c_store c), c_size := c_size c - of_nat (entry_size e + length k)\<rparr>"
  show ?thesis
  proof (cases "mn = MinInt64 \<and> mx = MaxInt64")
    case True
    have "outside mn mx (hot h c k) = Map.empty" using True by (simp add: hot_def outside_all)
    moreover have "delete_key h mn mx k c = Inr ?gone" using True Some by (simp add: delete_key_def Let_def decreaseSize_eq)
    ultimately show ?thesis using remove_key [OF assms Some] by auto
  next
    case False
    obtain e' where e': "entry_filter mn mx e = Inr e'" by (simp add: entry_filter_eq)
    note f = entry_filter_spec [OF e']
    have vk: "value_at Value_nano (e_values e') = outside mn mx (hot h c k)" using f(1) Some by (simp add: hot_def values_in_def)
    note run = delete_key_def [of h mn mx k c, unfolded Some option.case Let_def if_not_P [OF False] e' rbind_simps]
    show ?thesis
    proof (cases "entry_count e' = 0")
      case True
      then have "outside mn mx (hot h c k) = Map.empty" using vk by (simp add: entry_count_def fun_eq_iff)
      moreover have "delete_key h mn mx k c = Inr ?gone" using True run by (simp add: decreaseSize_eq)
      ultimately show ?thesis using remove_key [OF assms Some] by auto
    next
      case kept: False
      have "entry_typed e'"
        using assms Some by (intro entry_filter_typed [OF _ e' kept]) (auto simp: cache_ok_def store_typed_def)
      from replace_entry [OF assms Some this f(2)] show ?thesis
        using kept run f(2) vk by (simp add: decreaseSize_eq of_nat_diff)
    qed
  qed
qed

lemma delete_loop_spec:
  assumes "cache_ok h c" "c_initialized c"
  shows "\<exists>c'. delete_loop h keys mn mx c = Inr c' \<and> cache_ok h c' \<and> snapped h c' = snapped h c \<and>
    (\<forall>k. hot h c' k = (if k \<in> set keys then outside mn mx (hot h c k) else hot h c k))"
  using assms
proof (induction keys arbitrary: c)
  case (Cons k keys)
  obtain c1 where c1: "delete_key h mn mx k c = Inr c1" "cache_ok h c1" "c_initialized c1" "snapped h c1 = snapped h c"
    "hot h c1 = (hot h c)(k := outside mn mx (hot h c k))" using delete_key_spec [OF Cons.prems] by blast
  have "outside mn mx (outside mn mx m) = outside mn mx m" for m by (simp add: outside_def fun_eq_iff)
  then show ?case using Cons.IH [OF c1(2,3)] c1(1,4,5) by auto
qed simp

subsection \<open>Runs\<close>

datatype cache_op =
    CWrite int "(key \<times> Value list) list"
  | CSnapshot
  | CDeduplicate
  | CClear bool
  | CValues key
  | CDelete "key list" int int
  | CFree
  | CSetMaxSize u64

text \<open>
  One operation: whether it wrote everything it was given, and the cache after it. There is no step for a
  write that is not \<open>writable\<close> and for a panic.
\<close>

fun c_step :: "(key \<Rightarrow> u64) \<Rightarrow> cache_op \<Rightarrow> Cache \<Rightarrow> (bool \<times> Cache) option" where
  "c_step h (CWrite now vals) c =
     (if writable vals c then (case WriteMulti h now vals c of (err, c) \<Rightarrow> Some (err = None, c)) else None)"
| "c_step h CSnapshot c = Some (True, snd (Snapshot c))"
| "c_step h CDeduplicate c = Some (True, snapshot_Deduplicate c)"
| "c_step h (CClear success) c = (case ClearSnapshot success c of Inr c \<Rightarrow> Some (True, c) | Inl _ \<Rightarrow> None)"
| "c_step h (CValues k) c = Some (True, snd (c_Values h k c))"
| "c_step h (CDelete keys mn mx) c = (case c_DeleteRange h keys mn mx c of Inr c \<Rightarrow> Some (True, c) | Inl _ \<Rightarrow> None)"
| "c_step h CFree c = Some (True, c_Free c)"
| "c_step h (CSetMaxSize sz) c = Some (True, c_SetMaxSize sz c)"

fun c_run :: "(key \<Rightarrow> u64) \<Rightarrow> cache_op list \<Rightarrow> Cache \<Rightarrow> (bool \<times> Cache) option" where
  "c_run h [] c = Some (True, c)"
| "c_run h (op # ops) c =
     (case c_step h op c of
        None \<Rightarrow> None
      | Some (b, c) \<Rightarrow> (case c_run h ops c of None \<Rightarrow> None | Some (b', c) \<Rightarrow> Some (b \<and> b', c)))"

lemma NewCache_ok: "cache_ok h (NewCache mx)" "visible h (NewCache mx) = (\<lambda>_. Map.empty)"
  by (simp_all add: NewCache_def cache_ok_def store_typed_def visible_def hot_def snapped_def snapshot_entry_def values_in_def fun_eq_iff)

lemma Free_ok: "cache_ok h c \<Longrightarrow> cache_ok h (c_Free c)"
  by (simp add: c_Free_def cache_ok_def store_typed_def)

lemma DeleteRange_spec:
  assumes "cache_ok h c"
  shows "\<exists>c'. c_DeleteRange h keys mn mx c = Inr c' \<and> cache_ok h c' \<and> snapped h c' = snapped h c \<and>
    (\<forall>k. hot h c' k = (if k \<in> set keys then outside mn mx (hot h c k) else hot h c k))"
  using delete_loop_spec [OF c_init_ok(1) [OF assms] c_init_fields(6), of keys mn mx, unfolded c_init_ok(3,4) [OF assms]]
  unfolding c_DeleteRange_def .

lemma c_step_ok:
  assumes "cache_ok h c" "c_step h op c = Some (b, c')"
  shows "cache_ok h c'"
proof (cases op)
  case (CWrite now vals)
  then show ?thesis using assms WriteMulti_spec [OF assms(1)] by (auto split: if_splits prod.splits)
next
  case CSnapshot
  then show ?thesis using assms Snapshot_spec [OF assms(1), of "fst (Snapshot c)" "snd (Snapshot c)"] by auto
next
  case (CClear success)
  then show ?thesis using assms ClearSnapshot_spec [OF assms(1)] by (auto split: sum.splits)
next
  case (CValues k)
  then show ?thesis using assms Values_spec [OF assms(1), of k "fst (c_Values h k c)" "snd (c_Values h k c)"] by auto
next
  case (CDelete keys mn mx)
  then show ?thesis using assms DeleteRange_spec [OF assms(1), of keys mn mx] by (auto split: sum.splits)
next
  case (CSetMaxSize sz)
  then show ?thesis using assms by (auto simp: c_SetMaxSize_def cache_ok_def)
qed (use assms snapshot_Deduplicate_spec(1) Free_ok in auto)

lemma c_run_ok: "cache_ok h c \<Longrightarrow> c_run h ops c = Some (b, c') \<Longrightarrow> cache_ok h c'"
proof (induction ops arbitrary: c b)
  case (Cons op ops)
  then show ?case by (auto split: option.splits prod.splits dest: c_step_ok)
qed simp

text \<open>The operations that neither take values out of the cache nor forget them, and what they were given.\<close>

fun keeps :: "cache_op \<Rightarrow> bool" where
  "keeps (CClear success) = (\<not> success)"
| "keeps (CDelete keys mn mx) = False"
| "keeps CFree = False"
| "keeps _ = True"

fun journal :: "cache_op list \<Rightarrow> key \<Rightarrow> Value list" where
  "journal [] k = []"
| "journal (CWrite now vals # ops) k = (case map_of vals k of Some v \<Rightarrow> v | None \<Rightarrow> []) @ journal ops k"
| "journal (_ # ops) k = journal ops k"

lemma c_step_visible:
  assumes "cache_ok h c" "c_step h op c = Some (True, c')" "keeps op"
  shows "visible h c' k = visible h c k ++ value_at Value_nano (journal [op] k)"
proof (cases op)
  case (CWrite now vals)
  then obtain err where w: "WriteMulti h now vals c = (err, c')" "writable vals c" "err = None"
    using assms(2) by (auto split: if_splits prod.splits)
  have "snapped h c' = snapped h c" "write_spec vals False (hot h c) (hot h c')"
    using WriteMulti_spec [OF assms(1) w(2,1)] w(3) by auto
  moreover have "hot h c' k = hot h c k ++ value_at Value_nano (case map_of vals k of Some v \<Rightarrow> v | None \<Rightarrow> [])"
    using spec [OF \<open>write_spec vals False (hot h c) (hot h c')\<close> [unfolded write_spec_def], of k] by (cases "map_of vals k") simp_all
  ultimately show ?thesis using CWrite by (simp add: visible_def)
next
  case CSnapshot
  then show ?thesis using assms Snapshot_spec [OF assms(1), of "fst (Snapshot c)" "snd (Snapshot c)"] by auto
next
  case (CClear success)
  then show ?thesis using assms ClearSnapshot_spec [OF assms(1), of False] by (auto simp: visible_def split: sum.splits)
next
  case (CValues j)
  then show ?thesis using assms Values_spec [OF assms(1), of j "fst (c_Values h j c)" "snd (c_Values h j c)"] by (auto simp: visible_def)
next
  case CDeduplicate
  then show ?thesis using assms snapshot_Deduplicate_spec [OF assms(1)] by (auto simp: visible_def)
next
  case (CSetMaxSize sz)
  then show ?thesis using assms by (auto simp: c_SetMaxSize_def visible_def hot_def snapped_def snapshot_entry_def)
qed (use assms in auto)

lemma journal_Cons: "journal (op # ops) k = journal [op] k @ journal ops k"
  by (cases op) simp_all

lemma c_run_visible:
  assumes "cache_ok h c" "c_run h ops c = Some (True, c')" "list_all keeps ops"
  shows "visible h c' k = visible h c k ++ value_at Value_nano (journal ops k)"
  using assms
proof (induction ops arbitrary: c)
  case (Cons op ops)
  obtain b c1 where s: "c_step h op c = Some (b, c1)" using Cons.prems(2) by (auto split: option.splits)
  obtain b' where r: "c_run h ops c1 = Some (b', c')" "b \<and> b'" using Cons.prems(2) s by (auto split: option.splits)
  have "visible h c' k = visible h c1 k ++ value_at Value_nano (journal ops k)"
    using r Cons.prems(3) c_step_ok [OF Cons.prems(1) s] by (intro Cons.IH) simp_all
  also have "visible h c1 k = visible h c k ++ value_at Value_nano (journal [op] k)"
    using s r(2) Cons.prems by (intro c_step_visible) simp_all
  finally show ?case unfolding journal_Cons [of op ops] value_at_map_add by simp
qed simp

subsection \<open>Properties\<close>

lemma write_loop_snapshot: "write_loop h vals werr c = (werr', c') \<Longrightarrow> c_snapshotSize c' = c_snapshotSize c"
proof (induction h vals werr c rule: write_loop.induct)
  case (2 h k v rest werr c)
  then show ?case by (auto simp: Let_def decreaseSize_def increaseSize_def split: prod.splits if_splits)
qed simp

lemma Values_journal:
  assumes "cache_ok h c" "visible h c k = value_at Value_nano a"
  shows "fst (c_Values h k c) = vs_Deduplicate Value_nano a"
proof -
  note s = Values_spec [OF assms(1) surjective_pairing, of k]
  have "increasing Value_nano (fst (c_Values h k c))" "value_at Value_nano (fst (c_Values h k c)) = visible h c k"
    using s by blast+
  then show ?thesis
    using assms(2) by (intro increasing_ext [OF _ Deduplicate_increasing]) (simp_all add: Deduplicate_value_at)
qed

text \<open>
  C2. Reads see writes: after any sequence of successful writes, snapshots that are started, tried again or
  fail, deduplications and reads, in any order, reading a key gives all values ever written to it,
  sorted, and at each timestamp the one written last.
\<close>

theorem reads_see_writes:
  assumes "c_run h ops (NewCache mx) = Some (True, c)" "list_all keeps ops"
  shows "fst (c_Values h k c) = vs_Deduplicate Value_nano (journal ops k)"
  using c_run_ok [OF NewCache_ok(1) assms(1)] c_run_visible [OF NewCache_ok(1) assms, of k]
  by (intro Values_journal) (simp_all add: NewCache_ok(2))

definition sample_cache_ops :: "cache_op list" where
  "sample_cache_ops =
     [CWrite 0 [([97], [IntegerValue 5 1, IntegerValue 3 2])], CSnapshot, CWrite 1 [([97], [IntegerValue 3 9])],
      CDeduplicate, CClear False, CSnapshot]"

theorem reads_see_writes_witness:
  "\<exists>c. c_run (\<lambda>_. 7) sample_cache_ops (NewCache 0) = Some (True, c) \<and>
     fst (c_Values (\<lambda>_. 7) [97] c) = [IntegerValue 3 9, IntegerValue 5 1]"
proof -
  let ?r = "c_run (\<lambda>_. 7) sample_cache_ops (NewCache 0)"
  have "(case ?r of Some (b, c) \<Rightarrow> b | None \<Rightarrow> False)" by code_simp
  then obtain c where c: "?r = Some (True, c)" by (auto split: option.splits)
  have "list_all keeps sample_cache_ops" by (simp add: sample_cache_ops_def)
  moreover have "vs_Deduplicate Value_nano (journal sample_cache_ops [97]) = [IntegerValue 3 9, IntegerValue 5 1]" by code_simp
  ultimately show ?thesis using c reads_see_writes [OF c, of "[97]"] by auto
qed

text \<open>
  C34. The accounting: whatever was called before, the accounted size covers the keys and values in the
  store, no sum wraps around, and a write that is accepted under a limit leaves the cache at most the
  lengths of its keys above the limit.
\<close>

theorem cache_within_limit:
  assumes "c_run h ops (NewCache mx) = Some (b, c)" "writable vals c" "c_maxSize c > 0" "WriteMulti h now vals c = (None, c')"
  shows "st_bytes (c_store c') \<le> unat (c_size c') \<and> unat (c_Size c') = unat (c_size c') + unat (c_snapshotSize c') \<and>
    unat (c_Size c') \<le> unat (c_maxSize c) + key_bytes vals"
proof -
  have ok: "cache_ok h c" by (rule c_run_ok [OF NewCache_ok(1) assms(1)])
  have w: "cache_ok h c'" "unat (c_size c') \<le> unat (c_size c) + batch_bytes vals + key_bytes vals"
    using WriteMulti_spec [OF ok assms(2,4)] by blast+
  have sum: "unat (x + y) = unat x + unat y" if "unat x + unat y < 2 ^ 64" for x y :: u64
    using unat_add_u64 [of x "unat y"] that by simp
  have Size: "unat (c_Size c') = unat (c_size c') + unat (c_snapshotSize c')"
    unfolding c_Size_def using w(1) by (intro sum) (simp add: cache_ok_def)
  have room: "unat (c_size c) + unat (c_snapshotSize c) + batch_bytes vals + key_bytes vals < 2 ^ 64" by (rule writable_room [OF assms(2)])
  have s0: "unat (c_size c + c_snapshotSize c) = unat (c_size c) + unat (c_snapshotSize c)" using room by (intro sum) linarith
  have n: "unat (c_size c + c_snapshotSize c + of_nat (batch_bytes vals)) = unat (c_size c) + unat (c_snapshotSize c) + batch_bytes vals"
    using room unfolding s0 [symmetric] by (intro unat_add_u64) linarith
  have below: "\<not> c_size c + c_snapshotSize c + of_nat (batch_bytes vals) > c_maxSize c"
    and snap: "c_snapshotSize c' = c_snapshotSize c"
    using assms(3,4) write_loop_snapshot [of h vals None] by (auto simp: WriteMulti_def Let_def added_size c_Size_def increaseSize_def split: if_splits prod.splits)
  have "unat (c_size c) + unat (c_snapshotSize c) + batch_bytes vals \<le> unat (c_maxSize c)"
    using below unfolding not_less word_le_nat_alt n .
  then show ?thesis using w Size snap by (simp add: cache_ok_def)
qed

theorem cache_within_limit_witness:
  "\<exists>c c'. c_run (\<lambda>_. 7) sample_cache_ops (NewCache 100) = Some (True, c) \<and>
     WriteMulti (\<lambda>_. 7) 2 [([98, 99], [IntegerValue 1 1])] c = (None, c') \<and> unat (c_Size c') \<le> 102"
proof -
  let ?w = "[([98, 99], [IntegerValue 1 1])] :: (key \<times> Value list) list"
  let ?r = "c_run (\<lambda>_. 7) sample_cache_ops (NewCache 100)"
  have "(case ?r of Some (b, c) \<Rightarrow> b \<and> writable ?w c \<and> c_maxSize c = 100 \<and> fst (WriteMulti (\<lambda>_. 7) 2 ?w c) = None | None \<Rightarrow> False)"
    by code_simp
  then obtain c where c: "?r = Some (True, c)" "writable ?w c" "c_maxSize c = 100" "fst (WriteMulti (\<lambda>_. 7) 2 ?w c) = None"
    by (auto split: option.splits)
  then obtain c' where c': "WriteMulti (\<lambda>_. 7) 2 ?w c = (None, c')" by (metis prod.collapse)
  have "key_bytes ?w = 2" by (simp add: key_bytes_def)
  then show ?thesis using cache_within_limit [OF c(1,2) _ c'] c(1,3) c' by auto
qed




end
