(* ===== verification/WalEntries.thy ===== *)
theory WalEntries
  imports CacheStore GoBinary
begin

text \<open>
  The entries of the write-ahead log, \<open>src/backend/tsdb/engine/tsm1/wal.go\<close>: writes, deletes and deletes
  of a range of time, their encoding and their decoding.

  The map of values of a write is the list of its keys and values in the order in which the encoder ranges
  over it. The size that an entry caches in \<open>sz\<close> is the computed one, since entries are not changed
  after they are created. An \<open>int\<close> has 64 bits and lengths of slices are below \<open>2 ^ 63\<close>, so sums of lengths
  and of decoded 32-bit counts do not wrap and are natural numbers here.
\<close>

unbundle bit_operations_syntax

subsection \<open>Big-endian words of 16 and 32 bits\<close>

definition put_be_u16 :: "16 word \<Rightarrow> u8 list" where
  "put_be_u16 v = [ucast (drop_bit 8 v), ucast v]"

definition put_be_u32 :: "32 word \<Rightarrow> u8 list" where
  "put_be_u32 v = [ucast (drop_bit 24 v), ucast (drop_bit 16 v), ucast (drop_bit 8 v), ucast v]"

definition be_u16 :: "u8 list \<Rightarrow> 16 word" where
  "be_u16 bs = fold (\<lambda>b acc. push_bit 8 acc OR ucast b) (take 2 bs) 0"

definition be_u32 :: "u8 list \<Rightarrow> 32 word" where
  "be_u32 bs = fold (\<lambda>b acc. push_bit 8 acc OR ucast b) (take 4 bs) 0"

text \<open>\<open>b[lo:hi]\<close> and the reads of words at an index, which panic out of range.\<close>

definition bytes_at :: "nat \<Rightarrow> nat \<Rightarrow> u8 list \<Rightarrow> u8 list res" where
  "bytes_at lo hi b = (if lo \<le> hi \<and> hi \<le> length b then Inr (take (hi - lo) (drop lo b)) else Inl Panic)"

definition read_u64 :: "nat \<Rightarrow> u8 list \<Rightarrow> u64 res" where
  "read_u64 i b = rbind (bytes_at i (i + 8) b) (\<lambda>x. Inr (be_u64 x))"

definition read_u32 :: "nat \<Rightarrow> u8 list \<Rightarrow> nat res" where
  "read_u32 i b = rbind (bytes_at i (i + 4) b) (\<lambda>x. Inr (unat (be_u32 x)))"

definition read_u16 :: "nat \<Rightarrow> u8 list \<Rightarrow> nat res" where
  "read_u16 i b = rbind (bytes_at i (i + 2) b) (\<lambda>x. Inr (unat (be_u16 x)))"

definition read_u8 :: "nat \<Rightarrow> u8 list \<Rightarrow> u8 res" where
  "read_u8 i b = (if i < length b then Inr (b ! i) else Inl Panic)"

subsection \<open>Writes\<close>

definition float64EntryType :: u8 where "float64EntryType = 1"
definition integerEntryType :: u8 where "integerEntryType = 2"
definition booleanEntryType :: u8 where "booleanEntryType = 3"
definition stringEntryType :: u8 where "stringEntryType = 4"
definition unsignedEntryType :: u8 where "unsignedEntryType = 5"

lemmas entry_types =
  float64EntryType_def integerEntryType_def booleanEntryType_def stringEntryType_def unsignedEntryType_def

abbreviation ErrWALCorrupt :: go_err where "ErrWALCorrupt \<equiv> Err ''corrupted WAL entry''"

type_synonym write_entry = "(key \<times> Value list) list"

fun string_sizes :: "Value list \<Rightarrow> nat option" where
  "string_sizes [] = Some 0"
| "string_sizes (StringValue t s # v) = map_option (\<lambda>n. 4 + length s + n) (string_sizes v)"
| "string_sizes (_ # v) = None"

fun values_size :: "Value list \<Rightarrow> nat option" where
  "values_size [] = None"
| "values_size (FloatValue t x # v) = Some (8 * (length v + 1))"
| "values_size (IntegerValue t x # v) = Some (8 * (length v + 1))"
| "values_size (UnsignedValue t x # v) = Some (8 * (length v + 1))"
| "values_size (BooleanValue t x # v) = Some (length v + 1)"
| "values_size (StringValue t x # v) = string_sizes (StringValue t x # v)"
| "values_size (EmptyValue # v) = None"

fun write_size_loop :: "write_entry \<Rightarrow> nat \<Rightarrow> nat" where
  "write_size_loop [] encLen = encLen"
| "write_size_loop ((k, v) # w) encLen =
     (case values_size v of
        None \<Rightarrow> 0
      | Some n \<Rightarrow> write_size_loop w (encLen + length k + 8 * length v + n))"

definition write_MarshalSize :: "write_entry \<Rightarrow> nat" where
  "write_MarshalSize w = write_size_loop w (7 * length w)"

fun entry_type :: "Value list \<Rightarrow> u8 res" where
  "entry_type [] = Inl Panic"
| "entry_type (FloatValue t x # v) = Inr float64EntryType"
| "entry_type (IntegerValue t x # v) = Inr integerEntryType"
| "entry_type (UnsignedValue t x # v) = Inr unsignedEntryType"
| "entry_type (BooleanValue t x # v) = Inr booleanEntryType"
| "entry_type (StringValue t x # v) = Inr stringEntryType"
| "entry_type (EmptyValue # v) = Inl (Err ''unsupported value type'')"

text \<open>The bytes of one value behind its time, or the error of a value of another type than the first one.\<close>

definition if_type :: "u8 \<Rightarrow> u8 \<Rightarrow> u8 list list \<Rightarrow> u8 list list res" where
  "if_type curType t pieces =
     (if curType \<noteq> t then Inl (Err ''incorrect value found in slice'') else Inr pieces)"

fun encode_value :: "u8 \<Rightarrow> Value \<Rightarrow> u8 list list res" where
  "encode_value curType (FloatValue t x) = if_type curType float64EntryType [put_be_u64 x]"
| "encode_value curType (IntegerValue t x) = if_type curType integerEntryType [put_be_u64 x]"
| "encode_value curType (UnsignedValue t x) = if_type curType unsignedEntryType [put_be_u64 x]"
| "encode_value curType (BooleanValue t x) = if_type curType booleanEntryType [[if x then 1 else 0]]"
| "encode_value curType (StringValue t s) =
     if_type curType stringEntryType [put_be_u32 (of_nat (length s)), s]"
| "encode_value curType EmptyValue = Inl (Err ''unsupported value found in slice'')"

fun encode_values :: "u8 \<Rightarrow> Value list \<Rightarrow> u8 list \<times> nat \<Rightarrow> (u8 list \<times> nat) res" where
  "encode_values curType [] (dst, n) = Inr (dst, n)"
| "encode_values curType (vv # v) (dst, n) =
     rbind (blits n [put_be_u64 (UnixNano vv)] dst) (\<lambda>(dst, n).
     rbind (encode_value curType vv) (\<lambda>pieces.
     rbind (blits n pieces dst) (\<lambda>(dst, n). encode_values curType v (dst, n))))"

fun encode_entries :: "write_entry \<Rightarrow> u8 list \<times> nat \<Rightarrow> (u8 list \<times> nat) res" where
  "encode_entries [] (dst, n) = Inr (dst, n)"
| "encode_entries ((k, v) # w) (dst, n) =
     rbind (entry_type v) (\<lambda>curType.
     rbind (blits n [[curType], put_be_u16 (of_nat (length k)), k, put_be_u32 (of_nat (length v))] dst) (\<lambda>(dst, n).
     rbind (encode_values curType v (dst, n)) (\<lambda>(dst, n). encode_entries w (dst, n))))"

definition write_Encode :: "write_entry \<Rightarrow> u8 list \<Rightarrow> u8 list res" where
  "write_Encode w dst =
     (let encLen = write_MarshalSize w;
          dst = (if length dst < encLen then replicate encLen 0 else take encLen dst)
      in rbind (encode_entries w (dst, 0)) (\<lambda>(dst, n). Inr (take n dst)))"

definition write_MarshalBinary :: "write_entry \<Rightarrow> u8 list res" where
  "write_MarshalBinary w = write_Encode w (replicate (write_MarshalSize w) 0)"

text \<open>Decoding. The branches for floats, integers and unsigned integers differ in the constructor only.\<close>

fun read_words :: "(i64 \<Rightarrow> u64 \<Rightarrow> Value) \<Rightarrow> nat \<Rightarrow> u8 list \<Rightarrow> nat \<Rightarrow> (Value list \<times> nat) res" where
  "read_words mk 0 b i = Inr ([], i)"
| "read_words mk (Suc n) b i =
     rbind (read_u64 i b) (\<lambda>un.
     rbind (read_u64 (i + 8) b) (\<lambda>v.
     rbind (read_words mk n b (i + 16)) (\<lambda>(vs, i). Inr (mk un v # vs, i))))"

fun read_booleans :: "nat \<Rightarrow> u8 list \<Rightarrow> nat \<Rightarrow> (Value list \<times> nat) res" where
  "read_booleans 0 b i = Inr ([], i)"
| "read_booleans (Suc n) b i =
     rbind (read_u64 i b) (\<lambda>un.
     rbind (read_u8 (i + 8) b) (\<lambda>v.
     rbind (read_booleans n b (i + 9)) (\<lambda>(vs, i). Inr (BooleanValue un (v = 1) # vs, i))))"

fun read_strings :: "nat \<Rightarrow> u8 list \<Rightarrow> nat \<Rightarrow> (Value list \<times> nat) res" where
  "read_strings 0 b i = Inr ([], i)"
| "read_strings (Suc n) b i =
     (if i + 12 > length b then Inl ErrWALCorrupt
      else rbind (read_u64 i b) (\<lambda>un.
           rbind (read_u32 (i + 8) b) (\<lambda>len.
           if i + 8 + len > length b then Inl ErrWALCorrupt
           else if i + 12 + len > length b then Inl ErrWALCorrupt
           else rbind (bytes_at (i + 12) (i + 12 + len) b) (\<lambda>s.
                rbind (read_strings n b (i + 12 + len)) (\<lambda>(vs, i). Inr (StringValue un s # vs, i))))))"

definition read_values :: "u8 \<Rightarrow> nat \<Rightarrow> u8 list \<Rightarrow> nat \<Rightarrow> (Value list \<times> nat) res" where
  "read_values typ nvals b i =
     (if typ = float64EntryType then
        (if i + 16 * nvals > length b then Inl ErrWALCorrupt else read_words FloatValue nvals b i)
      else if typ = integerEntryType then
        (if i + 16 * nvals > length b then Inl ErrWALCorrupt else read_words IntegerValue nvals b i)
      else if typ = unsignedEntryType then
        (if i + 16 * nvals > length b then Inl ErrWALCorrupt else read_words UnsignedValue nvals b i)
      else if typ = booleanEntryType then
        (if i + 9 * nvals > length b then Inl ErrWALCorrupt else read_booleans nvals b i)
      else if typ = stringEntryType then read_strings nvals b i
      else Inl (Err ''unsupported value type''))"

text \<open>One round of the loop of \<open>UnmarshalBinary\<close>: the key, its values and the next index.\<close>

definition unmarshal_key :: "u8 list \<Rightarrow> nat \<Rightarrow> (key \<times> Value list \<times> nat) res" where
  "unmarshal_key b i =
     rbind (read_u8 i b) (\<lambda>typ.
     if i + 3 > length b then Inl ErrWALCorrupt
     else rbind (read_u16 (i + 1) b) (\<lambda>len.
          if i + 3 + len > length b then Inl ErrWALCorrupt
          else rbind (bytes_at (i + 3) (i + 3 + len) b) (\<lambda>k.
               if i + 7 + len > length b then Inl ErrWALCorrupt
               else rbind (read_u32 (i + 3 + len) b) (\<lambda>nvals.
                    if nvals \<le> 0 \<or> nvals > length b then Inl ErrWALCorrupt
                    else rbind (read_values typ nvals b (i + 7 + len)) (\<lambda>(vs, i). Inr (k, vs, i))))))"

subsection \<open>Reading stays in range\<close>

lemma read_ok:
  "i + 8 \<le> length b \<Longrightarrow> read_u64 i b = Inr (be_u64 (drop i b))"
  "i + 4 \<le> length b \<Longrightarrow> read_u32 i b = Inr (unat (be_u32 (drop i b)))"
  "i + 2 \<le> length b \<Longrightarrow> read_u16 i b = Inr (unat (be_u16 (drop i b)))"
  "i < length b \<Longrightarrow> read_u8 i b = Inr (b ! i)"
  "lo \<le> hi \<Longrightarrow> hi \<le> length b \<Longrightarrow> bytes_at lo hi b = Inr (take (hi - lo) (drop lo b))"
  by (simp_all add: read_u64_def read_u32_def read_u16_def read_u8_def bytes_at_def be_u64_def be_u32_def be_u16_def)

lemma read_words_ok:
  "i + 16 * n \<le> length b \<Longrightarrow>
   \<exists>vs. read_words mk n b i = Inr (vs, i + 16 * n) \<and> length vs = n \<and> (\<forall>v\<in>set vs. \<exists>t x. v = mk t x)"
proof (induction n arbitrary: i)
  case (Suc n)
  then have "i + 16 + 16 * n \<le> length b" by simp
  from Suc.IH [OF this] obtain vs where vs: "read_words mk n b (i + 16) = Inr (vs, i + 16 + 16 * n)"
    "length vs = n" "\<forall>v\<in>set vs. \<exists>t x. v = mk t x" by blast
  from vs(2,3) Suc.prems show ?case by (simp add: read_ok vs(1)) blast
qed simp

lemma read_booleans_ok:
  "i + 9 * n \<le> length b \<Longrightarrow>
   \<exists>vs. read_booleans n b i = Inr (vs, i + 9 * n) \<and> length vs = n \<and> (\<forall>v\<in>set vs. \<exists>t x. v = BooleanValue t x)"
proof (induction n arbitrary: i)
  case (Suc n)
  then have "i + 9 + 9 * n \<le> length b" by simp
  from Suc.IH [OF this] Suc.prems show ?case by (auto simp: read_ok)
qed simp

lemma read_strings_ok:
  "i \<le> length b \<Longrightarrow> read_strings n b i = Inl ErrWALCorrupt \<or>
   (\<exists>vs j. read_strings n b i = Inr (vs, j) \<and> i \<le> j \<and> j \<le> length b \<and> length vs = n \<and>
      (\<forall>v\<in>set vs. \<exists>t x. v = StringValue t x))"
proof (induction n arbitrary: i)
  case (Suc n)
  show ?case
  proof (cases "i + 12 \<le> length b \<and> i + 12 + unat (be_u32 (drop (i + 8) b)) \<le> length b")
    case True
    then show ?thesis
      using Suc.IH [of "i + 12 + unat (be_u32 (drop (i + 8) b))"] by (auto simp: read_ok)
  qed (auto simp: read_ok)
qed simp

text \<open>Decoded values: as many as announced, of one type that can be stored.\<close>

definition one_type :: "Value list \<Rightarrow> bool" where
  "one_type v \<longleftrightarrow> v \<noteq> [] \<and> valueType (v ! 0) \<noteq> 0 \<and> list_all (\<lambda>x. valueType x = valueType (v ! 0)) v"

lemma one_type_by:
  assumes "length v = n" "0 < n" "\<forall>x\<in>set v. valueType x = t" "t \<noteq> 0"
  shows "one_type v"
proof -
  have "v ! 0 \<in> set v" using assms(1,2) by simp
  then show ?thesis using assms by (auto simp: one_type_def list_all_iff)
qed

lemma read_values_ok:
  assumes "i \<le> length b" "0 < n"
  shows "(\<exists>m. read_values typ n b i = Inl (Err m)) \<or>
    (\<exists>vs j. read_values typ n b i = Inr (vs, j) \<and> i \<le> j \<and> j \<le> length b \<and> length vs = n \<and> one_type vs)"
proof -
  have words: "\<exists>vs. read_words mk n b i = Inr (vs, i + 16 * n) \<and> length vs = n \<and> one_type vs"
    if "i + 16 * n \<le> length b" "\<And>t x. valueType (mk t x) = T" "T \<noteq> 0" for mk T
    using read_words_ok [OF that(1), of mk] one_type_by [OF _ assms(2), of _ T] that by fastforce
  have bools: "\<exists>vs. read_booleans n b i = Inr (vs, i + 9 * n) \<and> length vs = n \<and> one_type vs"
    if "i + 9 * n \<le> length b"
    using read_booleans_ok [OF that] one_type_by [OF _ assms(2), of _ 4] by fastforce
  have strs: "read_strings n b i = Inl ErrWALCorrupt \<or>
    (\<exists>vs j. read_strings n b i = Inr (vs, j) \<and> i \<le> j \<and> j \<le> length b \<and> length vs = n \<and> one_type vs)"
    using read_strings_ok [OF assms(1), of n] one_type_by [OF _ assms(2), of _ 3] by fastforce
  have word_case: "?thesis" if "read_values typ n b i =
      (if i + 16 * n > length b then Inl ErrWALCorrupt else read_words mk n b i)"
    "\<And>t x. valueType (mk t x) = T" "T \<noteq> 0" for mk T
    using words [OF _ that(2,3)] that(1) by (cases "i + 16 * n > length b") (fastforce simp: not_less)+
  consider "typ = float64EntryType" | "typ = integerEntryType" | "typ = unsignedEntryType"
    | "typ = booleanEntryType" | "typ = stringEntryType"
    | "typ \<notin> {float64EntryType, integerEntryType, unsignedEntryType, booleanEntryType, stringEntryType}"
    by blast
  then show ?thesis
  proof cases
    case 1 then show ?thesis by (intro word_case [of FloatValue 1]) (simp_all add: read_values_def)
  next
    case 2 then show ?thesis
      by (intro word_case [of IntegerValue 2]) (simp_all add: read_values_def entry_types)
  next
    case 3 then show ?thesis
      by (intro word_case [of UnsignedValue 5]) (simp_all add: read_values_def entry_types)
  next
    case 4 then show ?thesis using bools
      by (cases "i + 9 * n > length b") (fastforce simp: read_values_def entry_types not_less)+
  next
    case 5 then show ?thesis using strs by (auto simp: read_values_def entry_types)
  next
    case 6 then show ?thesis by (simp add: read_values_def)
  qed
qed

lemma unmarshal_key_ok:
  assumes "i < length b"
  shows "(\<exists>m. unmarshal_key b i = Inl (Err m)) \<or>
    (\<exists>k vs j. unmarshal_key b i = Inr (k, vs, j) \<and> i < j \<and> j \<le> length b \<and> one_type vs)"
proof -
  define l where "l = unat (be_u16 (drop (i + 1) b))"
  define n where "n = unat (be_u32 (drop (i + 3 + l) b))"
  have tag: "read_u8 i b = Inr (b ! i)" using assms by (rule read_ok)
  have len: "read_u16 (i + 1) b = Inr l" if "i + 3 \<le> length b"
    unfolding l_def by (rule read_ok) (use that in simp)
  have key: "bytes_at (i + 3) (i + 3 + l) b = Inr (take l (drop (i + 3) b))" if "i + 3 + l \<le> length b"
    using read_ok(5) [of "i + 3" "i + 3 + l" b] that by simp
  have cnt: "read_u32 (i + 3 + l) b = Inr n" if "i + 7 + l \<le> length b"
    unfolding n_def by (rule read_ok) (use that in simp)
  consider "i + 3 > length b" | "i + 3 \<le> length b" "i + 3 + l > length b"
    | "i + 3 + l \<le> length b" "i + 7 + l > length b" | "i + 7 + l \<le> length b" "n \<le> 0 \<or> n > length b"
    | "i + 7 + l \<le> length b" "0 < n" "n \<le> length b" by linarith
  then show ?thesis
  proof cases
    case 5
    from read_values_ok [OF 5(1,2), of "b ! i"] show ?thesis
      using 5 len key cnt by (auto simp: unmarshal_key_def tag)
  qed (use len key cnt in \<open>simp_all add: unmarshal_key_def tag\<close>)
qed

function unmarshal_loop :: "u8 list \<Rightarrow> nat \<Rightarrow> write_entry \<Rightarrow> write_entry res" where
  "unmarshal_loop b i w =
     (if i < length b then
        case unmarshal_key b i of
          Inl e \<Rightarrow> Inl e
        | Inr (k, vs, j) \<Rightarrow> unmarshal_loop b j (AList.update k vs w)
      else Inr w)"
  by pat_completeness auto
termination
proof (relation "measure (\<lambda>(b, i, w). length b - i)")
  fix b i and w :: write_entry and r k p vs j
  assume "i < length b" "unmarshal_key b i = Inr r" "(k, p) = r" "(vs, j) = p"
  then show "((b, j, AList.update k vs w), (b, i, w)) \<in> measure (\<lambda>(b, i, w). length b - i)"
    using unmarshal_key_ok [of i b] by auto
qed simp

declare unmarshal_loop.simps [simp del]

definition write_UnmarshalBinary :: "u8 list \<Rightarrow> write_entry res" where
  "write_UnmarshalBinary b = unmarshal_loop b 0 []"

subsection \<open>Deletes\<close>

text \<open>\<open>bytes.Split\<close> of the Go library at a separator of one byte.\<close>

fun bytes_Split :: "u8 \<Rightarrow> u8 list \<Rightarrow> u8 list list" where
  "bytes_Split sep [] = [[]]"
| "bytes_Split sep (x # xs) =
     (if x = sep then [] # bytes_Split sep xs
      else case bytes_Split sep xs of [] \<Rightarrow> [[x]] | k # ks \<Rightarrow> (x # k) # ks)"

definition delete_UnmarshalBinary :: "u8 list \<Rightarrow> key list" where
  "delete_UnmarshalBinary b = (if b = [] then [] else bytes_Split 10 b)"

definition delete_MarshalSize :: "key list \<Rightarrow> nat" where
  "delete_MarshalSize ks = length ks + sum_list (map length ks)"

text \<open>Without keys \<open>n - 1\<close> is negative and the slice expression panics.\<close>

definition delete_Encode :: "key list \<Rightarrow> u8 list \<Rightarrow> u8 list res" where
  "delete_Encode ks dst =
     (let sz = delete_MarshalSize ks;
          dst = (if length dst < sz then replicate sz 0 else dst)
      in rbind (blits 0 (concat (map (\<lambda>k. [k, [10]]) ks)) dst) (\<lambda>(dst, n).
           if n = 0 then Inl Panic else Inr (take (n - 1) dst)))"

definition delete_MarshalBinary :: "key list \<Rightarrow> u8 list res" where
  "delete_MarshalBinary ks = delete_Encode ks (replicate (delete_MarshalSize ks) 0)"

subsection \<open>Deletes of a range of time\<close>

record delete_range =
  dr_Keys :: "key list"
  dr_Min :: i64
  dr_Max :: i64

function range_keys_loop :: "u8 list \<Rightarrow> nat \<Rightarrow> key list \<Rightarrow> key list res" where
  "range_keys_loop b i ks =
     (if i < length b then
        if i + 4 > length b then Inl ErrWALCorrupt
        else case read_u32 i b of
               Inl e \<Rightarrow> Inl e
             | Inr sz \<Rightarrow>
                 if i + 4 + sz > length b then Inl ErrWALCorrupt
                 else case bytes_at (i + 4) (i + 4 + sz) b of
                        Inl e \<Rightarrow> Inl e
                      | Inr k \<Rightarrow> range_keys_loop b (i + 4 + sz) (ks @ [k])
      else Inr ks)"
  by pat_completeness auto
termination
  by (relation "measure (\<lambda>(b, i, ks). length b - i)") auto

declare range_keys_loop.simps [simp del]

definition range_UnmarshalBinary :: "u8 list \<Rightarrow> delete_range res" where
  "range_UnmarshalBinary b =
     (if length b < 16 then Inl ErrWALCorrupt
      else rbind (read_u64 0 b) (\<lambda>mn.
           rbind (read_u64 8 b) (\<lambda>mx.
           rbind (range_keys_loop b 16 []) (\<lambda>ks. Inr \<lparr>dr_Keys = ks, dr_Min = mn, dr_Max = mx\<rparr>))))"

definition range_MarshalSize :: "delete_range \<Rightarrow> nat" where
  "range_MarshalSize d = 16 + length (dr_Keys d) * 4 + sum_list (map length (dr_Keys d))"

definition range_Encode :: "delete_range \<Rightarrow> u8 list \<Rightarrow> u8 list res" where
  "range_Encode d b =
     (let sz = range_MarshalSize d;
          b = (if length b < sz then replicate sz 0 else b)
      in rbind (blits 0 ([put_be_u64 (dr_Min d), put_be_u64 (dr_Max d)] @
                   concat (map (\<lambda>k. [put_be_u32 (of_nat (length k)), k]) (dr_Keys d))) b)
           (\<lambda>(b, i). Inr (take i b)))"

definition range_MarshalBinary :: "delete_range \<Rightarrow> u8 list res" where
  "range_MarshalBinary d = range_Encode d (replicate (range_MarshalSize d) 0)"

subsection \<open>The entry interface\<close>

datatype WALEntry = WriteWALEntry write_entry | DeleteWALEntry "key list" | DeleteRangeWALEntry delete_range

definition WriteWALEntryType :: u8 where "WriteWALEntryType = 1"
definition DeleteWALEntryType :: u8 where "DeleteWALEntryType = 2"
definition DeleteRangeWALEntryType :: u8 where "DeleteRangeWALEntryType = 3"

fun entry_Type :: "WALEntry \<Rightarrow> u8" where
  "entry_Type (WriteWALEntry w) = WriteWALEntryType"
| "entry_Type (DeleteWALEntry ks) = DeleteWALEntryType"
| "entry_Type (DeleteRangeWALEntry d) = DeleteRangeWALEntryType"

fun entry_Encode :: "WALEntry \<Rightarrow> u8 list \<Rightarrow> u8 list res" where
  "entry_Encode (WriteWALEntry w) dst = write_Encode w dst"
| "entry_Encode (DeleteWALEntry ks) dst = delete_Encode ks dst"
| "entry_Encode (DeleteRangeWALEntry d) dst = range_Encode d dst"

fun entry_MarshalSize :: "WALEntry \<Rightarrow> nat" where
  "entry_MarshalSize (WriteWALEntry w) = write_MarshalSize w"
| "entry_MarshalSize (DeleteWALEntry ks) = delete_MarshalSize ks"
| "entry_MarshalSize (DeleteRangeWALEntry d) = range_MarshalSize d"

text \<open>The choice of the entry by its type and its \<open>UnmarshalBinary\<close>, as in \<open>WALSegmentReader.Next\<close>.\<close>

definition entry_Unmarshal :: "u8 \<Rightarrow> u8 list \<Rightarrow> WALEntry res" where
  "entry_Unmarshal t data =
     (if t = WriteWALEntryType then rbind (write_UnmarshalBinary data) (\<lambda>w. Inr (WriteWALEntry w))
      else if t = DeleteWALEntryType then Inr (DeleteWALEntry (delete_UnmarshalBinary data))
      else if t = DeleteRangeWALEntryType then rbind (range_UnmarshalBinary data) (\<lambda>d. Inr (DeleteRangeWALEntry d))
      else Inl (Err ''unknown wal entry type''))"

lemmas wal_types = WriteWALEntryType_def DeleteWALEntryType_def DeleteRangeWALEntryType_def

subsection \<open>Decoding arbitrary bytes\<close>

lemma unmarshal_loop_ok:
  "distinct (map fst w) \<Longrightarrow> list_all (\<lambda>(k, v). one_type v) w \<Longrightarrow>
   (\<exists>m. unmarshal_loop b i w = Inl (Err m)) \<or>
   (\<exists>w'. unmarshal_loop b i w = Inr w' \<and> distinct (map fst w') \<and> list_all (\<lambda>(k, v). one_type v) w')"
proof (induction b i w rule: unmarshal_loop.induct)
  case (1 b i w)
  show ?case
  proof (cases "i < length b")
    case True
    from unmarshal_key_ok [OF this] consider m where "unmarshal_key b i = Inl (Err m)"
      | k vs j where "unmarshal_key b i = Inr (k, vs, j)" "one_type vs" by blast
    then show ?thesis
    proof cases
      case 2
      have "list_all (\<lambda>(k, v). one_type v) (AList.update k vs w)"
        using "1.prems"(2) 2(2) by (induction w) auto
      then show ?thesis
        using "1.IH" [OF True 2(1) refl refl] 2(1) True "1.prems"(1)
        by (simp add: unmarshal_loop.simps [of b i] distinct_update)
    qed (simp add: unmarshal_loop.simps True)
  qed (use "1.prems" in \<open>simp add: unmarshal_loop.simps\<close>)
qed

lemma range_keys_loop_ok:
  "(\<exists>m. range_keys_loop b i ks = Inl (Err m)) \<or> (\<exists>ks'. range_keys_loop b i ks = Inr ks')"
proof (induction b i ks rule: range_keys_loop.induct)
  case (1 b i ks)
  show ?case
  proof (cases "i + 4 \<le> length b \<and> i + 4 + unat (be_u32 (drop i b)) \<le> length b")
    case True
    then show ?thesis
      using "1.IH" [of "unat (be_u32 (drop i b))"] by (subst (1 2) range_keys_loop.simps) (simp add: read_ok)
  next
    case False
    then show ?thesis
      by (cases "i + 4 \<le> length b") (simp_all add: range_keys_loop.simps read_ok)
  qed
qed

fun entry_typed_ok :: "WALEntry \<Rightarrow> bool" where
  "entry_typed_ok (WriteWALEntry w) \<longleftrightarrow> distinct (map fst w) \<and> list_all (\<lambda>(k, v). one_type v) w"
| "entry_typed_ok _ \<longleftrightarrow> True"

lemma entry_Unmarshal_ok:
  "(\<exists>m. entry_Unmarshal t b = Inl (Err m)) \<or> (\<exists>e. entry_Unmarshal t b = Inr e \<and> entry_typed_ok e)"
  using unmarshal_loop_ok [of "[]" b 0] range_keys_loop_ok [of b 16 "[]"]
  by (auto simp: entry_Unmarshal_def write_UnmarshalBinary_def range_UnmarshalBinary_def read_ok)

end
