(* ===== verification/WalCodec.thy ===== *)
theory WalCodec
  imports WalEntries
begin

text \<open>
  The codec of the write-ahead log entries is correct: the encoders of \<open>WalEntries\<close> write the bytes that
  the format describes (\<open>write_image\<close> and its companions), into any buffer, and the decoders read them back.
\<close>

unbundle bit_operations_syntax

subsection \<open>What is encoded\<close>

lemma length_put_be [simp]: "length (put_be_u16 x) = 2" "length (put_be_u32 y) = 4"
  by (simp_all add: put_be_u16_def put_be_u32_def)

lemma be_step_16: "push_bit 8 (drop_bit 8 v) OR ucast (ucast v :: u8) = (v :: 16 word)"
proof (rule bit_word_eqI)
  fix n :: nat
  assume "n < LENGTH(16)"
  then show "bit (push_bit 8 (drop_bit 8 v) OR ucast (ucast v :: u8)) n = bit v n"
    by (cases "8 \<le> n") (auto simp: bit_simps)
qed

lemma be_step_32:
  "push_bit 8 (drop_bit (k + 8) v) OR ucast (ucast (drop_bit k v) :: u8) = drop_bit k (v :: 32 word)"
proof (rule bit_word_eqI)
  fix n :: nat
  assume "n < LENGTH(32)"
  then show "bit (push_bit 8 (drop_bit (k + 8) v) OR ucast (ucast (drop_bit k v) :: u8)) n = bit (drop_bit k v) n"
    by (cases "8 \<le> n") (auto simp: bit_simps)
qed

lemma be_put_u16 [simp]: "be_u16 (put_be_u16 v @ r) = v"
proof -
  have "ucast (ucast (drop_bit 8 v) :: u8) = drop_bit 8 v"
    by (rule bit_word_eqI) (auto simp: bit_simps dest: bit_imp_le_length)
  then show ?thesis using be_step_16 [of v] by (simp add: be_u16_def put_be_u16_def)
qed

lemma be_put_u32 [simp]: "be_u32 (put_be_u32 v @ r) = v"
proof -
  have "ucast (ucast (drop_bit 24 v) :: u8) = drop_bit 24 v"
    by (rule bit_word_eqI) (auto simp: bit_simps dest: bit_imp_le_length)
  then show ?thesis using be_step_32 [of 16 v] be_step_32 [of 8 v] be_step_32 [of 0 v]
    by (simp add: be_u32_def put_be_u32_def)
qed

lemma unat_length_u16: "n < 2 ^ 16 \<Longrightarrow> unat (of_nat n :: 16 word) = n"
  by (simp add: unsigned_of_nat take_bit_nat_eq_self)

lemma unat_length_u32: "n < 2 ^ 32 \<Longrightarrow> unat (of_nat n :: 32 word) = n"
  by (simp add: unsigned_of_nat take_bit_nat_eq_self)

text \<open>The bytes of a value, of a key with its values, and of an entry.\<close>

fun payload :: "Value \<Rightarrow> u8 list list" where
  "payload (FloatValue t x) = [put_be_u64 x]"
| "payload (IntegerValue t x) = [put_be_u64 x]"
| "payload (UnsignedValue t x) = [put_be_u64 x]"
| "payload (BooleanValue t x) = [[if x then 1 else 0]]"
| "payload (StringValue t s) = [put_be_u32 (of_nat (length s)), s]"
| "payload EmptyValue = []"

definition value_image :: "Value \<Rightarrow> u8 list" where
  "value_image v = put_be_u64 (UnixNano v) @ concat (payload v)"

definition values_image :: "Value list \<Rightarrow> u8 list" where
  "values_image v = concat (map value_image v)"

fun type_tag :: "Value \<Rightarrow> u8" where
  "type_tag (FloatValue t x) = float64EntryType"
| "type_tag (IntegerValue t x) = integerEntryType"
| "type_tag (UnsignedValue t x) = unsignedEntryType"
| "type_tag (BooleanValue t x) = booleanEntryType"
| "type_tag (StringValue t s) = stringEntryType"
| "type_tag EmptyValue = 0"

definition key_image :: "key \<times> Value list \<Rightarrow> u8 list" where
  "key_image = (\<lambda>(k, v). [type_tag (v ! 0)] @ put_be_u16 (of_nat (length k)) @ k @ put_be_u32 (of_nat (length v)) @
     values_image v)"

definition write_image :: "write_entry \<Rightarrow> u8 list" where
  "write_image w = concat (map key_image w)"

lemma image_simps [simp]:
  "values_image [] = []" "values_image (x # v) = value_image x @ values_image v"
  "write_image [] = []" "write_image (e # w) = key_image e @ write_image w"
  by (simp_all add: values_image_def write_image_def)

lemma one_type_Cons:
  "one_type (x # v) \<longleftrightarrow> valueType x \<noteq> 0 \<and> list_all (\<lambda>y. valueType y = valueType x) v"
  by (simp add: one_type_def)

lemma string_sizes_image:
  "list_all (\<lambda>x. valueType x = 3) v \<Longrightarrow>
   map_option (\<lambda>n. 8 * length v + n) (string_sizes v) = Some (length (values_image v))"
proof (induction v)
  case (Cons x v)
  then show ?case by (cases x) (auto simp: value_image_def)
qed simp

lemma values_image_fixed:
  assumes "\<forall>x\<in>set v. length (value_image x) = m"
  shows "length (values_image v) = m * length v"
  using assms by (induction v) simp_all

lemma values_size_image:
  assumes "one_type v"
  shows "map_option (\<lambda>n. 8 * length v + n) (values_size v) = Some (length (values_image v))"
proof -
  obtain x vs where v: "v = x # vs" using assms by (auto simp: one_type_def neq_Nil_conv)
  have ty: "\<forall>y\<in>set v. valueType y = valueType x" "valueType x \<noteq> 0"
    using assms by (auto simp: v one_type_Cons list_all_iff)
  have len: "length (value_image y) = (if valueType x = 4 then 9 else 16)"
    if "y \<in> set v" "valueType x \<noteq> 3" for y
    using ty that by (cases y) (force simp: value_image_def)+
  show ?thesis
  proof (cases "valueType x = 3")
    case True
    then show ?thesis using string_sizes_image [of v] ty by (cases x) (simp_all add: v list_all_iff)
  next
    case False
    then have "length (values_image v) = (if valueType x = 4 then 9 else 16) * length v"
      using len by (intro values_image_fixed) blast
    then show ?thesis using False ty(2) by (cases x) (simp_all add: v)
  qed
qed

lemma write_size_loop_image:
  "list_all (\<lambda>(k, v). one_type v) w \<Longrightarrow>
   write_size_loop w (n + 7 * length w) = n + length (write_image w)"
proof (induction w arbitrary: n)
  case (Cons e w)
  obtain k v where e: "e = (k, v)" by (cases e)
  from values_size_image [of v] Cons.prems obtain m
    where m: "values_size v = Some m" "8 * length v + m = length (values_image v)" by (auto simp: e)
  have "write_size_loop w (n + 7 + length k + 8 * length v + m + 7 * length w) =
      n + 7 + length k + 8 * length v + m + length (write_image w)"
    using Cons by (intro Cons.IH) simp
  then show ?case using m by (simp add: e key_image_def ac_simps)
qed simp

lemma write_MarshalSize_image:
  "list_all (\<lambda>(k, v). one_type v) w \<Longrightarrow> write_MarshalSize w = length (write_image w)"
  using write_size_loop_image [of w 0] by (simp add: write_MarshalSize_def)

text \<open>Writing pieces one after the other is writing their concatenation.\<close>

definition put_at :: "u8 list \<Rightarrow> u8 list \<times> nat \<Rightarrow> u8 list \<times> nat" where
  "put_at xs = (\<lambda>(dst, n). (take n dst @ xs @ drop (n + length xs) dst, n + length xs))"

definition fits :: "u8 list \<Rightarrow> u8 list \<times> nat \<Rightarrow> bool" where
  "fits xs = (\<lambda>(dst, n). n + length xs \<le> length dst)"

lemma blits_put_at: "fits (concat ss) (dst, n) \<Longrightarrow> blits n ss dst = Inr (put_at (concat ss) (dst, n))"
  by (simp add: fits_def put_at_def blits_fit)

lemma put_at_append:
  assumes "fits (xs @ ys) p"
  shows "put_at ys (put_at xs p) = put_at (xs @ ys) p" "fits ys (put_at xs p)" "fits xs p"
  using assms by (auto simp: fits_def put_at_def ac_simps)

lemma encode_value_payload: "valueType x \<noteq> 0 \<Longrightarrow> encode_value (type_tag x) x = Inr (payload x)"
  by (cases x) (simp_all add: if_type_def)

lemma type_tag_cong: "valueType x = valueType y \<Longrightarrow> type_tag x = type_tag y"
  by (cases x; cases y) simp_all

lemma encode_values_image:
  "list_all (\<lambda>x. valueType x \<noteq> 0 \<and> type_tag x = t) v \<Longrightarrow> fits (values_image v) p \<Longrightarrow>
   encode_values t v p = Inr (put_at (values_image v) p)"
proof (induction v arbitrary: p)
  case Nil
  then show ?case by (cases p) (simp add: put_at_def)
next
  case (Cons x v)
  obtain dst n where p: "p = (dst, n)" by (cases p)
  let ?t = "put_be_u64 (UnixNano x)" and ?x = "concat (payload x)"
  have f: "fits (?t @ ?x @ values_image v) p" using Cons.prems(2) by (simp add: value_image_def)
  note f' = put_at_append [OF f] and f'' = put_at_append [OF put_at_append(2) [OF f]]
  obtain dst' n' where p': "put_at ?t p = (dst', n')" by (cases "put_at ?t p")
  have "blits n' (payload x) dst' = Inr (put_at ?x (dst', n'))"
    using f''(3) by (intro blits_put_at) (simp add: p')
  moreover have "blits n [?t] dst = Inr (dst', n')"
    using blits_put_at [of "[?t]" dst n] f'(3) by (simp add: p p' [unfolded p])
  ultimately have "encode_values t (x # v) p = encode_values t v (put_at ?x (put_at ?t p))"
    using Cons.prems(1) encode_value_payload [of x] by (auto simp: p p' [unfolded p] split: prod.splits)
  also have "\<dots> = Inr (put_at (values_image v) (put_at ?x (put_at ?t p)))"
    using Cons.prems(1) f''(2) by (intro Cons.IH) simp_all
  also have "\<dots> = Inr (put_at (values_image (x # v)) p)"
    using f''(1) f'(1) by (simp add: value_image_def)
  finally show ?case .
qed

lemma entry_type_tag:
  assumes "one_type v"
  shows "entry_type v = Inr (type_tag (v ! 0))"
proof -
  obtain x vs where "v = x # vs" "valueType x \<noteq> 0" using assms by (auto simp: one_type_def neq_Nil_conv)
  then show ?thesis by (cases x) simp_all
qed

lemma encode_entries_image:
  "list_all (\<lambda>(k, v). one_type v) w \<Longrightarrow> fits (write_image w) p \<Longrightarrow>
   encode_entries w p = Inr (put_at (write_image w) p)"
proof (induction w arbitrary: p)
  case Nil
  then show ?case by (cases p) (simp add: put_at_def)
next
  case (Cons e w)
  obtain k v where e: "e = (k, v)" by (cases e)
  obtain dst n where p: "p = (dst, n)" by (cases p)
  have v: "one_type v" "v \<noteq> []" using Cons.prems(1) by (auto simp: e one_type_def)
  let ?h = "[[type_tag (v ! 0)], put_be_u16 (of_nat (length k)), k, put_be_u32 (of_nat (length v))]"
  have f: "fits (concat ?h @ values_image v @ write_image w) p"
    using Cons.prems(2) by (simp add: e key_image_def)
  note f' = put_at_append [OF f] and f'' = put_at_append [OF put_at_append(2) [OF f]]
  obtain dst' n' where p': "put_at (concat ?h) p = (dst', n')" by (cases "put_at (concat ?h) p")
  have et: "entry_type v = Inr (type_tag (v ! 0))"
    using v(1) by (rule entry_type_tag)
  have tags: "list_all (\<lambda>x. valueType x \<noteq> 0 \<and> type_tag x = type_tag (v ! 0)) v"
    using v(1) unfolding one_type_def list_all_iff by (metis type_tag_cong)
  have "blits n ?h dst = Inr (dst', n')"
    using blits_put_at [of ?h dst n] f'(3) unfolding p p' [unfolded p, symmetric] by blast
  moreover have "encode_values (type_tag (v ! 0)) v (dst', n') = Inr (put_at (values_image v) (dst', n'))"
    using tags f''(3) unfolding p' by (rule encode_values_image)
  ultimately have "encode_entries (e # w) p = encode_entries w (put_at (values_image v) (put_at (concat ?h) p))"
    unfolding p' unfolding e p encode_entries.simps et rbind_simps
    by (simp only: rbind_simps prod.case case_prod_eta)
  also have "\<dots> = Inr (put_at (write_image w) (put_at (values_image v) (put_at (concat ?h) p)))"
    using Cons.prems(1) f''(2) by (intro Cons.IH) simp_all
  also have "\<dots> = Inr (put_at (write_image (e # w)) p)"
    using f''(1) f'(1) by (simp add: e key_image_def)
  finally show ?case .
qed

lemma write_Encode_image:
  assumes "list_all (\<lambda>(k, v). one_type v) w"
  shows "write_Encode w dst = Inr (write_image w)"
proof -
  define d where "d = (if length dst < write_MarshalSize w then replicate (write_MarshalSize w) 0
    else take (write_MarshalSize w) dst)"
  have "length d = length (write_image w)"
    using write_MarshalSize_image [OF assms] by (simp add: d_def)
  then show ?thesis
    using encode_entries_image [OF assms, of "(d, 0)"]
    by (simp add: write_Encode_def d_def [symmetric] fits_def put_at_def Let_def)
qed

subsection \<open>What is decoded\<close>

text \<open>What the format can represent: keys below 64 KiB, and counts and strings below 4 GiB.\<close>

definition storable_values :: "Value list \<Rightarrow> bool" where
  "storable_values v \<longleftrightarrow> one_type v \<and> length v < 2 ^ 32 \<and> list_all (\<lambda>x. \<forall>t s. x = StringValue t s \<longrightarrow> length s < 2 ^ 32) v"

fun storable :: "WALEntry \<Rightarrow> bool" where
  "storable (WriteWALEntry w) \<longleftrightarrow>
     distinct (map fst w) \<and> list_all (\<lambda>(k, v). length k < 2 ^ 16 \<and> storable_values v) w"
| "storable (DeleteWALEntry ks) \<longleftrightarrow> ks \<noteq> [] \<and> ks \<noteq> [[]] \<and> list_all (\<lambda>k. 10 \<notin> set k) ks"
| "storable (DeleteRangeWALEntry d) \<longleftrightarrow> list_all (\<lambda>k. length k < 2 ^ 32) (dr_Keys d)"

lemma drop_more: "drop i b = x @ r \<Longrightarrow> drop (i + length x) b = r \<and> i + length x \<le> max i (length b)"
proof -
  assume a: "drop i b = x @ r"
  have "drop (i + length x) b = drop (length x) (drop i b)" by (simp add: add.commute)
  moreover have "length (x @ r) = length b - i" by (simp flip: a)
  ultimately show ?thesis by (auto simp: a)
qed

lemma drop_length:
  assumes "drop i b = x @ r" "x \<noteq> []"
  shows "i + length x + length r = length b"
proof -
  have "length b - i = length x + length r" using arg_cong [OF assms(1), of length] by simp
  moreover have "0 < length x" using assms(2) by simp
  ultimately show ?thesis by linarith
qed

lemma put_be_not_Nil [simp]: "put_be_u64 x \<noteq> []" "put_be_u32 y \<noteq> []" "put_be_u16 z \<noteq> []"
  by (simp_all add: put_be_u64_def put_be_u32_def put_be_u16_def)

lemma read_put:
  "drop i b = put_be_u64 x @ r \<Longrightarrow> read_u64 i b = Inr x"
  "drop i b = put_be_u32 y @ r \<Longrightarrow> read_u32 i b = Inr (unat y)"
  "drop i b = put_be_u16 z @ r \<Longrightarrow> read_u16 i b = Inr (unat z)"
  "drop i b = c # r \<Longrightarrow> read_u8 i b = Inr c"
  "drop i b = k @ r \<Longrightarrow> i \<le> length b \<Longrightarrow> length k = n \<Longrightarrow> bytes_at i (i + n) b = Inr k"
proof -
  show "drop i b = put_be_u64 x @ r \<Longrightarrow> read_u64 i b = Inr x"
    using drop_length [of i b "put_be_u64 x" r] by (subst read_ok) auto
  show "drop i b = put_be_u32 y @ r \<Longrightarrow> read_u32 i b = Inr (unat y)"
    using drop_length [of i b "put_be_u32 y" r] by (subst read_ok) auto
  show "drop i b = put_be_u16 z @ r \<Longrightarrow> read_u16 i b = Inr (unat z)"
    using drop_length [of i b "put_be_u16 z" r] by (subst read_ok) auto
  show "drop i b = c # r \<Longrightarrow> read_u8 i b = Inr c"
    using drop_length [of i b "[c]" r] nth_drop [of i b 0] by (subst read_ok) auto
  assume "drop i b = k @ r" "i \<le> length b" "length k = n"
  then show "bytes_at i (i + n) b = Inr k"
    using drop_length [of i b k r] by (cases "k = []") (auto simp: bytes_at_def)
qed

lemma read_words_image:
  assumes "\<And>t x. UnixNano (mk t x) = t \<and> payload (mk t x) = [put_be_u64 x]"
  shows "\<forall>v\<in>set vs. \<exists>t x. v = mk t x \<Longrightarrow> drop i b = values_image vs @ r \<Longrightarrow>
    read_words mk (length vs) b i = Inr (vs, i + length (values_image vs))"
proof (induction vs arbitrary: i)
  case (Cons v vs)
  obtain t x where v: "v = mk t x" using Cons.prems(1) by auto
  have d: "drop i b = put_be_u64 t @ put_be_u64 x @ values_image vs @ r"
    using Cons.prems(2) assms by (simp add: value_image_def v)
  have d8: "drop (i + 8) b = put_be_u64 x @ values_image vs @ r" using drop_more [OF d] by simp
  have d16: "drop (i + 16) b = values_image vs @ r" using drop_more [OF d8] by (simp add: add.commute)
  show ?case
    using Cons.IH [OF _ d16] Cons.prems(1) assms
    by (simp add: read_put(1) [OF d] read_put(1) [OF d8] v value_image_def)
qed simp

lemma read_booleans_image:
  "\<forall>v\<in>set vs. \<exists>t x. v = BooleanValue t x \<Longrightarrow> drop i b = values_image vs @ r \<Longrightarrow>
    read_booleans (length vs) b i = Inr (vs, i + length (values_image vs))"
proof (induction vs arbitrary: i)
  case (Cons v vs)
  obtain t x where v: "v = BooleanValue t x" using Cons.prems(1) by auto
  have d: "drop i b = put_be_u64 t @ (if x then 1 else 0) # values_image vs @ r"
    using Cons.prems(2) by (simp add: value_image_def v)
  have d8: "drop (i + 8) b = (if x then 1 else 0) # values_image vs @ r" using drop_more [OF d] by simp
  have d9: "drop (i + 9) b = values_image vs @ r" using drop_more [of "i + 8" b "[if x then 1 else 0]" "values_image vs @ r"] d8 by (simp add: add.commute)
  show ?case
    using Cons.IH [OF _ d9] Cons.prems(1)
    by (simp add: read_put(1) [OF d] read_put(4) [OF d8] v value_image_def)
qed simp

lemma read_strings_image:
  "\<forall>v\<in>set vs. \<exists>t s. v = StringValue t s \<and> length s < 2 ^ 32 \<Longrightarrow> drop i b = values_image vs @ r \<Longrightarrow>
    read_strings (length vs) b i = Inr (vs, i + length (values_image vs))"
proof (induction vs arbitrary: i)
  case (Cons v vs)
  obtain t s where v: "v = StringValue t s" "length s < 2 ^ 32" using Cons.prems(1) by auto
  let ?n = "put_be_u32 (of_nat (length s))"
  have d: "drop i b = put_be_u64 t @ ?n @ s @ values_image vs @ r"
    using Cons.prems(2) by (simp add: value_image_def v)
  have d8: "drop (i + 8) b = ?n @ s @ values_image vs @ r" using drop_more [OF d] by simp
  have d12: "drop (i + 12) b = s @ values_image vs @ r" using drop_more [OF d8] by (simp add: add.commute)
  have dl: "drop (i + 12 + length s) b = values_image vs @ r" using drop_more [OF d12] by simp
  have len: "i + 12 + length s \<le> length b" using arg_cong [OF d, of length] by simp
  show ?case
    using Cons.IH [OF _ dl] Cons.prems(1) len
    by (simp add: read_put(1) [OF d] read_put(2) [OF d8] read_put(5) [OF d12] unat_length_u32 [OF v(2)] v value_image_def)
qed simp

lemma value_image_length: "valueType x \<noteq> 0 \<Longrightarrow> 9 \<le> length (value_image x)"
  by (cases x) (simp_all add: value_image_def)

lemma one_typeD: "one_type v \<Longrightarrow> x \<in> set v \<Longrightarrow> valueType x \<noteq> 0"
  unfolding one_type_def list_all_iff by metis

lemma length_values_image: "one_type v \<Longrightarrow> 9 * length v \<le> length (values_image v)"
proof -
  assume "one_type v"
  then have "\<forall>x\<in>set v. 9 \<le> length (value_image x)"
    using one_typeD value_image_length by blast
  then show ?thesis by (induction v) auto
qed

lemma valueType_cases:
  "valueType v = 1 \<Longrightarrow> \<exists>t x. v = FloatValue t x" "valueType v = 2 \<Longrightarrow> \<exists>t x. v = IntegerValue t x"
  "valueType v = 3 \<Longrightarrow> \<exists>t x. v = StringValue t x" "valueType v = 4 \<Longrightarrow> \<exists>t x. v = BooleanValue t x"
  "valueType v = 5 \<Longrightarrow> \<exists>t x. v = UnsignedValue t x"
  by (cases v; simp)+

lemma read_values_image:
  assumes v: "storable_values v" and d: "drop i b = values_image v @ r"
  shows "read_values (type_tag (v ! 0)) (length v) b i = Inr (v, i + length (values_image v))"
proof -
  obtain x vs where x: "v = x # vs" using v by (auto simp: storable_values_def one_type_def neq_Nil_conv)
  have ty: "\<forall>y\<in>set v. valueType y = valueType x" "valueType x \<noteq> 0"
    using v by (auto simp: storable_values_def x one_type_Cons list_all_iff)
  have fix_len: "length (values_image v) = m * length v" if "\<forall>y\<in>set v. length (value_image y) = m" for m
    using that by (rule values_image_fixed)
  have len: "i + length (values_image v) \<le> length b" if "values_image v \<noteq> []"
    using drop_length [OF d that] by simp
  have ne: "values_image v \<noteq> []" by (simp add: x value_image_def)
  have words: "read_words mk (length v) b i = Inr (v, i + length (values_image v)) \<and> i + 16 * length v \<le> length b"
    if "\<forall>y\<in>set v. \<exists>t z. y = mk t z" "\<And>t z. UnixNano (mk t z) = t \<and> payload (mk t z) = [put_be_u64 z]" for mk
  proof -
    have "\<forall>y\<in>set v. length (value_image y) = 16" using that by (auto simp: value_image_def)
    then show ?thesis using read_words_image [OF that(2,1) d] len [OF ne] fix_len [of 16] by simp
  qed
  show ?thesis
  proof (cases x)
    case (FloatValue t z)
    then have "\<forall>y\<in>set v. \<exists>t z. y = FloatValue t z" using ty(1) valueType_cases(1) by simp
    from words [OF this] show ?thesis using FloatValue by (simp add: read_values_def x entry_types)
  next
    case (IntegerValue t z)
    then have "\<forall>y\<in>set v. \<exists>t z. y = IntegerValue t z" using ty(1) valueType_cases(2) by simp
    from words [OF this] show ?thesis using IntegerValue by (simp add: read_values_def x entry_types)
  next
    case (UnsignedValue t z)
    then have "\<forall>y\<in>set v. \<exists>t z. y = UnsignedValue t z" using ty(1) valueType_cases(5) by simp
    from words [OF this] show ?thesis using UnsignedValue by (simp add: read_values_def x entry_types)
  next
    case (BooleanValue t z)
    then have b: "\<forall>y\<in>set v. \<exists>t z. y = BooleanValue t z" using ty valueType_cases(4) by simp
    then have "\<forall>y\<in>set v. length (value_image y) = 9" by (auto simp: value_image_def)
    then show ?thesis
      using read_booleans_image [OF b d] len [OF ne] fix_len [of 9] BooleanValue
      by (simp add: read_values_def x entry_types)
  next
    case (StringValue t z)
    have "\<forall>y\<in>set v. \<exists>t s. y = StringValue t s \<and> length s < 2 ^ 32"
    proof
      fix y assume y: "y \<in> set v"
      then obtain t s where "y = StringValue t s" using ty StringValue valueType_cases(3) [of y] by auto
      then show "\<exists>t s. y = StringValue t s \<and> length s < 2 ^ 32"
        using v y by (auto simp: storable_values_def list_all_iff)
    qed
    from read_strings_image [OF this d] show ?thesis
      using StringValue by (simp add: read_values_def x entry_types)
  qed (use ty in simp)
qed

lemma unmarshal_key_image:
  assumes k: "length k < 2 ^ 16" and v: "storable_values v" and d: "drop i b = key_image (k, v) @ r"
  shows "unmarshal_key b i = Inr (k, v, i + length (key_image (k, v)))"
proof -
  let ?l = "put_be_u16 (of_nat (length k))" and ?n = "put_be_u32 (of_nat (length v))"
  have v': "one_type v" "length v < 2 ^ 32" using v by (simp_all add: storable_values_def)
  have d0: "drop i b = type_tag (v ! 0) # ?l @ k @ ?n @ values_image v @ r"
    using d by (simp add: key_image_def)
  have d1: "drop (i + 1) b = ?l @ k @ ?n @ values_image v @ r"
    using drop_more [of i b "[type_tag (v ! 0)]"] d0 by simp
  have d3: "drop (i + 3) b = k @ ?n @ values_image v @ r"
    using drop_more [OF d1] by (simp add: numeral_3_eq_3)
  have dk: "drop (i + 3 + length k) b = ?n @ values_image v @ r" using drop_more [OF d3] by simp
  have d7: "drop (i + 7 + length k) b = values_image v @ r"
    using drop_more [OF dk] by (simp add: ac_simps)
  have len: "i + 7 + length k + length (values_image v) \<le> length b"
    using arg_cong [OF d0, of length] by simp
  have "0 < length v" "length v \<le> length b"
    using v'(1) length_values_image [OF v'(1)] len by (auto simp: one_type_def)
  moreover have "read_u16 (i + 1) b = Inr (length k)"
    using read_put(3) [OF d1] by (simp only: unat_length_u16 [OF k])
  moreover have "read_u32 (i + 3 + length k) b = Inr (length v)"
    using read_put(2) [OF dk] by (simp only: unat_length_u32 [OF v'(2)])
  moreover have "bytes_at (i + 3) (i + 3 + length k) b = Inr k"
    using len by (intro read_put(5) [OF d3]) simp_all
  ultimately show ?thesis
    using len read_values_image [OF v d7]
    by (simp add: unmarshal_key_def read_put(4) [OF d0] key_image_def)
qed

lemma update_new: "k \<notin> fst ` set w \<Longrightarrow> AList.update k v w = w @ [(k, v)]"
  by (induction w) auto

lemma unmarshal_loop_image:
  "distinct (map fst (w0 @ w)) \<Longrightarrow> list_all (\<lambda>(k, v). length k < 2 ^ 16 \<and> storable_values v) w \<Longrightarrow>
   i \<le> length b \<Longrightarrow> drop i b = write_image w \<Longrightarrow> unmarshal_loop b i w0 = Inr (w0 @ w)"
proof (induction w arbitrary: i w0)
  case Nil
  then show ?case by (simp add: unmarshal_loop.simps)
next
  case (Cons e w)
  obtain k v where e: "e = (k, v)" by (cases e)
  have d: "drop i b = key_image (k, v) @ write_image w" using Cons.prems(4) by (simp add: e)
  have ne: "key_image (k, v) \<noteq> []" by (simp add: key_image_def)
  note len = drop_length [OF d ne]
  let ?j = "i + length (key_image (k, v))"
  have "unmarshal_loop b ?j (w0 @ [(k, v)]) = Inr ((w0 @ [(k, v)]) @ w)"
    using Cons.prems(1,2) len drop_more [OF d] by (intro Cons.IH) (auto simp: e)
  moreover have "i < length b" using len ne by (cases "key_image (k, v)") auto
  ultimately show ?case
    using unmarshal_key_image [OF _ _ d] Cons.prems(1,2) update_new [of k w0 v]
    by (simp add: unmarshal_loop.simps [of b i] e)
qed

lemma write_roundtrip:
  assumes "storable (WriteWALEntry w)"
  shows "write_Encode w dst = Inr (write_image w)" "write_UnmarshalBinary (write_image w) = Inr w"
proof -
  have "list_all (\<lambda>(k, v). one_type v) w" using assms by (auto simp: list_all_iff storable_values_def)
  then show "write_Encode w dst = Inr (write_image w)" by (rule write_Encode_image)
  show "write_UnmarshalBinary (write_image w) = Inr w"
    using unmarshal_loop_image [of "[]" w 0 "write_image w"] assms by (simp add: write_UnmarshalBinary_def)
qed

subsection \<open>Deletes\<close>

definition delete_image :: "key list \<Rightarrow> u8 list" where
  "delete_image ks = butlast (concat (map (\<lambda>k. k @ [10]) ks))"

lemma concat_pairs: "concat (concat (map (\<lambda>k. [f k, g k]) ks)) = concat (map (\<lambda>k. f k @ g k) ks)"
  by (induction ks) simp_all

lemma delete_Encode_image: "ks \<noteq> [] \<Longrightarrow> delete_Encode ks dst = Inr (delete_image ks)"
proof -
  assume ks: "ks \<noteq> []"
  let ?c = "concat (map (\<lambda>k. k @ [10]) ks)"
  have len: "length ?c = delete_MarshalSize ks"
    by (simp add: delete_MarshalSize_def length_concat comp_def sum_list_Suc)
  have pos: "0 < length ?c" using ks by (cases ks) simp_all
  define d where "d = (if length dst < delete_MarshalSize ks then replicate (delete_MarshalSize ks) 0 else dst)"
  have "length ?c \<le> length d" by (simp add: len d_def)
  then have "blits 0 (concat (map (\<lambda>k. [k, [10]]) ks)) d = Inr (?c @ drop (length ?c) d, length ?c)"
    using blits_0 [of "concat (map (\<lambda>k. [k, [10]]) ks)" d] unfolding concat_pairs by blast
  then show ?thesis
    using pos by (simp add: delete_Encode_def d_def [symmetric] Let_def delete_image_def butlast_conv_take)
qed

lemma bytes_Split_append: "sep \<notin> set k \<Longrightarrow> bytes_Split sep (k @ sep # xs) = k # bytes_Split sep xs"
  by (induction k) auto

lemma bytes_Split_single: "sep \<notin> set k \<Longrightarrow> bytes_Split sep k = [k]"
  by (induction k) auto

lemma bytes_Split_image: "ks \<noteq> [] \<Longrightarrow> list_all (\<lambda>k. 10 \<notin> set k) ks \<Longrightarrow> bytes_Split 10 (delete_image ks) = ks"
proof (induction ks)
  case (Cons k ks)
  show ?case
  proof (cases ks)
    case Nil
    then show ?thesis using Cons.prems by (simp add: delete_image_def bytes_Split_single)
  next
    case (Cons k' ks')
    then have "delete_image (k # ks) = k @ 10 # delete_image ks"
      by (simp add: delete_image_def butlast_append)
    then show ?thesis using Cons Cons.IH Cons.prems by (simp add: bytes_Split_append)
  qed
qed simp

lemma delete_roundtrip:
  assumes "storable (DeleteWALEntry ks)"
  shows "delete_Encode ks dst = Inr (delete_image ks)" "delete_UnmarshalBinary (delete_image ks) = ks"
proof -
  have "delete_image ks = [] \<Longrightarrow> ks = [[]]"
    using assms bytes_Split_image [of ks] by auto
  then show "delete_UnmarshalBinary (delete_image ks) = ks"
    using assms bytes_Split_image [of ks] by (auto simp: delete_UnmarshalBinary_def)
qed (use assms delete_Encode_image in simp)

definition range_image :: "delete_range \<Rightarrow> u8 list" where
  "range_image d = put_be_u64 (dr_Min d) @ put_be_u64 (dr_Max d) @
     concat (map (\<lambda>k. put_be_u32 (of_nat (length k)) @ k) (dr_Keys d))"

lemma range_keys_loop_image:
  "list_all (\<lambda>k. length k < 2 ^ 32) ks \<Longrightarrow> i \<le> length b \<Longrightarrow>
   drop i b = concat (map (\<lambda>k. put_be_u32 (of_nat (length k)) @ k) ks) \<Longrightarrow>
   range_keys_loop b i ks0 = Inr (ks0 @ ks)"
proof (induction ks arbitrary: i ks0)
  case Nil
  then show ?case by (simp add: range_keys_loop.simps)
next
  case (Cons k ks)
  let ?r = "concat (map (\<lambda>k. put_be_u32 (of_nat (length k)) @ k) ks)" and ?n = "put_be_u32 (of_nat (length k))"
  have d: "drop i b = ?n @ k @ ?r" using Cons.prems(3) by simp
  have d4: "drop (i + 4) b = k @ ?r" using drop_more [OF d] by simp
  have dk: "drop (i + 4 + length k) b = ?r" using drop_more [OF d4] by simp
  have len: "i + 4 + length k \<le> length b" using arg_cong [OF d, of length] by simp
  have sz: "read_u32 i b = Inr (length k)"
    using read_put(2) [OF d] Cons.prems(1) unat_length_u32 [of "length k"] by simp
  have key: "bytes_at (i + 4) (i + 4 + length k) b = Inr k" using len by (intro read_put(5) [OF d4]) simp_all
  have "range_keys_loop b (i + 4 + length k) (ks0 @ [k]) = Inr ((ks0 @ [k]) @ ks)"
    using Cons.prems(1) len dk by (intro Cons.IH) simp_all
  then show ?case using len by (simp add: range_keys_loop.simps [of b i] sz key)
qed

lemma range_roundtrip:
  assumes "storable (DeleteRangeWALEntry d)"
  shows "range_Encode d dst = Inr (range_image d)" "range_UnmarshalBinary (range_image d) = Inr d"
proof -
  let ?ss = "[put_be_u64 (dr_Min d), put_be_u64 (dr_Max d)] @
    concat (map (\<lambda>k. [put_be_u32 (of_nat (length k)), k]) (dr_Keys d))"
  have img: "concat ?ss = range_image d" by (simp add: range_image_def concat_pairs)
  have len: "length (range_image d) = range_MarshalSize d"
    by (simp add: range_image_def range_MarshalSize_def length_concat comp_def sum_list_addf sum_list_triv)
  show "range_Encode d dst = Inr (range_image d)"
    using blits_0 [of ?ss "if length dst < range_MarshalSize d then replicate (range_MarshalSize d) 0 else dst"]
    unfolding img by (simp add: range_Encode_def Let_def len)
  have d0: "drop 0 (range_image d) = put_be_u64 (dr_Min d) @ drop 8 (range_image d)"
    and d8: "drop 8 (range_image d) = put_be_u64 (dr_Max d) @ drop 16 (range_image d)"
    and d16: "drop 16 (range_image d) = concat (map (\<lambda>k. put_be_u32 (of_nat (length k)) @ k) (dr_Keys d))"
    by (simp_all add: range_image_def)
  have "16 \<le> length (range_image d)" by (simp add: range_image_def)
  then show "range_UnmarshalBinary (range_image d) = Inr d"
    using range_keys_loop_image [OF _ _ d16, of "[]"] assms
    by (simp add: range_UnmarshalBinary_def read_put(1) [OF d0] read_put(1) [OF d8])
qed

subsection \<open>Entries\<close>

fun entry_image :: "WALEntry \<Rightarrow> u8 list" where
  "entry_image (WriteWALEntry w) = write_image w"
| "entry_image (DeleteWALEntry ks) = delete_image ks"
| "entry_image (DeleteRangeWALEntry d) = range_image d"

lemma entry_codec:
  assumes "storable e"
  shows "entry_Encode e dst = Inr (entry_image e)" "entry_Unmarshal (entry_Type e) (entry_image e) = Inr e"
  using assms write_roundtrip delete_roundtrip range_roundtrip
  by (cases e; simp add: entry_Unmarshal_def wal_types)+

text \<open>
  C4. Log entries read back: whatever the buffer it is given, the encoder of an entry that the format can
  represent produces at most \<open>MarshalSize\<close> bytes, and decoding them by the type of the entry gives
  the entry.
\<close>

theorem wal_entry_roundtrip:
  assumes "storable e"
  shows "\<exists>b. entry_Encode e dst = Inr b \<and> length b \<le> entry_MarshalSize e \<and> entry_Unmarshal (entry_Type e) b = Inr e"
proof -
  have "length (entry_image e) \<le> entry_MarshalSize e"
  proof (cases e)
    case (WriteWALEntry w)
    have "list_all (\<lambda>(k, v). one_type v) w"
      using assms by (auto simp: WriteWALEntry list_all_iff storable_values_def)
    then show ?thesis by (simp add: WriteWALEntry write_MarshalSize_image)
  next
    case (DeleteWALEntry ks)
    then show ?thesis
      by (simp add: delete_image_def delete_MarshalSize_def length_concat comp_def sum_list_Suc)
  next
    case (DeleteRangeWALEntry d)
    then show ?thesis
      by (simp add: range_image_def range_MarshalSize_def length_concat comp_def sum_list_addf sum_list_triv)
  qed
  then show ?thesis using entry_codec [OF assms] by blast
qed

theorem wal_entry_roundtrip_witness:
  "\<exists>b. entry_Encode (WriteWALEntry [([97], [StringValue 5 [120, 121]]), ([98, 99], [IntegerValue 7 (- 1), IntegerValue 9 2])]) [1, 2, 3] = Inr b \<and>
     entry_Unmarshal 1 b = Inr (WriteWALEntry [([97], [StringValue 5 [120, 121]]), ([98, 99], [IntegerValue 7 (- 1), IntegerValue 9 2])])"
  using wal_entry_roundtrip [of "WriteWALEntry [([97], [StringValue 5 [120, 121]]), ([98, 99], [IntegerValue 7 (- 1), IntegerValue 9 2])]" "[1, 2, 3]"]
  by (auto simp: storable_values_def one_type_def WriteWALEntryType_def)

text \<open>
  C37. Decoding arbitrary bytes under any type neither panics nor reads out of range: it returns an error, or
  an entry, and a decoded write has distinct keys, each with at least one value and values of one type.
\<close>

theorem wal_decode_safe:
  "(\<exists>m. entry_Unmarshal t b = Inl (Err m)) \<or>
   (\<exists>e. entry_Unmarshal t b = Inr e \<and>
     (case e of WriteWALEntry w \<Rightarrow> distinct (map fst w) \<and> list_all (\<lambda>(k, v). one_type v) w | _ \<Rightarrow> True))"
  using entry_Unmarshal_ok [of t b] by (auto split: WALEntry.splits)

end
