(* ===== verification/WalSegment.thy ===== *)
theory WalSegment
  imports WalCodec TsmCache BatchString
begin

text \<open>
  Segments of the write-ahead log: \<open>WALSegmentWriter\<close> and \<open>WALSegmentReader\<close> of
  \<open>src/backend/tsdb/engine/tsm1/wal.go\<close>, and the \<open>CacheLoader\<close> of \<open>cache.go\<close> that replays segments into the
  cache. A file is its list of bytes. The compressor is the parameter \<open>snappy\<close> of \<open>BatchString\<close>; an error
  of \<open>snappy.DecodedLen\<close> is an error of \<open>sn_decode\<close>. Reads and writes of files do not fail here: what a crash
  can leave of a file is the subject of the theories that use segments.
\<close>

unbundle bit_operations_syntax

subsection \<open>Writing\<close>

text \<open>\<open>bufio.Writer\<close> of the Go library with a buffer of 16 KiB: the buffer and the bytes it has passed on to the file.\<close>

definition bufio_size :: nat where "bufio_size = 16 * 1024"

definition bufio_Write :: "u8 list \<Rightarrow> u8 list \<times> u8 list \<Rightarrow> u8 list \<times> u8 list" where
  "bufio_Write p = (\<lambda>(buf, file).
     let available = bufio_size - length buf
     in if length p \<le> available then (buf @ p, file)
        else if buf = [] then ([], file @ p)
        else if length p - available \<le> bufio_size then (drop available p, file @ buf @ take available p)
        else ([], file @ buf @ p))"

definition bufio_Flush :: "u8 list \<times> u8 list \<Rightarrow> u8 list \<times> u8 list" where
  "bufio_Flush = (\<lambda>(buf, file). ([], file @ buf))"

record segment_writer =
  sw_bw :: "u8 list \<times> u8 list"
  sw_size :: nat

definition NewWALSegmentWriter :: segment_writer where
  "NewWALSegmentWriter = \<lparr>sw_bw = ([], []), sw_size = 0\<rparr>"

definition sw_Write :: "u8 \<Rightarrow> u8 list \<Rightarrow> segment_writer \<Rightarrow> segment_writer" where
  "sw_Write entryType compressed w =
     (let buf = entryType # put_be_u32 (of_nat (length compressed))
      in \<lparr>sw_bw = bufio_Write compressed (bufio_Write buf (sw_bw w)),
          sw_size = sw_size w + (length buf + length compressed)\<rparr>)"

definition sw_sync :: "segment_writer \<Rightarrow> segment_writer" where
  "sw_sync w = w\<lparr>sw_bw := bufio_Flush (sw_bw w)\<rparr>"

subsection \<open>Reading\<close>

text \<open>\<open>io.ReadFull\<close>: the bytes or the error, and what is left to read.\<close>

definition ReadFull :: "nat \<Rightarrow> u8 list \<Rightarrow> u8 list res \<times> u8 list" where
  "ReadFull k r =
     (if k \<le> length r then (Inr (take k r), drop k r)
      else if r = [] then (Inl (Err ''EOF''), [])
      else (Inl (Err ''unexpected EOF''), []))"

record segment_reader =
  sr_rest :: "u8 list"
  sr_entry :: "WALEntry option"
  sr_n :: nat
  sr_err :: "go_err option"

definition NewWALSegmentReader :: "u8 list \<Rightarrow> segment_reader" where
  "NewWALSegmentReader file = \<lparr>sr_rest = file, sr_entry = None, sr_n = 0, sr_err = None\<rparr>"

definition sr_Reset :: "u8 list \<Rightarrow> segment_reader \<Rightarrow> segment_reader" where
  "sr_Reset file r = r\<lparr>sr_rest := file, sr_entry := None, sr_n := 0, sr_err := None\<rparr>"

text \<open>What \<open>Next\<close> does with the five bytes of the header; the result is \<open>Inl Panic\<close> if decoding panics.
  After an error the half decoded entry is not kept, since \<open>Read\<close> returns the error instead.\<close>

definition next_entry :: "snappy \<Rightarrow> u8 list \<Rightarrow> segment_reader \<Rightarrow> segment_reader res" where
  "next_entry sn lv r =
     (let entryType = lv ! 0;
          len = unat (be_u32 (drop 1 lv))
      in case ReadFull len (sr_rest r) of
           (Inl e, rest) \<Rightarrow> Inr (r\<lparr>sr_rest := rest, sr_err := Some e\<rparr>)
         | (Inr b, rest) \<Rightarrow>
             (let r = r\<lparr>sr_rest := rest\<rparr>
              in case sn_decode sn b of
                   Inl e \<Rightarrow> Inr (r\<lparr>sr_err := Some e\<rparr>)
                 | Inr data \<Rightarrow>
                     (case entry_Unmarshal entryType data of
                        Inl Panic \<Rightarrow> Inl Panic
                      | Inl Unsafe \<Rightarrow> Inl Unsafe
                      | Inl (Err m) \<Rightarrow> Inr (r\<lparr>sr_err := Some (Err m)\<rparr>)
                      | Inr e \<Rightarrow> Inr (r\<lparr>sr_entry := Some e, sr_err := None, sr_n := sr_n r + 5 + len\<rparr>))))"

definition sr_Next :: "snappy \<Rightarrow> segment_reader \<Rightarrow> (bool \<times> segment_reader) res" where
  "sr_Next sn r =
     (case ReadFull 5 (sr_rest r) of
        (Inl e, rest) \<Rightarrow>
          if e = Err ''EOF'' then Inr (False, r\<lparr>sr_rest := rest\<rparr>)
          else Inr (True, r\<lparr>sr_rest := rest, sr_err := Some e\<rparr>)
      | (Inr lv, rest) \<Rightarrow> rbind (next_entry sn lv (r\<lparr>sr_rest := rest\<rparr>)) (\<lambda>r. Inr (True, r)))"

definition sr_Read :: "segment_reader \<Rightarrow> WALEntry option res" where
  "sr_Read r = (case sr_err r of Some e \<Rightarrow> Inl e | None \<Rightarrow> Inr (sr_entry r))"

definition sr_Count :: "segment_reader \<Rightarrow> nat" where
  "sr_Count r = sr_n r"

lemma next_entry_shorter:
  "next_entry sn lv r = Inr r' \<Longrightarrow> length (sr_rest r') \<le> length (sr_rest r)"
  by (auto simp: next_entry_def ReadFull_def Let_def split: prod.splits sum.splits go_err.splits if_splits)

lemma sr_Next_shorter: "sr_Next sn r = Inr (True, r') \<Longrightarrow> length (sr_rest r') < length (sr_rest r)"
  by (auto simp: sr_Next_def ReadFull_def split: if_splits elim!: rbind_InrE dest!: next_entry_shorter)

subsection \<open>Loading\<close>

text \<open>Applying an entry to the cache: the error with which \<open>Load\<close> stops, if any, and the cache.\<close>

definition apply_entry :: "(key \<Rightarrow> u64) \<Rightarrow> int \<Rightarrow> WALEntry \<Rightarrow> Cache \<Rightarrow> (tsm_err option \<times> Cache) res" where
  "apply_entry h now e c =
     (case e of
        WriteWALEntry w \<Rightarrow> Inr (WriteMulti h now w c)
      | DeleteRangeWALEntry d \<Rightarrow>
          rbind (c_DeleteRange h (dr_Keys d) (sint (dr_Min d)) (sint (dr_Max d)) c) (\<lambda>c. Inr (None, c))
      | DeleteWALEntry ks \<Rightarrow> rbind (c_Delete h ks c) (\<lambda>c. Inr (None, c)))"

text \<open>
  The loop over the entries of one file. The result is the error, the length to which the file is
  truncated if it is corrupt, and the cache.
\<close>

function load_loop ::
  "snappy \<Rightarrow> (key \<Rightarrow> u64) \<Rightarrow> int \<Rightarrow> segment_reader \<Rightarrow> Cache \<Rightarrow> (tsm_err option \<times> nat option \<times> Cache) res" where
  "load_loop sn h now r c =
     (case sr_Next sn r of
        Inl e \<Rightarrow> Inl e
      | Inr (ok, r') \<Rightarrow>
          if \<not> ok then Inr (None, None, c)
          else case sr_Read r' of
                 Inl e \<Rightarrow> Inr (None, Some (sr_Count r'), c)
               | Inr None \<Rightarrow> Inl Panic
               | Inr (Some e) \<Rightarrow>
                   (case apply_entry h now e c of
                      Inl p \<Rightarrow> Inl p
                    | Inr (Some err, c) \<Rightarrow> Inr (Some err, None, c)
                    | Inr (None, c) \<Rightarrow> load_loop sn h now r' c))"
  by pat_completeness auto
termination
  by (relation "measure (\<lambda>(sn, h, now, r, c). length (sr_rest r))") (auto dest: sr_Next_shorter)

declare load_loop.simps [simp del]

definition load_file ::
  "snappy \<Rightarrow> (key \<Rightarrow> u64) \<Rightarrow> int \<Rightarrow> u8 list \<Rightarrow> Cache \<Rightarrow> (tsm_err option \<times> u8 list \<times> Cache) res" where
  "load_file sn h now file c =
     (if file = [] then Inr (None, file, c)
      else rbind (load_loop sn h now (NewWALSegmentReader file) c) (\<lambda>(err, trunc, c).
             Inr (err, case trunc of None \<Rightarrow> file | Some n \<Rightarrow> take n file, c)))"

text \<open>\<open>Load\<close>: the error, the files afterwards and the cache. The reader is reset for each file, so a new one is used here.\<close>

fun cl_Load ::
  "snappy \<Rightarrow> (key \<Rightarrow> u64) \<Rightarrow> int \<Rightarrow> u8 list list \<Rightarrow> Cache \<Rightarrow> (tsm_err option \<times> u8 list list \<times> Cache) res" where
  "cl_Load sn h now [] c = Inr (None, [], c)"
| "cl_Load sn h now (file # files) c =
     rbind (load_file sn h now file c) (\<lambda>(err, file, c).
       case err of
         Some e \<Rightarrow> Inr (Some e, file # files, c)
       | None \<Rightarrow> rbind (cl_Load sn h now files c) (\<lambda>(err, files, c). Inr (err, file # files, c)))"

subsection \<open>What a writer leaves in its file\<close>

text \<open>All bytes a writer was given: those in the file and, behind them, those in the buffer.\<close>

definition sw_content :: "segment_writer \<Rightarrow> u8 list" where
  "sw_content w = snd (sw_bw w) @ fst (sw_bw w)"

definition sw_file :: "segment_writer \<Rightarrow> u8 list" where
  "sw_file w = snd (sw_bw w)"

lemma bufio_Write_content:
  "snd (bufio_Write p bw) @ fst (bufio_Write p bw) = snd bw @ fst bw @ p"
  by (cases bw) (simp add: bufio_Write_def Let_def)

lemma bufio_Write_file: "\<exists>q. snd (bufio_Write p bw) = snd bw @ q"
  by (cases bw) (simp add: bufio_Write_def Let_def)

definition frame :: "u8 \<Rightarrow> u8 list \<Rightarrow> u8 list" where
  "frame t z = t # put_be_u32 (of_nat (length z)) @ z"

lemma sw_Write_content:
  "sw_content (sw_Write t z w) = sw_content w @ frame t z" "\<exists>q. sw_file (sw_Write t z w) = sw_file w @ q"
  "sw_size (sw_Write t z w) = sw_size w + length (frame t z)"
proof -
  let ?h = "t # put_be_u32 (of_nat (length z))"
  show "sw_content (sw_Write t z w) = sw_content w @ frame t z"
    by (simp add: sw_content_def sw_Write_def Let_def bufio_Write_content frame_def)
  from bufio_Write_file [of ?h "sw_bw w"] bufio_Write_file [of z "bufio_Write ?h (sw_bw w)"]
  show "\<exists>q. sw_file (sw_Write t z w) = sw_file w @ q"
    by (auto simp: sw_file_def sw_Write_def Let_def)
  show "sw_size (sw_Write t z w) = sw_size w + length (frame t z)"
    by (simp add: sw_Write_def Let_def frame_def)
qed

lemma sw_sync_content [simp]:
  "sw_content (sw_sync w) = sw_content w" "sw_file (sw_sync w) = sw_content w" "sw_size (sw_sync w) = sw_size w"
  by (simp_all add: sw_content_def sw_file_def sw_sync_def bufio_Flush_def split: prod.splits)

subsection \<open>What a reader finds in it\<close>

text \<open>The bytes that stand for an entry: its type and length, and data that decompresses to its encoding.\<close>

definition frame_of :: "snappy \<Rightarrow> WALEntry \<Rightarrow> u8 list \<Rightarrow> bool" where
  "frame_of sn e f \<longleftrightarrow> storable e \<and>
     (\<exists>z. f = frame (entry_Type e) z \<and> length z < 2 ^ 32 \<and> sn_decode sn z = Inr (entry_image e))"

lemma length_frame: "length (frame t z) = 5 + length z"
  by (simp add: frame_def)

lemma sr_Next_frame:
  assumes "frame_of sn e f" "sr_rest r = f @ rest"
  shows "sr_Next sn r = Inr (True, r\<lparr>sr_rest := rest, sr_entry := Some e, sr_err := None, sr_n := sr_n r + length f\<rparr>)"
proof -
  obtain z where z: "f = frame (entry_Type e) z" "length z < 2 ^ 32" "sn_decode sn z = Inr (entry_image e)" "storable e"
    using assms(1) by (auto simp: frame_of_def)
  let ?h = "entry_Type e # put_be_u32 (of_nat (length z))"
  have "ReadFull 5 (sr_rest r) = (Inr ?h, z @ rest)"
    by (simp add: assms(2) z(1) ReadFull_def frame_def)
  moreover have "unat (be_u32 (drop 1 ?h)) = length z"
    using be_put_u32 [of "of_nat (length z)" "[]"] z(2) by (simp add: unat_length_u32)
  ultimately show ?thesis
    using entry_codec(2) [OF z(4)]
    by (simp add: sr_Next_def next_entry_def Let_def ReadFull_def z(1,3) length_frame)
qed

lemma sr_Next_end: "sr_rest r = [] \<Longrightarrow> sr_Next sn r = Inr (False, r)"
  by (simp add: sr_Next_def ReadFull_def)

lemma sr_Next_partial:
  assumes "frame_of sn e f" "sr_rest r = take m f" "m < length f" "sr_rest r \<noteq> []"
  shows "\<exists>r' err. sr_Next sn r = Inr (True, r') \<and> sr_err r' = Some err \<and> sr_n r' = sr_n r"
proof -
  obtain z where z: "f = frame (entry_Type e) z" "length z < 2 ^ 32" using assms(1) by (auto simp: frame_of_def)
  let ?h = "entry_Type e # put_be_u32 (of_nat (length z))"
  show ?thesis
  proof (cases "5 \<le> m")
    case True
    then have r: "ReadFull 5 (sr_rest r) = (Inr ?h, take (m - 5) z)"
      using assms(3) by (simp add: assms(2) z(1) ReadFull_def frame_def take_Cons' drop_take)
    have len: "unat (be_u32 (drop 1 ?h)) = length z"
      using be_put_u32 [of "of_nat (length z)" "[]"] z(2) by (simp add: unat_length_u32)
    have "m - 5 < length z" using True assms(3) by (simp add: z(1) length_frame)
    then have "\<exists>r' err. next_entry sn ?h (r\<lparr>sr_rest := take (m - 5) z\<rparr>) = Inr r' \<and> sr_err r' = Some err \<and> sr_n r' = sr_n r"
      using len by (simp add: next_entry_def Let_def ReadFull_def)
    then show ?thesis by (auto simp: sr_Next_def r)
  qed (use assms in \<open>simp add: sr_Next_def ReadFull_def\<close>)
qed

text \<open>Replaying a list of entries, and how many frames the first \<open>m\<close> bytes contain in full.\<close>

fun replay :: "(key \<Rightarrow> u64) \<Rightarrow> int \<Rightarrow> WALEntry list \<Rightarrow> Cache \<Rightarrow> (tsm_err option \<times> Cache) res" where
  "replay h now [] c = Inr (None, c)"
| "replay h now (e # es) c =
     rbind (apply_entry h now e c) (\<lambda>(err, c). if err = None then replay h now es c else Inr (err, c))"

fun complete :: "nat \<Rightarrow> u8 list list \<Rightarrow> nat" where
  "complete m [] = 0"
| "complete m (f # fs) = (if length f \<le> m then Suc (complete (m - length f) fs) else 0)"

lemma complete_all: "length (concat fs) \<le> m \<Longrightarrow> complete m fs = length fs"
  by (induction fs arbitrary: m) auto

lemma complete_monotone: "n \<le> length fs \<Longrightarrow> length (concat (take n fs)) \<le> m \<Longrightarrow> n \<le> complete m fs"
proof (induction fs arbitrary: n m)
  case (Cons f fs)
  show ?case
  proof (cases n)
    case (Suc k)
    then show ?thesis using Cons.IH [of k "m - length f"] Cons.prems by simp
  qed simp
qed simp

lemma complete_le: "complete m fs \<le> length fs" "length (concat (take (complete m fs) fs)) \<le> m"
proof -
  show "complete m fs \<le> length fs" by (induction fs arbitrary: m) auto
  show "length (concat (take (complete m fs) fs)) \<le> m"
  proof (induction fs arbitrary: m)
    case (Cons f fs)
    show ?case using Cons.IH [of "m - length f"] by auto
  qed simp
qed

lemma load_loop_prefix:
  "list_all2 (frame_of sn) es fs \<Longrightarrow> sr_rest r = take m (concat fs) \<Longrightarrow> m \<le> length (concat fs) \<Longrightarrow>
   load_loop sn h now r c = rbind (replay h now (take (complete m fs) es) c) (\<lambda>(err, c).
     Inr (err, if err \<noteq> None \<or> m = length (concat (take (complete m fs) fs)) then None
               else Some (sr_n r + length (concat (take (complete m fs) fs))), c))"
proof (induction es arbitrary: fs r m c)
  case Nil
  then show ?case by (simp add: load_loop.simps sr_Next_end)
next
  case (Cons e es)
  obtain f fs' where fs: "fs = f # fs'" and e: "frame_of sn e f" and es: "list_all2 (frame_of sn) es fs'"
    using Cons.prems(1) by (auto simp: list_all2_Cons1)
  show ?case
  proof (cases "length f \<le> m")
    case True
    let ?r = "r\<lparr>sr_rest := take (m - length f) (concat fs'), sr_entry := Some e, sr_err := None, sr_n := sr_n r + length f\<rparr>"
    have n: "sr_Next sn r = Inr (True, ?r)"
      using Cons.prems(2) True by (intro sr_Next_frame [OF e]) (simp add: fs)
    show ?thesis
    proof (cases "apply_entry h now e c")
      case (Inr p)
      obtain err c1 where p: "p = (err, c1)" by (cases p)
      have "load_loop sn h now ?r c1 = rbind (replay h now (take (complete (m - length f) fs') es) c1) (\<lambda>(err, c).
          Inr (err, if err \<noteq> None \<or> m - length f = length (concat (take (complete (m - length f) fs') fs')) then None
             else Some (sr_n ?r + length (concat (take (complete (m - length f) fs') fs'))), c))"
        using Cons.prems(3) True by (intro Cons.IH [OF es]) (simp_all add: fs)
      moreover have "m - length f = x \<longleftrightarrow> m = length f + x" for x using True by auto
      ultimately show ?thesis
        by (cases err) (simp_all add: load_loop.simps [of sn h now r] n sr_Read_def Inr p True fs add.assoc cong: if_cong)
    qed (simp add: load_loop.simps [of sn h now r] n sr_Read_def True fs)
  next
    case False
    then have r: "sr_rest r = take m f" using Cons.prems(2) by (simp add: fs)
    show ?thesis
    proof (cases "m = 0")
      case True
      then show ?thesis using r False by (simp add: load_loop.simps [of sn h now r] sr_Next_end fs)
    next
      case nz: False
      then obtain r' err where "sr_Next sn r = Inr (True, r')" "sr_err r' = Some err" "sr_n r' = sr_n r"
        using sr_Next_partial [OF e r] False r by fastforce
      then show ?thesis using False nz by (simp add: load_loop.simps [of sn h now r] sr_Read_def sr_Count_def fs)
    qed
  qed
qed

lemma load_file_prefix:
  assumes fs: "list_all2 (frame_of sn) es fs" and m: "m \<le> length (concat fs)"
  shows "load_file sn h now (take m (concat fs)) c = rbind (replay h now (take (complete m fs) es) c) (\<lambda>(err, c).
    Inr (err, if err = None then concat (take (complete m fs) fs) else take m (concat fs), c))"
proof -
  let ?n = "length (concat (take (complete m fs) fs))"
  have cut: "take ?n (concat fs) = concat (take (complete m fs) fs)"
    by (metis append_eq_conv_conj append_take_drop_id concat_append)
  have n: "?n \<le> m" by (rule complete_le)
  show ?thesis
  proof (cases "m = 0")
    case True
    have "\<exists>z. f = frame (entry_Type e) z" if "frame_of sn e f" for e f using that by (auto simp: frame_of_def)
    then have "complete 0 fs = 0" using fs by (cases fs) (auto simp: list_all2_Cons2 frame_def)
    then show ?thesis using True by (simp add: load_file_def)
  next
    case False
    have "length (take m (concat fs)) = m" using m by simp
    then have ne: "take m (concat fs) \<noteq> []" using False by force
    have "take ?n (take m (concat fs)) = concat (take (complete m fs) fs)" using n cut by (simp add: min_def)
    moreover have "take m (concat fs) = concat (take (complete m fs) fs)" if "m = ?n" using that cut by simp
    ultimately show ?thesis
      using load_loop_prefix [OF fs _ m, of "NewWALSegmentReader (take m (concat fs))" h now c] ne
      by (cases "replay h now (take (complete m fs) es) c")
         (auto simp: load_file_def NewWALSegmentReader_def split: option.splits)
  qed
qed

subsection \<open>Loading arbitrary files\<close>

lemma Exclude_total: "sl_wf a \<Longrightarrow> \<exists>b. vs_Exclude ts mn mx a = Inr b"
  using Exclude_meets [of a ts mn mx] Exclude_apart [of ts mn mx a] by (cases "meets ts mn mx (sl_list a)") auto

lemma delete_key_total: "\<exists>c'. delete_key h mn mx k c = Inr c'"
proof -
  have "\<exists>e'. entry_filter mn mx e = Inr e'" for e
  proof -
    have "\<exists>b. vs_Exclude Value_nano mn mx (slice_of v) = Inr b" for v by (rule Exclude_total) simp
    then obtain b where "vs_Exclude Value_nano mn mx (slice_of
      (if length (e_values e) > 1 then vs_Deduplicate Value_nano (e_values e) else e_values e)) = Inr b" by blast
    then show ?thesis by (simp add: entry_filter_def Let_def)
  qed
  then obtain f where "\<And>e. entry_filter mn mx e = Inr (f e)" by metis
  then show ?thesis by (cases "st_entry h (c_store c) k") (simp_all add: delete_key_def Let_def)
qed

lemma delete_loop_total: "\<exists>c'. delete_loop h ks mn mx c = Inr c'"
proof (induction ks arbitrary: c)
  case (Cons k ks)
  obtain c' where "delete_key h mn mx k c = Inr c'" using delete_key_total by blast
  then show ?case using Cons.IH [of c'] by simp
qed simp

lemma apply_entry_total: "\<exists>err c'. apply_entry h now e c = Inr (err, c')"
proof -
  obtain f where "\<And>ks mn mx c. delete_loop h ks mn mx c = Inr (f ks mn mx c)"
    using delete_loop_total [of h] by metis
  then show ?thesis
    by (cases e) (simp_all add: apply_entry_def c_Delete_def c_DeleteRange_def)
qed

lemma next_entry_total: "\<exists>r'. next_entry sn lv r = Inr r' \<and> (sr_err r' = None \<longrightarrow> sr_entry r' \<noteq> None)"
proof (cases "unat (be_u32 (drop 1 lv)) \<le> length (sr_rest r)")
  case True
  let ?b = "take (unat (be_u32 (drop 1 lv))) (sr_rest r)"
  show ?thesis
  proof (cases "sn_decode sn ?b")
    case (Inr data)
    from entry_Unmarshal_ok [of "lv ! 0" data] show ?thesis
      using True Inr by (auto simp: next_entry_def Let_def ReadFull_def)
  qed (use True in \<open>simp add: next_entry_def Let_def ReadFull_def\<close>)
qed (simp add: next_entry_def Let_def ReadFull_def)

lemma sr_Next_total:
  "\<exists>ok r'. sr_Next sn r = Inr (ok, r') \<and> (ok \<longrightarrow> sr_err r' = None \<longrightarrow> sr_entry r' \<noteq> None)"
proof (cases "5 \<le> length (sr_rest r)")
  case True
  from next_entry_total [of sn "take 5 (sr_rest r)" "r\<lparr>sr_rest := drop 5 (sr_rest r)\<rparr>"] obtain r' :: segment_reader
    where "next_entry sn (take 5 (sr_rest r)) (r\<lparr>sr_rest := drop 5 (sr_rest r)\<rparr>) = Inr r'"
      "sr_err r' = None \<longrightarrow> sr_entry r' \<noteq> None" by (elim exE conjE)
  then show ?thesis
    using True by (intro exI [of _ True] exI [of _ r']) (simp add: sr_Next_def ReadFull_def)
next
  case False
  then show ?thesis by (cases "sr_rest r = []") (auto simp: sr_Next_def ReadFull_def)
qed

lemma load_loop_total: "\<exists>err trunc c'. load_loop sn h now r c = Inr (err, trunc, c')"
proof (induction sn h now r c rule: load_loop.induct)
  case (1 sn h now r c)
  obtain ok and r' :: segment_reader where n: "sr_Next sn r = Inr (ok, r')" "ok \<Longrightarrow> sr_err r' = None \<Longrightarrow> sr_entry r' \<noteq> None"
    using sr_Next_total [of sn r] by (elim exE conjE) simp
  show ?case
  proof (cases "ok \<and> sr_err r' = None")
    case True
    then obtain e where e: "sr_Read r' = Inr (Some e)" using n(2) by (auto simp: sr_Read_def)
    obtain err c' where a: "apply_entry h now e c = Inr (err, c')" using apply_entry_total [of h now e c] by blast
    show ?thesis
    proof (cases err)
      case None
      then show ?thesis
        using "1.IH" [OF n(1) refl _ e refl a [unfolded None] refl] True
        by (simp add: load_loop.simps [of sn h now r] n(1) e a)
    qed (use True in \<open>simp add: load_loop.simps [of sn h now r] n(1) e a\<close>)
  qed (auto simp: load_loop.simps [of sn h now r] n(1) sr_Read_def)
qed

lemma load_file_total: "\<exists>err file' c'. load_file sn h now file c = Inr (err, file', c') \<and> (\<exists>n. file' = take n file)"
proof (cases "file = []")
  case False
  obtain err trunc c' where "load_loop sn h now (NewWALSegmentReader file) c = Inr (err, trunc, c')"
    using load_loop_total by blast
  moreover have "\<exists>n. file = take n file" by (rule exI [of _ "length file"]) simp
  ultimately show ?thesis using False by (cases trunc) (auto simp: load_file_def)
qed (simp add: load_file_def)

text \<open>
  C38. Loading ends and never panics, whatever bytes the files hold and whatever the decompressor returns:
  it stops with an error of the cache or reaches the last file, and all it does to a file is cut off a tail.
\<close>

theorem load_total:
  "\<exists>err files' c'. cl_Load sn h now files c = Inr (err, files', c') \<and> list_all2 (\<lambda>f' f. \<exists>n. f' = take n f) files' files"
proof (induction files arbitrary: c)
  case (Cons f files)
  obtain err f' c1 where f: "load_file sn h now f c = Inr (err, f', c1)" "\<exists>n. f' = take n f"
    using load_file_total by blast
  obtain err2 files' c2 where r: "cl_Load sn h now files c1 = Inr (err2, files', c2)"
    "list_all2 (\<lambda>f' f. \<exists>n. f' = take n f) files' files" using Cons.IH by blast
  have "list_all2 (\<lambda>f' f. \<exists>n. f' = take n f) files files"
    by (rule list_all2_refl) (metis order_refl take_all)
  then show ?case using f r by (cases err) simp_all
qed simp

end
