(* ===== verification/WalLog.thy ===== *)
theory WalLog
  imports WalSegment
begin

text \<open>
  The log of \<open>src/backend/tsdb/engine/tsm1/wal.go\<close>: a directory of segment files of which the last one is being
  written, the writers that wait for their entry to be synced, and the goroutine that syncs for them.

  A file is named by its number; \<open>segment_name\<close> gives the name, and the files of the directory are taken in the
  order of their names, as the code does. A file that is being written has been opened at some offset; what the
  writer passes on lands from there on, and a gap behind the end of the file reads as zeros. Operations hold the
  mutex of the log and are atomic; what happens between them are the steps at the end. Operations on the
  directory and on files do not fail.
\<close>

unbundle bit_operations_syntax

subsection \<open>File names\<close>

fun digits :: "nat \<Rightarrow> u8 list" where
  "digits n = (if n < 10 then [of_nat (48 + n)] else digits (n div 10) @ [of_nat (48 + n mod 10)])"

declare digits.simps [simp del]

text \<open>\<open>_%05d.wal\<close>\<close>

definition segment_name :: "nat \<Rightarrow> u8 list" where
  "segment_name segid = 95 # replicate (5 - length (digits segid)) 48 @ digits segid @ [46, 119, 97, 108]"

text \<open>\<open>strconv.ParseUint\<close> in base 10 with 32 bits.\<close>

definition ParseUint32 :: "u8 list \<Rightarrow> nat res" where
  "ParseUint32 s =
     (if s = [] \<or> \<not> list_all (\<lambda>c. 48 \<le> c \<and> c \<le> 57) s then Inl (Err ''invalid syntax'')
      else let v = foldl (\<lambda>a c. 10 * a + (unat c - 48)) 0 s
           in if v < 4294967296 then Inr v else Inl (Err ''value out of range''))"

definition idFromFileName :: "u8 list \<Rightarrow> nat res" where
  "idFromFileName name =
     (let parts = bytes_Split 46 name
      in if length parts \<noteq> 2 then Inl (Err ''file has wrong name format to have an id'')
         else if parts ! 0 = [] then Inl Panic
         else ParseUint32 (drop 1 (parts ! 0)))"

definition segmentFileNames :: "(nat \<times> u8 list) list \<Rightarrow> (nat \<times> u8 list) list" where
  "segmentFileNames files = sort_key (\<lambda>f. segment_name (fst f)) files"

subsection \<open>The log\<close>

text \<open>
  A file that is open for writing: its number, its contents when it was opened, the offset of the writer, the
  writer, and how many of the bytes that the writer passed on are known to be on disk.
\<close>

record open_segment =
  os_id :: nat
  os_base :: "u8 list"
  os_off :: nat
  os_writer :: segment_writer
  os_synced :: nat

definition overlay :: "u8 list \<Rightarrow> nat \<Rightarrow> u8 list \<Rightarrow> u8 list" where
  "overlay base off out =
     (if out = [] then base
      else take off (base @ replicate (off - length base) 0) @ out @ drop (off + length out) base)"

definition os_disk :: "open_segment \<Rightarrow> u8 list" where
  "os_disk c = overlay (os_base c) (os_off c) (sw_file (os_writer c))"

text \<open>The goroutine that syncs: \<open>syncCount\<close> is 1 unless it is \<open>NoSync\<close>; \<open>Leaving\<close> it has seen that the log is closed.\<close>

datatype syncer = NoSync | Syncing | Leaving

record WAL =
  wal_files :: "(nat \<times> u8 list) list"
  wal_segmentID :: nat
  wal_current :: "open_segment option"
  wal_SegmentSize :: nat
  wal_closing :: bool
  wal_once :: bool
  wal_syncer :: syncer
  wal_waiters :: "nat list"
  wal_notified :: "nat list"

definition NewWAL :: "(nat \<times> u8 list) list \<Rightarrow> nat \<Rightarrow> WAL" where
  "NewWAL files sz =
     \<lparr>wal_files = files, wal_segmentID = 0, wal_current = None, wal_SegmentSize = sz, wal_closing = False,
      wal_once = False, wal_syncer = NoSync, wal_waiters = [], wal_notified = []\<rparr>"

definition wal_Open :: "WAL \<Rightarrow> WAL res" where
  "wal_Open l =
     (let segments = segmentFileNames (wal_files l);
          l' = l\<lparr>wal_closing := False\<rparr>
      in if segments = [] then Inr l'
         else case last segments of (n, content) \<Rightarrow>
           rbind (idFromFileName (segment_name n)) (\<lambda>segid.
             let l' = l'\<lparr>wal_segmentID := segid, wal_files := filter (\<lambda>f. fst f \<noteq> n) (wal_files l)\<rparr>
             in Inr (if content = [] then l'
                     else l'\<lparr>wal_current := Some \<lparr>os_id = n, os_base = content, os_off = length content,
                            os_writer = NewWALSegmentWriter\<lparr>sw_size := length content\<rparr>, os_synced = 0\<rparr>\<rparr>)))"

text \<open>\<open>sync\<close> dereferences the current writer; everyone who waits is told that the sync is done.\<close>

definition wal_sync :: "WAL \<Rightarrow> WAL res" where
  "wal_sync l =
     (case wal_current l of
        None \<Rightarrow> Inl Panic
      | Some c \<Rightarrow>
          let w = sw_sync (os_writer c)
          in Inr (l\<lparr>wal_current := Some (c\<lparr>os_writer := w, os_synced := length (sw_file w)\<rparr>),
                    wal_waiters := [], wal_notified := wal_notified l @ wal_waiters l\<rparr>))"

definition closeCurrentSegmentFile :: "WAL \<Rightarrow> WAL res" where
  "closeCurrentSegmentFile l =
     (if wal_current l = None then Inr l
      else rbind (wal_sync l) (\<lambda>l.
             case wal_current l of
               None \<Rightarrow> Inl Panic
             | Some c \<Rightarrow> Inr (l\<lparr>wal_files := wal_files l @ [(os_id c, os_disk c)], wal_current := None\<rparr>)))"

text \<open>An existing file of the name would be opened at its start without being truncated.\<close>

definition newSegmentFile :: "WAL \<Rightarrow> WAL res" where
  "newSegmentFile l =
     rbind (closeCurrentSegmentFile (l\<lparr>wal_segmentID := wal_segmentID l + 1\<rparr>)) (\<lambda>l.
       let n = wal_segmentID l;
           old = (case map_of (wal_files l) n of None \<Rightarrow> [] | Some b \<Rightarrow> b)
       in Inr (l\<lparr>wal_files := filter (\<lambda>f. fst f \<noteq> n) (wal_files l),
                 wal_current := Some \<lparr>os_id = n, os_base = old, os_off = 0,
                                      os_writer = NewWALSegmentWriter, os_synced = 0\<rparr>\<rparr>))"

definition rollSegment :: "WAL \<Rightarrow> WAL res" where
  "rollSegment l =
     (case wal_current l of
        None \<Rightarrow> newSegmentFile l
      | Some c \<Rightarrow> if sw_size (os_writer c) > wal_SegmentSize l then newSegmentFile l else Inr l)"

definition CloseSegment :: "WAL \<Rightarrow> WAL res" where
  "CloseSegment l =
     (case wal_current l of
        None \<Rightarrow> newSegmentFile l
      | Some c \<Rightarrow> if sw_size (os_writer c) > 0 then newSegmentFile l else Inr l)"

definition CloseAllSegments :: "WAL \<Rightarrow> WAL res" where
  "CloseAllSegments l = closeCurrentSegmentFile l"

definition ClosedSegments :: "WAL \<Rightarrow> nat list" where
  "ClosedSegments l = map fst (segmentFileNames (wal_files l))"

definition wal_Remove :: "nat list \<Rightarrow> WAL \<Rightarrow> WAL" where
  "wal_Remove files l = l\<lparr>wal_files := filter (\<lambda>f. fst f \<notin> set files) (wal_files l)\<rparr>"

definition wal_Close :: "WAL \<Rightarrow> WAL res" where
  "wal_Close l =
     rbind (closeCurrentSegmentFile l) (\<lambda>l.
       Inr (if wal_once l then l else l\<lparr>wal_closing := True, wal_once := True\<rparr>))"

definition scheduleSync :: "WAL \<Rightarrow> WAL" where
  "scheduleSync l = (if wal_syncer l = NoSync then l\<lparr>wal_syncer := Syncing\<rparr> else l)"

text \<open>
  \<open>writeToLog\<close> up to the point where the caller \<open>me\<close> waits to be told that its entry is synced. The two
  buffers come from a pool. When 1024 callers wait already, an error is returned for an entry that is in the log.
\<close>

definition put_entry :: "u8 \<Rightarrow> u8 list \<Rightarrow> nat \<Rightarrow> WAL \<Rightarrow> nat res \<times> WAL" where
  "put_entry entryType compressed me l =
     (case wal_current l of
        None \<Rightarrow> (Inl Panic, l)
      | Some c \<Rightarrow>
          let l = l\<lparr>wal_current := Some (c\<lparr>os_writer := sw_Write entryType compressed (os_writer c)\<rparr>)\<rparr>
          in if length (wal_waiters l) \<ge> 1024 then (Inl (Err ''error syncing wal''), l)
             else (Inr (wal_segmentID l), scheduleSync (l\<lparr>wal_waiters := wal_waiters l @ [me]\<rparr>)))"

definition writeToLog :: "snappy \<Rightarrow> u8 list \<Rightarrow> u8 list \<Rightarrow> WALEntry \<Rightarrow> nat \<Rightarrow> WAL \<Rightarrow> nat res \<times> WAL" where
  "writeToLog sn bytes encBuf e me l =
     (case entry_Encode e bytes of
        Inl err \<Rightarrow> (Inl err, l)
      | Inr b \<Rightarrow>
          if sn_max_len sn (length b) = None then (Inl Panic, l)
          else if wal_closing l then (Inl (Err ''WAL closed''), l)
          else case rollSegment l of
                 Inl err \<Rightarrow> (Inl err, l)
               | Inr l \<Rightarrow>
                   put_entry (entry_Type e) (fst (sn_encode sn encBuf b)) me l)"

definition wal_WriteMulti :: "snappy \<Rightarrow> u8 list \<Rightarrow> u8 list \<Rightarrow> write_entry \<Rightarrow> nat \<Rightarrow> WAL \<Rightarrow> nat res \<times> WAL" where
  "wal_WriteMulti sn bytes encBuf vals me l = writeToLog sn bytes encBuf (WriteWALEntry vals) me l"

definition wal_Delete :: "snappy \<Rightarrow> u8 list \<Rightarrow> u8 list \<Rightarrow> key list \<Rightarrow> nat \<Rightarrow> WAL \<Rightarrow> nat res \<times> WAL" where
  "wal_Delete sn bytes encBuf ks me l =
     (if ks = [] then (Inr 0, l) else writeToLog sn bytes encBuf (DeleteWALEntry ks) me l)"

definition wal_DeleteRange :: "snappy \<Rightarrow> u8 list \<Rightarrow> u8 list \<Rightarrow> delete_range \<Rightarrow> nat \<Rightarrow> WAL \<Rightarrow> nat res \<times> WAL" where
  "wal_DeleteRange sn bytes encBuf d me l =
     (if dr_Keys d = [] then (Inr 0, l) else writeToLog sn bytes encBuf (DeleteRangeWALEntry d) me l)"

text \<open>One round of the goroutine of \<open>scheduleSync\<close> when its timer fires.\<close>

definition sync_tick :: "WAL \<Rightarrow> WAL res" where
  "sync_tick l = (if wal_waiters l = [] then Inr (l\<lparr>wal_syncer := NoSync\<rparr>) else wal_sync l)"

subsection \<open>Names and numbers\<close>

text \<open>Decimal digits to a fixed width.\<close>

fun width_digits :: "nat \<Rightarrow> nat \<Rightarrow> u8 list" where
  "width_digits 0 n = []"
| "width_digits (Suc w) n = width_digits w (n div 10) @ [of_nat (48 + n mod 10)]"

lemma length_width_digits [simp]: "length (width_digits w n) = w"
  by (induction w arbitrary: n) simp_all

lemma width_digits_0: "width_digits w 0 = replicate w 48"
  by (induction w) (simp_all add: replicate_append_same)

lemma digits_width: "0 < w \<Longrightarrow> n < 10 ^ w \<Longrightarrow> replicate (w - length (digits n)) 48 @ digits n = width_digits w n \<and> length (digits n) \<le> w"
proof (induction n arbitrary: w rule: digits.induct)
  case (1 n)
  obtain v where w: "w = Suc v" using "1.prems"(1) by (cases w) auto
  show ?case
  proof (cases "n < 10")
    case True
    then show ?thesis by (simp add: digits.simps [of n] w width_digits_0)
  next
    case False
    then have v: "0 < v" "n div 10 < 10 ^ v" using "1.prems"(2) by (auto simp: w intro!: gr0I)
    from "1.IH" [OF False v] show ?thesis by (simp add: digits.simps [of n] w False)
  qed
qed

lemma digit_less: "a < 10 \<Longrightarrow> b < 10 \<Longrightarrow> (of_nat (48 + a) :: u8) < of_nat (48 + b) \<longleftrightarrow> a < b"
  by (simp add: word_less_nat_alt unat_of_nat_u8 del: of_nat_add)

lemma less_append: "length x = length y \<Longrightarrow> x < y \<Longrightarrow> x @ xs < y @ (ys :: 'a :: linorder list)"
  by (induction x y rule: list_induct2) auto

lemma append_less: "(x @ xs < x @ (ys :: 'a :: linorder list)) = (xs < ys)"
  by (induction x) auto

lemma width_digits_less: "i < j \<Longrightarrow> j < 10 ^ w \<Longrightarrow> width_digits w i < width_digits w j"
proof (induction w arbitrary: i j)
  case (Suc w)
  consider "i div 10 < j div 10" | "i div 10 = j div 10" "i mod 10 < j mod 10"
    using Suc.prems(1) by (metis div_le_mono le_neq_implies_less less_imp_le_nat mod_div_decomp nat_add_left_cancel_less)
  then show ?case
  proof cases
    case 1
    moreover have "j div 10 < 10 ^ w" using Suc.prems(2) by (simp add: less_mult_imp_div_less mult.commute)
    ultimately show ?thesis using Suc.IH by (simp add: less_append)
  next
    case 2
    then show ?thesis using digit_less [of "i mod 10" "j mod 10"] by (simp add: append_less del: of_nat_add)
  qed
qed simp

lemma segment_name_width: "n < 100000 \<Longrightarrow> segment_name n = 95 # width_digits 5 n @ [46, 119, 97, 108]"
  using digits_width [of 5 n] by (simp add: segment_name_def flip: append_assoc)

lemma segment_name_less: "i < j \<Longrightarrow> j < 100000 \<Longrightarrow> segment_name i < segment_name j"
  using width_digits_less [of i j 5] by (simp add: segment_name_width less_append)

lemma digits_chars: "list_all (\<lambda>c. 48 \<le> c \<and> c \<le> 57) (digits n)"
proof (induction n rule: digits.induct)
  case (1 n)
  have "48 \<le> (of_nat (48 + d) :: u8) \<and> (of_nat (48 + d) :: u8) \<le> 57" if "d < 10" for d
    using that by (simp add: word_le_nat_alt unat_of_nat_u8 del: of_nat_add)
  then show ?case using 1 by (cases "n < 10") (simp_all add: digits.simps [of n] del: of_nat_add)
qed

lemma digits_value: "foldl (\<lambda>a c. 10 * a + (unat c - 48)) 0 (digits n) = n"
proof (induction n rule: digits.induct)
  case (1 n)
  then show ?case by (cases "n < 10") (simp_all add: digits.simps [of n] unat_of_nat_u8 del: of_nat_add)
qed

lemma zeros_value: "foldl (\<lambda>a c. 10 * a + (unat c - 48)) 0 (replicate k (48 :: u8)) = (0 :: nat)"
  by (induction k) simp_all

lemma idFromFileName_segment_name:
  assumes "n < 4294967296"
  shows "idFromFileName (segment_name n) = Inr n"
proof -
  let ?ds = "replicate (5 - length (digits n)) 48 @ digits n"
  have chars: "list_all (\<lambda>c. 48 \<le> c \<and> c \<le> 57) ?ds" using digits_chars [of n] by (auto simp: list_all_iff)
  have "46 \<notin> set (digits n)" using digits_chars [of n] unfolding list_all_iff by force
  then have "46 \<notin> set (95 # ?ds)" by simp
  then have "bytes_Split 46 ((95 # ?ds) @ 46 # [119, 97, 108]) = [95 # ?ds, [119, 97, 108]]"
    by (subst bytes_Split_append) simp_all
  moreover have "segment_name n = (95 # ?ds) @ 46 # [119, 97, 108]" by (simp add: segment_name_def)
  moreover have "digits n \<noteq> []" by (simp add: digits.simps [of n])
  ultimately show ?thesis
    using assms chars by (simp add: idFromFileName_def ParseUint32_def digits_value zeros_value)
qed

subsection \<open>What the log holds\<close>

definition encodes :: "snappy \<Rightarrow> WALEntry list \<Rightarrow> u8 list \<Rightarrow> bool" where
  "encodes sn es b \<longleftrightarrow> (\<exists>fs. list_all2 (frame_of sn) es fs \<and> b = concat fs)"

text \<open>
  The log holds the entries of its closed files \<open>ess\<close>, those that the current file had when it was opened and
  those that were written to it since. \<open>n\<close> entries are safe: a crash does not lose them.
\<close>

fun current_holds :: "snappy \<Rightarrow> open_segment option \<Rightarrow> WALEntry list \<Rightarrow> nat \<Rightarrow> bool" where
  "current_holds sn None es n \<longleftrightarrow> es = [] \<and> n = 0"
| "current_holds sn (Some c) es n \<longleftrightarrow>
     (\<exists>old new fs. es = old @ new \<and> encodes sn old (os_base c) \<and> os_off c = length (os_base c) \<and>
        list_all2 (frame_of sn) new fs \<and> sw_content (os_writer c) = concat fs \<and>
        sw_size (os_writer c) = length (os_base c) + length (concat fs) \<and> os_synced c \<le> length (sw_file (os_writer c)) \<and> n = length old + complete (os_synced c) fs)"

declare current_holds.simps(2) [simp del]

definition log_holds :: "snappy \<Rightarrow> WAL \<Rightarrow> WALEntry list \<Rightarrow> nat \<Rightarrow> bool" where
  "log_holds sn l es n \<longleftrightarrow>
     (\<exists>ess cur k. es = concat ess @ cur \<and> list_all2 (\<lambda>es f. encodes sn es (snd f)) ess (wal_files l) \<and>
        current_holds sn (wal_current l) cur k \<and> n = length (concat ess) + k)"

definition current_ids :: "WAL \<Rightarrow> nat list" where
  "current_ids l = (case wal_current l of None \<Rightarrow> [] | Some c \<Rightarrow> [os_id c])"

definition numbered :: "WAL \<Rightarrow> bool" where
  "numbered l \<longleftrightarrow> sorted_wrt (<) (map fst (wal_files l) @ current_ids l) \<and>
     (\<forall>n\<in>set (map fst (wal_files l) @ current_ids l). n \<le> wal_segmentID l) \<and> wal_segmentID l < 100000"

text \<open>The callers: those who were told are safe, those who wait are in the log, and someone will sync for them.\<close>

definition callers_ok :: "nat \<Rightarrow> (nat \<times> WALEntry) list \<Rightarrow> nat \<Rightarrow> WAL \<Rightarrow> bool" where
  "callers_ok m log n l \<longleftrightarrow> set (wal_notified l) \<subseteq> fst ` set (take (n - m) log) \<and> set (wal_waiters l) \<subseteq> fst ` set log \<and>
     (wal_waiters l \<noteq> [] \<longrightarrow> wal_current l \<noteq> None \<and> wal_syncer l = Syncing \<and> \<not> wal_closing l) \<and>
     (wal_syncer l = Leaving \<longrightarrow> wal_closing l)"

text \<open>
  The invariant: the log holds what was in it when it was opened, \<open>es0\<close>, and what was written since, except for
  the first \<open>q\<close> entries, whose segments have been removed.
\<close>

definition log_ok :: "snappy \<Rightarrow> nat \<Rightarrow> WALEntry list \<Rightarrow> (nat \<times> WALEntry) list \<Rightarrow> WAL \<Rightarrow> bool" where
  "log_ok sn q es0 log l \<longleftrightarrow> numbered l \<and> q \<le> length es0 + length log \<and>
     (\<exists>n. log_holds sn l (drop q (es0 @ map snd log)) n \<and> length es0 \<le> q + n \<and> callers_ok (length es0) log (q + n) l)"

lemma encodes_append: "encodes sn es b \<Longrightarrow> list_all2 (frame_of sn) es' fs \<Longrightarrow> encodes sn (es @ es') (b @ concat fs)"
  unfolding encodes_def by (metis concat_append list_all2_appendI)

lemma current_holds_le: "current_holds sn c es n \<Longrightarrow> n \<le> length es"
proof (cases c)
  case (Some s)
  assume "current_holds sn c es n"
  then obtain old new fs where "es = old @ new" "list_all2 (frame_of sn) new fs" "n = length old + complete (os_synced s) fs"
    by (auto simp: Some current_holds.simps(2))
  then show ?thesis using complete_le(1) [of "os_synced s" fs] list_all2_lengthD by fastforce
qed simp

lemma overlay_end: "overlay base (length base) out = base @ out"
  by (simp add: overlay_def)

lemma current_synced:
  assumes "current_holds sn (Some c) es n"
  defines "c' \<equiv> c\<lparr>os_writer := sw_sync (os_writer c), os_synced := length (sw_file (sw_sync (os_writer c)))\<rparr>"
  shows "current_holds sn (Some c') es (length es)" "encodes sn es (os_disk c')"
proof -
  obtain old new fs where h: "es = old @ new" "encodes sn old (os_base c)" "os_off c = length (os_base c)"
    "list_all2 (frame_of sn) new fs" "sw_content (os_writer c) = concat fs" "sw_size (os_writer c) = length (os_base c) + length (concat fs)" using assms(1) unfolding current_holds.simps(2) by blast
  have "complete (length (concat fs)) fs = length new" using h(4) by (simp add: complete_all list_all2_lengthD)
  then show "current_holds sn (Some c') es (length es)"
    unfolding current_holds.simps(2)
    by (intro exI [of _ old] exI [of _ new] exI [of _ fs]) (simp add: h c'_def)
  show "encodes sn es (os_disk c')"
    using encodes_append [OF h(2,4)] h by (simp add: os_disk_def c'_def overlay_end)
qed

text \<open>Everyone who was waiting has been told, and nothing else about the callers has changed.\<close>

definition all_told :: "WAL \<Rightarrow> WAL \<Rightarrow> bool" where
  "all_told l l' \<longleftrightarrow> wal_waiters l' = [] \<and> wal_notified l' = wal_notified l @ wal_waiters l \<and> wal_syncer l' = wal_syncer l \<and>
     wal_closing l' = wal_closing l \<and> wal_once l' = wal_once l \<and> wal_SegmentSize l' = wal_SegmentSize l"

lemma wal_sync_holds:
  assumes "log_holds sn l es n" "wal_current l = Some c"
  defines "c' \<equiv> c\<lparr>os_writer := sw_sync (os_writer c), os_synced := length (sw_file (sw_sync (os_writer c)))\<rparr>"
  shows "\<exists>l'. wal_sync l = Inr l' \<and> wal_current l' = Some c' \<and> log_holds sn l' es (length es) \<and> wal_files l' = wal_files l \<and>
    wal_segmentID l' = wal_segmentID l \<and> all_told l l'"
proof -
  obtain ess cur k where h: "es = concat ess @ cur" "list_all2 (\<lambda>es f. encodes sn es (snd f)) ess (wal_files l)"
    "current_holds sn (Some c) cur k" using assms(1,2) by (auto simp: log_holds_def)
  have "log_holds sn (l\<lparr>wal_current := Some c', wal_waiters := [], wal_notified := wal_notified l @ wal_waiters l\<rparr>) es (length es)"
    unfolding log_holds_def c'_def
    by (rule exI [of _ ess], rule exI [of _ cur], rule exI [of _ "length cur"]) (use h current_synced(1) [OF h(3)] in simp)
  then show ?thesis by (simp add: wal_sync_def assms(2) Let_def c'_def all_told_def)
qed

lemma log_holds_closed: "log_holds sn l es n \<Longrightarrow> wal_current l = None \<Longrightarrow> n = length es"
  by (auto simp: log_holds_def)

lemma closeCurrent_holds:
  assumes "log_holds sn l es n" "wal_current l = None \<Longrightarrow> wal_waiters l = []"
  shows "\<exists>l'. closeCurrentSegmentFile l = Inr l' \<and> wal_current l' = None \<and> log_holds sn l' es (length es) \<and>
    map fst (wal_files l') = map fst (wal_files l) @ current_ids l \<and> wal_segmentID l' = wal_segmentID l \<and> all_told l l'"
proof (cases "wal_current l")
  case None
  then show ?thesis
    using assms log_holds_closed by (auto simp: closeCurrentSegmentFile_def current_ids_def all_told_def)
next
  case (Some c)
  let ?c = "c\<lparr>os_writer := sw_sync (os_writer c), os_synced := length (sw_file (sw_sync (os_writer c)))\<rparr>"
  obtain l1 where l1: "wal_sync l = Inr l1" "wal_current l1 = Some ?c" "wal_files l1 = wal_files l"
    "wal_segmentID l1 = wal_segmentID l" "all_told l l1" using wal_sync_holds [OF assms(1) Some] by blast
  obtain ess cur k where h: "es = concat ess @ cur" "list_all2 (\<lambda>es f. encodes sn es (snd f)) ess (wal_files l)"
    "current_holds sn (Some c) cur k" using assms(1) by (auto simp: log_holds_def Some)
  let ?l = "l1\<lparr>wal_files := wal_files l1 @ [(os_id ?c, os_disk ?c)], wal_current := None\<rparr>"
  have "list_all2 (\<lambda>es f. encodes sn es (snd f)) (ess @ [cur]) (wal_files ?l)"
    using h(2) current_synced(2) [OF h(3)] l1(3) by (simp add: list_all2_appendI)
  then have "log_holds sn ?l es (length es)"
    unfolding log_holds_def using h(1) by (intro exI [of _ "ess @ [cur]"] exI [of _ "[]"] exI [of _ 0]) simp
  moreover have "closeCurrentSegmentFile l = Inr ?l" using l1(1,2) by (simp add: closeCurrentSegmentFile_def Some)
  ultimately show ?thesis using l1(3-5) by (simp add: current_ids_def Some all_told_def)
qed

lemma numbered_bound: "numbered l \<Longrightarrow> n \<in> set (map fst (wal_files l) @ current_ids l) \<Longrightarrow> n < 100000"
  unfolding numbered_def using le_less_trans by blast

lemma numbered_closed:
  assumes "numbered l" "map fst (wal_files l') = map fst (wal_files l) @ current_ids l"
    "wal_segmentID l' = wal_segmentID l" "wal_current l' = None"
  shows "numbered l'"
  using assms by (simp add: numbered_def current_ids_def)

lemma fresh_current: "current_holds sn (Some \<lparr>os_id = n, os_base = [], os_off = 0, os_writer = NewWALSegmentWriter, os_synced = 0\<rparr>) [] 0"
  unfolding current_holds.simps(2)
  by (intro exI [of _ "[]"]) (simp add: encodes_def NewWALSegmentWriter_def sw_content_def)

lemma newSegment_holds:
  assumes "log_holds sn l es n" "wal_current l = None \<Longrightarrow> wal_waiters l = []" "numbered l" "wal_segmentID l + 1 < 100000"
  shows "\<exists>l' c. newSegmentFile l = Inr l' \<and> wal_current l' = Some c \<and> log_holds sn l' es (length es) \<and> numbered l' \<and>
    wal_segmentID l' = wal_segmentID l + 1 \<and> all_told l l'"
proof -
  let ?l = "l\<lparr>wal_segmentID := wal_segmentID l + 1\<rparr>"
  have "log_holds sn ?l es n" using assms(1) by (simp add: log_holds_def)
  from closeCurrent_holds [OF this] assms(2) obtain l1 where l1: "closeCurrentSegmentFile ?l = Inr l1"
    "wal_current l1 = None" "log_holds sn l1 es (length es)" "map fst (wal_files l1) = map fst (wal_files l) @ current_ids l"
    "wal_segmentID l1 = wal_segmentID l + 1" "all_told ?l l1" by (auto simp: current_ids_def)
  have old: "\<forall>i\<in>set (map fst (wal_files l1)). i \<le> wal_segmentID l" "sorted_wrt (<) (map fst (wal_files l1))"
    using assms(3) unfolding numbered_def l1(4) by blast+
  have "map_of (wal_files l1) (wal_segmentID l1) = None" using old(1) by (force simp: map_of_eq_None_iff l1(5))
  moreover have same: "filter (\<lambda>f. fst f \<noteq> wal_segmentID l1) (wal_files l1) = wal_files l1"
    using old(1) by (force simp: filter_id_conv l1(5))
  moreover have "log_holds sn (l1\<lparr>wal_files := wal_files l1, wal_current := Some \<lparr>os_id = wal_segmentID l1, os_base = [], os_off = 0,
      os_writer = NewWALSegmentWriter, os_synced = 0\<rparr>\<rparr>) es (length es)"
    using l1(2,3) fresh_current by (fastforce simp: log_holds_def)
  moreover have "numbered (l1\<lparr>wal_files := wal_files l1, wal_current := Some \<lparr>os_id = wal_segmentID l1, os_base = [], os_off = 0,
      os_writer = NewWALSegmentWriter, os_synced = 0\<rparr>\<rparr>)"
    using old assms(4) by (auto simp: numbered_def current_ids_def sorted_wrt_append l1(5))
  ultimately show ?thesis using l1 by (simp add: newSegmentFile_def Let_def all_told_def)
qed

lemma complete_append: "complete m fs \<le> complete m (fs @ gs)"
  by (induction fs arbitrary: m) auto

lemma write_holds:
  assumes "log_holds sn l es n" "wal_current l = Some c" "frame_of sn e (frame t z)"
  shows "\<exists>n'\<ge>n. log_holds sn (l\<lparr>wal_current := Some (c\<lparr>os_writer := sw_Write t z (os_writer c)\<rparr>)\<rparr>) (es @ [e]) n'"
proof -
  obtain ess cur k where h: "es = concat ess @ cur" "list_all2 (\<lambda>es f. encodes sn es (snd f)) ess (wal_files l)"
    "current_holds sn (Some c) cur k" "n = length (concat ess) + k" using assms(1,2) by (auto simp: log_holds_def)
  obtain old new fs where c: "cur = old @ new" "encodes sn old (os_base c)" "os_off c = length (os_base c)"
    "list_all2 (frame_of sn) new fs" "sw_content (os_writer c) = concat fs"
    "sw_size (os_writer c) = length (os_base c) + length (concat fs)" "os_synced c \<le> length (sw_file (os_writer c))"
    "k = length old + complete (os_synced c) fs" using h(3) unfolding current_holds.simps(2) by blast
  let ?c = "c\<lparr>os_writer := sw_Write t z (os_writer c)\<rparr>" and ?fs = "fs @ [frame t z]"
  let ?k = "length old + complete (os_synced c) ?fs"
  obtain q where q: "sw_file (sw_Write t z (os_writer c)) = sw_file (os_writer c) @ q" using sw_Write_content(2) by blast
  have "current_holds sn (Some ?c) (cur @ [e]) ?k"
    unfolding current_holds.simps(2)
    by (intro exI [of _ old] exI [of _ "new @ [e]"] exI [of _ ?fs])
       (use c assms(3) q in \<open>simp add: sw_Write_content(1,3) list_all2_appendI\<close>)
  then have "log_holds sn (l\<lparr>wal_current := Some ?c\<rparr>) (es @ [e]) (length (concat ess) + ?k)"
    unfolding log_holds_def using h(1,2) by (intro exI [of _ ess] exI [of _ "cur @ [e]"] exI [of _ ?k]) simp
  moreover have "n \<le> length (concat ess) + ?k" using complete_append [of "os_synced c" fs] by (simp add: h(4) c(8))
  ultimately show ?thesis by blast
qed

lemma log_holds_le: "log_holds sn l es n \<Longrightarrow> n \<le> length es"
  using current_holds_le by (fastforce simp: log_holds_def)

lemma callers_ok_told:
  assumes "callers_ok m log n l" "all_told l l'"
  shows "callers_ok m log (m + length log) l'"
  using assms set_take_subset [of "n - m" log] by (fastforce simp: callers_ok_def all_told_def)

lemma callers_ok_later:
  assumes "callers_ok m log n l" "n \<le> n'"
  shows "callers_ok m (log @ log') n' l"
proof -
  have "take (n - m) log = take (min (n - m) (length log)) (take (n' - m) (log @ log'))"
    using assms(2) by (simp add: min_def)
  then have "set (take (n - m) log) \<subseteq> set (take (n' - m) (log @ log'))" by (metis set_take_subset)
  then show ?thesis using assms(1) by (fastforce simp: callers_ok_def)
qed

subsection \<open>Steps\<close>

text \<open>
  What can happen to an open log, with the entries that were written to it. The goroutine that syncs may fire
  its timer or see that the log is closed; it then stops in a second step. Numbers of segments stay below the
  width of their names.
\<close>

definition logged :: "nat res \<Rightarrow> bool" where
  "logged r \<longleftrightarrow> (case r of Inr _ \<Rightarrow> True | Inl e \<Rightarrow> e = Err ''error syncing wal'')"

inductive log_step :: "snappy \<Rightarrow> WAL \<times> (nat \<times> WALEntry) list \<Rightarrow> WAL \<times> (nat \<times> WALEntry) list \<Rightarrow> bool" for sn where
  log_write: "writeToLog sn bytes encBuf e me l = (r, l') \<Longrightarrow> storable e \<Longrightarrow>
    length (fst (sn_encode sn encBuf (entry_image e))) < 2 ^ 32 \<Longrightarrow> wal_segmentID l' < 100000 \<Longrightarrow>
    log_step sn (l, log) (l', if logged r then log @ [(me, e)] else log)"
| log_tick: "wal_syncer l = Syncing \<Longrightarrow> sync_tick l = Inr l' \<Longrightarrow> log_step sn (l, log) (l', log)"
| log_sees_closing: "wal_syncer l = Syncing \<Longrightarrow> wal_closing l \<Longrightarrow> log_step sn (l, log) (l\<lparr>wal_syncer := Leaving\<rparr>, log)"
| log_leaves: "wal_syncer l = Leaving \<Longrightarrow> log_step sn (l, log) (l\<lparr>wal_syncer := NoSync\<rparr>, log)"
| log_close_segment: "CloseSegment l = Inr l' \<Longrightarrow> wal_segmentID l' < 100000 \<Longrightarrow> log_step sn (l, log) (l', log)"
| log_close_all: "CloseAllSegments l = Inr l' \<Longrightarrow> log_step sn (l, log) (l', log)"
| log_close: "wal_Close l = Inr l' \<Longrightarrow> log_step sn (l, log) (l', log)"

inductive_cases log_stepE: "log_step sn (l, log) (l', log')"

lemma newSegmentFile_id: "newSegmentFile l = Inr l' \<Longrightarrow> wal_segmentID l' = wal_segmentID l + 1"
  by (auto simp: newSegmentFile_def closeCurrentSegmentFile_def wal_sync_def Let_def split: if_splits option.splits elim!: rbind_InrE)

lemma log_ok_no_current: "log_ok sn q es0 log l \<Longrightarrow> wal_current l = None \<Longrightarrow> wal_waiters l = []"
  by (auto simp: log_ok_def callers_ok_def)

lemma log_ok_told:
  assumes "log_ok sn q es0 log l" "log_holds sn l' (drop q (es0 @ map snd log)) (length (drop q (es0 @ map snd log)))" "numbered l'" "all_told l l'"
  shows "log_ok sn q es0 log l'"
proof -
  obtain n where n: "callers_ok (length es0) log (q + n) l" "q \<le> length es0 + length log" using assms(1) unfolding log_ok_def by blast
  have "q + length (drop q (es0 @ map snd log)) = length es0 + length log" using n(2) by simp
  with callers_ok_told [OF n(1) assms(4)] have
    "callers_ok (length es0) log (q + length (drop q (es0 @ map snd log))) l'" "length es0 \<le> q + length (drop q (es0 @ map snd log))"
    by (simp_all only: le_add1)
  then show ?thesis unfolding log_ok_def using assms(2,3) n(2) by blast
qed

lemma log_ok_new_segment:
  assumes "log_ok sn q es0 log l" "newSegmentFile l = Inr l'" "wal_segmentID l' < 100000"
  shows "log_ok sn q es0 log l' \<and> wal_current l' \<noteq> None \<and> all_told l l'"
proof -
  obtain n where n: "log_holds sn l (drop q (es0 @ map snd log)) n" "numbered l" using assms(1) by (auto simp: log_ok_def)
  have "wal_segmentID l + 1 < 100000" using newSegmentFile_id [OF assms(2)] assms(3) by simp
  from newSegment_holds [OF n(1) log_ok_no_current [OF assms(1)] n(2) this] show ?thesis
    using log_ok_told [OF assms(1)] assms(2) by auto
qed

lemma log_ok_close:
  assumes "log_ok sn q es0 log l"
  shows "\<exists>l'. closeCurrentSegmentFile l = Inr l' \<and> log_ok sn q es0 log l' \<and> all_told l l'"
proof -
  obtain n where n: "log_holds sn l (drop q (es0 @ map snd log)) n" "numbered l" using assms by (auto simp: log_ok_def)
  from closeCurrent_holds [OF n(1) log_ok_no_current [OF assms]] numbered_closed [OF n(2)] show ?thesis
    using log_ok_told [OF assms] by blast
qed

lemma log_ok_sync:
  assumes "log_ok sn q es0 log l" "wal_waiters l \<noteq> []"
  shows "\<exists>l'. wal_sync l = Inr l' \<and> log_ok sn q es0 log l' \<and> all_told l l'"
proof -
  obtain n where n: "log_holds sn l (drop q (es0 @ map snd log)) n" "numbered l" "callers_ok (length es0) log (q + n) l"
    using assms(1) unfolding log_ok_def by blast
  then obtain c where c: "wal_current l = Some c" using assms(2) by (auto simp: callers_ok_def)
  from wal_sync_holds [OF n(1) c] obtain l' where l': "wal_sync l = Inr l'" "log_holds sn l' (drop q (es0 @ map snd log)) (length (drop q (es0 @ map snd log)))"
    "all_told l l'" "wal_files l' = wal_files l" "wal_segmentID l' = wal_segmentID l" "current_ids l' = current_ids l"
    by (auto simp: current_ids_def c)
  then have "numbered l'" using n(2) by (simp add: numbered_def)
  then show ?thesis using log_ok_told [OF assms(1)] l' by blast
qed

lemma log_ok_write:
  assumes "log_ok sn q es0 log l" "wal_current l = Some c" "frame_of sn e (frame t z)" "\<not> wal_closing l"
  defines "l' \<equiv> l\<lparr>wal_current := Some (c\<lparr>os_writer := sw_Write t z (os_writer c)\<rparr>)\<rparr>"
  shows "log_ok sn q es0 (log @ [(me, e)]) l'" "log_ok sn q es0 (log @ [(me, e)]) (scheduleSync (l'\<lparr>wal_waiters := wal_waiters l' @ [me]\<rparr>))"
proof -
  obtain n where n: "log_holds sn l (drop q (es0 @ map snd log)) n" "numbered l" "length es0 \<le> q + n" "callers_ok (length es0) log (q + n) l"
    and q: "q \<le> length es0 + length log" using assms(1) unfolding log_ok_def by blast
  let ?es = "drop q (es0 @ map snd (log @ [(me, e)]))"
  have es: "?es = drop q (es0 @ map snd log) @ [e]" using q by simp
  obtain n' where n': "n \<le> n'" "log_holds sn l' ?es n'" unfolding es l'_def using write_holds [OF n(1) assms(2,3)] by blast
  have num: "numbered l'" using n(2) assms(2) by (simp add: l'_def numbered_def current_ids_def)
  have calls: "callers_ok (length es0) (log @ [(me, e)]) (q + n') l"
    using n'(1) by (intro callers_ok_later [OF n(4)]) simp
  have bounds: "q \<le> length es0 + length (log @ [(me, e)])" "length es0 \<le> q + n'" using q n(3) n'(1) by simp_all
  have "callers_ok (length es0) (log @ [(me, e)]) (q + n') l'" using calls by (simp add: callers_ok_def l'_def)
  with num n'(2) bounds show "log_ok sn q es0 (log @ [(me, e)]) l'" unfolding log_ok_def by blast
  let ?l = "scheduleSync (l'\<lparr>wal_waiters := wal_waiters l' @ [me]\<rparr>)"
  have "callers_ok (length es0) (log @ [(me, e)]) (q + n') ?l"
    using calls assms(4) by (cases "wal_syncer l") (auto simp: callers_ok_def scheduleSync_def l'_def)
  moreover have "numbered ?l" "log_holds sn ?l ?es n'"
    using num n'(2) by (simp_all add: scheduleSync_def numbered_def log_holds_def current_ids_def)
  ultimately show "log_ok sn q es0 (log @ [(me, e)]) ?l" using bounds unfolding log_ok_def by blast
qed

lemma newSegmentFile_Inl: "newSegmentFile l = Inl x \<Longrightarrow> x = Panic"
  by (auto simp: newSegmentFile_def closeCurrentSegmentFile_def wal_sync_def rbind_def Let_def split: if_splits option.splits sum.splits)

lemma put_entry_id: "put_entry t z me l = (r, l') \<Longrightarrow> wal_segmentID l' = wal_segmentID l"
  by (auto simp: put_entry_def scheduleSync_def Let_def split: option.splits if_splits)

lemma log_ok_roll:
  assumes "log_ok sn q es0 log l" "rollSegment l = Inr l'" "wal_segmentID l' < 100000"
  shows "log_ok sn q es0 log l' \<and> wal_current l' \<noteq> None \<and> wal_closing l' = wal_closing l"
  using assms log_ok_new_segment [OF assms(1)] by (auto simp: rollSegment_def all_told_def split: option.splits if_splits)

lemma log_ok_put:
  assumes "log_ok sn q es0 log l" "wal_current l \<noteq> None" "frame_of sn e (frame t z)" "\<not> wal_closing l"
    "put_entry t z me l = (r, l')"
  shows "logged r \<and> log_ok sn q es0 (log @ [(me, e)]) l'"
proof -
  obtain c where c: "wal_current l = Some c" using assms(2) by auto
  show ?thesis
    using log_ok_write [OF assms(1) c assms(3,4), of me] assms(5) by (auto simp: put_entry_def c Let_def logged_def split: if_splits)
qed

lemma log_ok_writeToLog:
  assumes ok: "log_ok sn q es0 log l" "snappy_inverse sn" "storable e" "length (fst (sn_encode sn encBuf (entry_image e))) < 2 ^ 32"
    and w: "writeToLog sn bytes encBuf e me l = (r, l')" "wal_segmentID l' < 100000"
  shows "log_ok sn q es0 (if logged r then log @ [(me, e)] else log) l'"
proof -
  let ?z = "fst (sn_encode sn encBuf (entry_image e))"
  have f: "frame_of sn e (frame (entry_Type e) ?z)" using ok(2-4) by (auto simp: frame_of_def snappy_inverse_def)
  note w' = w(1) [unfolded writeToLog_def entry_codec(1) [OF ok(3)], simplified]
  consider "sn_max_len sn (length (entry_image e)) = None" | "sn_max_len sn (length (entry_image e)) \<noteq> None" "wal_closing l"
    | x where "sn_max_len sn (length (entry_image e)) \<noteq> None" "\<not> wal_closing l" "rollSegment l = Inl x"
    | l1 where "sn_max_len sn (length (entry_image e)) \<noteq> None" "\<not> wal_closing l" "rollSegment l = Inr l1"
    by (cases "rollSegment l") blast+
  then show ?thesis
  proof cases
    case 3
    then have "x = Panic" using newSegmentFile_Inl by (auto simp: rollSegment_def split: option.splits if_splits)
    then show ?thesis using 3 w' ok(1) by (auto simp: logged_def)
  next
    case 4
    then have p: "put_entry (entry_Type e) ?z me l1 = (r, l')" using w' by auto
    have "wal_segmentID l1 < 100000" using put_entry_id [OF p] w(2) by simp
    from log_ok_roll [OF ok(1) 4(3) this] have "log_ok sn q es0 log l1" "wal_current l1 \<noteq> None" "\<not> wal_closing l1"
      using 4(2) by auto
    from log_ok_put [OF this(1,2) f this(3) p] show ?thesis by simp
  qed (use w' ok(1) in \<open>auto simp: logged_def\<close>)
qed

lemma log_ok_callers:
  assumes "log_ok sn q es0 log l" "wal_waiters l = []" "s = Leaving \<Longrightarrow> c"
  shows "log_ok sn q es0 log (l\<lparr>wal_syncer := s, wal_closing := c, wal_once := d\<rparr>)"
  using assms by (auto simp: log_ok_def log_holds_def callers_ok_def numbered_def current_ids_def)

lemma log_ok_step:
  assumes "log_step sn (l, log) (l', log')" "log_ok sn q es0 log l" "snappy_inverse sn"
  shows "log_ok sn q es0 log' l'"
  using assms(1)
proof cases
  case (log_write bytes encBuf e me r)
  then show ?thesis using log_ok_writeToLog [OF assms(2,3)] by blast
next
  case log_tick
  then show ?thesis
    using log_ok_sync [OF assms(2)] log_ok_callers [OF assms(2), of NoSync "wal_closing l" "wal_once l"]
    by (cases "wal_waiters l = []") (auto simp: sync_tick_def)
next
  case log_sees_closing
  moreover have "wal_waiters l = []" using log_sees_closing assms(2) by (auto simp: log_ok_def callers_ok_def)
  moreover have "l\<lparr>wal_syncer := Leaving, wal_closing := wal_closing l, wal_once := wal_once l\<rparr> = l\<lparr>wal_syncer := Leaving\<rparr>" by simp
  ultimately show ?thesis using log_ok_callers [OF assms(2), of Leaving "wal_closing l" "wal_once l"] by metis
next
  case log_leaves
  moreover have "wal_waiters l = []" using log_leaves assms(2) by (auto simp: log_ok_def callers_ok_def)
  ultimately show ?thesis using log_ok_callers [OF assms(2), of NoSync "wal_closing l" "wal_once l"] by simp
next
  case log_close_segment
  then show ?thesis
    using assms(2) log_ok_new_segment [OF assms(2)] by (auto simp: CloseSegment_def split: option.splits if_splits)
next
  case log_close_all
  then show ?thesis using log_ok_close [OF assms(2)] by (auto simp: CloseAllSegments_def)
next
  case log_close
  obtain l1 where "closeCurrentSegmentFile l = Inr l1" "log_ok sn q es0 log l1" "wal_waiters l1 = []"
    using log_ok_close [OF assms(2)] by (auto simp: all_told_def)
  then show ?thesis
    using log_close log_ok_callers [of sn q es0 log l1 "wal_syncer l1" True True] by (auto simp: wal_Close_def split: if_splits)
qed

inductive log_reach :: "snappy \<Rightarrow> WAL \<Rightarrow> WAL \<times> (nat \<times> WALEntry) list \<Rightarrow> bool" for sn l0 where
  log_start: "log_reach sn l0 (l0, [])"
| log_next: "log_reach sn l0 s \<Longrightarrow> log_step sn s s' \<Longrightarrow> log_reach sn l0 s'"

lemma log_reach_ok:
  assumes "log_reach sn l0 s" "log_ok sn q es0 [] l0" "snappy_inverse sn"
  shows "log_ok sn q es0 (snd s) (fst s)"
  using assms
proof (induction rule: log_reach.induct)
  case (log_next s s')
  then show ?case using log_ok_step [of sn "fst s" "snd s" "fst s'" "snd s'"] by simp
qed simp

subsection \<open>Opening\<close>

definition directory_ok :: "snappy \<Rightarrow> WALEntry list list \<Rightarrow> (nat \<times> u8 list) list \<Rightarrow> bool" where
  "directory_ok sn ess files \<longleftrightarrow> sorted_wrt (<) (map fst files) \<and> list_all (\<lambda>f. fst f < 100000) files \<and>
     list_all2 (\<lambda>es f. encodes sn es (snd f)) ess files"

lemma sorted_segments:
  "sorted_wrt (<) (map fst files) \<Longrightarrow> \<forall>n\<in>set (map fst files). n < 100000 \<Longrightarrow> segmentFileNames files = files"
proof -
  assume a: "sorted_wrt (<) (map fst files)" "\<forall>n\<in>set (map fst files). n < 100000"
  have "sorted (map (\<lambda>f. segment_name (fst f)) files)"
    using a by (induction files) (force dest: segment_name_less)+
  then show ?thesis unfolding segmentFileNames_def by (rule sort_key_id_if_sorted)
qed

lemma wal_Open_ok:
  assumes "directory_ok sn ess files"
  shows "\<exists>l. wal_Open (NewWAL files sz) = Inr l \<and> log_ok sn 0 (concat ess) [] l"
proof (cases files rule: rev_cases)
  case Nil
  then show ?thesis
    using assms by (auto simp: wal_Open_def NewWAL_def segmentFileNames_def log_ok_def directory_ok_def numbered_def current_ids_def
      log_holds_def callers_ok_def)
next
  case (snoc fs f)
  obtain n b where f: "f = (n, b)" by (cases f)
  have ids: "sorted_wrt (<) (map fst files)" "\<forall>n\<in>set (map fst files). n < 100000"
    using assms by (auto simp: directory_ok_def list_all_iff)
  have n: "n < 100000" "\<forall>i\<in>set (map fst fs). i < n" "sorted_wrt (<) (map fst fs)"
    using ids by (auto simp: snoc f sorted_wrt_append)
  obtain ess' es where ess: "ess = ess' @ [es]" "list_all2 (\<lambda>es f. encodes sn es (snd f)) ess' fs" "encodes sn es b"
    using assms by (auto simp: directory_ok_def snoc f list_all2_append2 list_all2_Cons2)
  have rest: "filter (\<lambda>g. fst g \<noteq> n) files = fs" using n(2) by (force simp: snoc f filter_id_conv)
  let ?c = "\<lparr>os_id = n, os_base = b, os_off = length b, os_writer = NewWALSegmentWriter\<lparr>sw_size := length b\<rparr>, os_synced = 0\<rparr>"
  have cur: "current_holds sn (Some ?c) es (length es)"
    unfolding current_holds.simps(2)
    by (intro exI [of _ es] exI [of _ "[]"]) (simp add: ess(3) NewWALSegmentWriter_def sw_content_def)
  have b: "es = []" if "b = []"
  proof -
    obtain fs where fs: "list_all2 (frame_of sn) es fs" "b = concat fs" using ess(3) by (auto simp: encodes_def)
    then show ?thesis using that by (cases fs) (auto simp: list_all2_Cons2 frame_of_def frame_def)
  qed
  have "idFromFileName (segment_name n) = Inr n" using n(1) by (intro idFromFileName_segment_name) simp
  then have op: "wal_Open (NewWAL files sz) = Inr ((NewWAL fs sz)\<lparr>wal_segmentID := n, wal_current := if b = [] then None else Some ?c\<rparr>)"
    using rest sorted_segments [OF ids] by (simp add: wal_Open_def Let_def NewWAL_def snoc f)
  have "log_holds sn ((NewWAL fs sz)\<lparr>wal_segmentID := n, wal_current := if b = [] then None else Some ?c\<rparr>) (concat ess) (length (concat ess))"
    unfolding log_holds_def
    by (rule exI [of _ ess'], rule exI [of _ es], rule exI [of _ "length es"]) (use ess b cur in \<open>simp add: NewWAL_def\<close>)
  then show ?thesis
    unfolding op log_ok_def using n by (auto simp: NewWAL_def numbered_def current_ids_def sorted_wrt_append callers_ok_def less_imp_le)
qed

subsection \<open>Crashes\<close>

text \<open>
  After a crash the closed files are as they were, and of the bytes that were passed on to the current one
  a prefix that contains the synced ones has reached the disk.
\<close>

definition crash_files :: "nat \<Rightarrow> WAL \<Rightarrow> (nat \<times> u8 list) list" where
  "crash_files m l = wal_files l @ (case wal_current l of None \<Rightarrow> [] | Some c \<Rightarrow>
     [(os_id c, overlay (os_base c) (os_off c) (take m (sw_file (os_writer c))))])"

definition may_crash :: "nat \<Rightarrow> WAL \<Rightarrow> bool" where
  "may_crash m l \<longleftrightarrow> (case wal_current l of None \<Rightarrow> True | Some c \<Rightarrow> os_synced c \<le> m)"

text \<open>The outcome of loading without the contents of the files.\<close>

definition loaded :: "snappy \<Rightarrow> (key \<Rightarrow> u64) \<Rightarrow> int \<Rightarrow> u8 list list \<Rightarrow> Cache \<Rightarrow> (tsm_err option \<times> Cache) res" where
  "loaded sn h now files c = rbind (cl_Load sn h now files c) (\<lambda>(err, files, c). Inr (err, c))"

lemma replay_append:
  "replay h now (es @ es') c = rbind (replay h now es c) (\<lambda>(err, c). if err = None then replay h now es' c else Inr (err, c))"
proof (induction es arbitrary: c)
  case (Cons e es)
  then show ?case by (cases "apply_entry h now e c") auto
qed simp

lemma loaded_file:
  assumes "list_all2 (frame_of sn) es fs" "m \<le> length (concat fs)"
  shows "loaded sn h now (take m (concat fs) # files) c =
    rbind (replay h now (take (complete m fs) es) c) (\<lambda>(err, c). if err = None then loaded sn h now files c else Inr (err, c))"
  by (cases "replay h now (take (complete m fs) es) c"; cases "cl_Load sn h now files (snd (projr (replay h now (take (complete m fs) es) c)))")
     (auto simp: loaded_def load_file_prefix [OF assms])

lemma loaded_files:
  "list_all2 (encodes sn) ess bs \<Longrightarrow> loaded sn h now (bs @ files) c =
    rbind (replay h now (concat ess) c) (\<lambda>(err, c). if err = None then loaded sn h now files c else Inr (err, c))"
proof (induction ess arbitrary: bs c)
  case (Cons es ess)
  obtain b bs' fs where b: "bs = b # bs'" "list_all2 (encodes sn) ess bs'" "list_all2 (frame_of sn) es fs" "b = concat fs"
    using Cons.prems unfolding list_all2_Cons1 encodes_def [of sn es] by blast
  have "complete (length (concat fs)) fs = length es" using b(3) by (simp add: complete_all list_all2_lengthD)
  then have "loaded sn h now (b # (bs' @ files)) c =
      rbind (replay h now es c) (\<lambda>(err, c). if err = None then loaded sn h now (bs' @ files) c else Inr (err, c))"
    using loaded_file [OF b(3) order_refl, of h now "bs' @ files" c] by (simp add: b(4))
  then show ?case
    using Cons.IH [OF b(2)] by (cases "replay h now es c") (auto simp: b(1) replay_append)
qed simp

lemma complete_offset: "complete (length (concat fs) + m) (fs @ gs) = length fs + complete m gs"
  by (induction fs) (simp_all add: add.assoc)

lemma complete_mono: "m \<le> m' \<Longrightarrow> complete m fs \<le> complete m' fs"
  by (induction fs arbitrary: m m') auto

lemma current_crash:
  assumes "current_holds sn (Some c) es n" "os_synced c \<le> m"
  shows "\<exists>k\<ge>n. \<forall>h now cache. loaded sn h now [overlay (os_base c) (os_off c) (take m (sw_file (os_writer c)))] cache = replay h now (take k es) cache"
proof -
  obtain old new fs where h: "es = old @ new" "encodes sn old (os_base c)" "os_off c = length (os_base c)"
    "list_all2 (frame_of sn) new fs" "sw_content (os_writer c) = concat fs"
    "sw_size (os_writer c) = length (os_base c) + length (concat fs)" "os_synced c \<le> length (sw_file (os_writer c))"
    "n = length old + complete (os_synced c) fs" using assms(1) unfolding current_holds.simps(2) by blast
  obtain gs where g: "list_all2 (frame_of sn) old gs" "os_base c = concat gs" using h(2) by (auto simp: encodes_def)
  let ?m = "min m (length (sw_file (os_writer c)))"
  let ?M = "length (concat gs) + ?m"
  have passed: "take ?m (concat fs) = take m (sw_file (os_writer c))" "?m \<le> length (concat fs)"
    unfolding h(5) [symmetric] by (simp_all add: sw_content_def sw_file_def min_def)
  then have disk: "overlay (os_base c) (os_off c) (take m (sw_file (os_writer c))) = take ?M (concat (gs @ fs))"
    by (simp add: h(3) overlay_end g(2))
  have all: "list_all2 (frame_of sn) es (gs @ fs)" unfolding h(1) using g(1) h(4) by (rule list_all2_appendI)
  have "loaded sn h now [take ?M (concat (gs @ fs))] cache = replay h now (take (complete ?M (gs @ fs)) es) cache" for h now cache
    using loaded_file [OF all, of ?M h now "[]" cache] passed(2)
    by (cases "replay h now (take (complete ?M (gs @ fs)) es) cache") (auto simp: loaded_def)
  moreover have "n \<le> complete ?M (gs @ fs)"
    unfolding complete_offset h(8) using complete_mono [of "os_synced c" ?m fs] assms(2) h(7) list_all2_lengthD [OF g(1)] by simp
  ultimately show ?thesis unfolding disk by blast
qed

lemma log_crash:
  assumes "log_holds sn l es n" "numbered l" "may_crash m l"
  shows "\<exists>k\<ge>n. \<forall>h now c. loaded sn h now (map snd (segmentFileNames (crash_files m l))) c = replay h now (take k es) c"
proof -
  obtain ess cur j where h: "es = concat ess @ cur" "list_all2 (\<lambda>es f. encodes sn es (snd f)) ess (wal_files l)"
    "current_holds sn (wal_current l) cur j" "n = length (concat ess) + j" using assms(1) by (auto simp: log_holds_def)
  have "map fst (crash_files m l) = map fst (wal_files l) @ current_ids l"
    by (simp add: crash_files_def current_ids_def split: option.splits)
  then have seg: "segmentFileNames (crash_files m l) = crash_files m l"
    using assms(2) numbered_bound [OF assms(2)] by (intro sorted_segments) (auto simp: numbered_def)
  have bs: "list_all2 (encodes sn) ess (map snd (wal_files l))" using h(2) by (simp add: list_all2_map2)
  show ?thesis
  proof (cases "wal_current l")
    case None
    have "loaded sn h now (map snd (crash_files m l)) c = replay h now (take (length es) es) c" for h now c
      using loaded_files [OF bs, of h now "[]" c] h(1,3) None
      by (cases "replay h now (concat ess) c") (auto simp: crash_files_def loaded_def)
    moreover have "n \<le> length es" by (rule log_holds_le [OF assms(1)])
    ultimately show ?thesis unfolding seg by blast
  next
    case (Some s)
    from current_crash [OF h(3) [unfolded Some], of m] assms(3) obtain k where k: "j \<le> k"
      "\<And>h now c. loaded sn h now [overlay (os_base s) (os_off s) (take m (sw_file (os_writer s)))] c = replay h now (take k cur) c"
      by (auto simp: may_crash_def Some)
    have "loaded sn h now (map snd (crash_files m l)) c = replay h now (take (length (concat ess) + k) es) c" for h now c
      using loaded_files [OF bs, of h now "[overlay (os_base s) (os_off s) (take m (sw_file (os_writer s)))]" c]
      by (simp add: crash_files_def Some k(2) h(1) replay_append cong: if_cong)
    moreover have "n \<le> length (concat ess) + k" using k(1) by (simp add: h(4))
    ultimately show ?thesis unfolding seg by blast
  qed
qed

subsection \<open>Nobody waits forever\<close>

definition pending :: "WAL \<Rightarrow> nat set" where
  "pending l = set (wal_waiters l) \<union> set (wal_notified l)"

lemma pending_told: "all_told l l' \<Longrightarrow> pending l' = pending l \<and> pending l' = set (wal_notified l')"
  by (auto simp: all_told_def pending_def)

lemma pending_put: "put_entry t z me l = (r, l') \<Longrightarrow> pending l \<subseteq> pending l'"
  by (auto simp: put_entry_def scheduleSync_def pending_def Let_def split: option.splits if_splits)

lemma pending_roll:
  assumes "log_ok sn q es0 log l" "rollSegment l = Inr l'" "wal_segmentID l' < 100000"
  shows "pending l' = pending l"
  using assms log_ok_new_segment [OF assms(1)] pending_told by (fastforce simp: rollSegment_def split: option.splits if_splits)

lemma pending_write:
  assumes "log_ok sn q es0 log l" "writeToLog sn bytes encBuf e me l = (r, l')" "wal_segmentID l' < 100000"
  shows "pending l \<subseteq> pending l'"
proof (cases "entry_Encode e bytes")
  case (Inr b)
  show ?thesis
  proof (cases "sn_max_len sn (length b) = None \<or> wal_closing l")
    case False
    show ?thesis
    proof (cases "rollSegment l")
      case roll: (Inr l1)
      have p: "put_entry (entry_Type e) (fst (sn_encode sn encBuf b)) me l1 = (r, l')"
        using assms(2) False by (auto simp: writeToLog_def Inr roll)
      have "wal_segmentID l1 < 100000" using put_entry_id [OF p] assms(3) by simp
      then show ?thesis using pending_roll [OF assms(1) roll] pending_put [OF p] by simp
    qed (use assms(2) Inr False in \<open>auto simp: writeToLog_def\<close>)
  qed (use assms(2) Inr in \<open>auto simp: writeToLog_def split: if_splits\<close>)
qed (use assms(2) in \<open>simp add: writeToLog_def\<close>)

lemma pending_step:
  assumes "log_step sn (l, log) (l', log')" "log_ok sn q es0 log l"
  shows "pending l \<subseteq> pending l'"
  using assms(1)
proof cases
  case (log_write bytes encBuf e me r)
  then show ?thesis using pending_write [OF assms(2)] by blast
next
  case log_tick
  then show ?thesis
    using log_ok_sync [OF assms(2)] pending_told by (cases "wal_waiters l = []") (fastforce simp: sync_tick_def pending_def)+
next
  case log_close_segment
  then show ?thesis
    using log_ok_new_segment [OF assms(2)] pending_told by (fastforce simp: CloseSegment_def split: option.splits if_splits)
next
  case log_close_all
  then show ?thesis using log_ok_close [OF assms(2)] pending_told by (fastforce simp: CloseAllSegments_def)
next
  case log_close
  obtain l1 where "closeCurrentSegmentFile l = Inr l1" "all_told l l1" using log_ok_close [OF assms(2)] by blast
  then show ?thesis using log_close pending_told [of l l1] by (auto simp: wal_Close_def pending_def split: if_splits)
qed (auto simp: pending_def)

subsection \<open>Properties\<close>


definition sample_entry :: WALEntry where
  "sample_entry = WriteWALEntry [([97], [IntegerValue 1 1])]"

definition sample_written :: WAL where
  "sample_written = snd (writeToLog stored [] [] sample_entry 7 (NewWAL [] 10))"

definition sample_synced :: WAL where
  "sample_synced = projr (sync_tick sample_written)"

lemma stored_inverse: "snappy_inverse stored"
  by (simp add: snappy_inverse_def stored_def)

lemmas log_eval =
  writeToLog_def NewWAL_def rollSegment_def newSegmentFile_def closeCurrentSegmentFile_def put_entry_def scheduleSync_def
  sync_tick_def wal_sync_def sw_Write_def sw_sync_def sw_file_def bufio_Write_def bufio_Flush_def bufio_size_def NewWALSegmentWriter_def

lemma sample_entry_codec:
  "storable sample_entry" "entry_Encode sample_entry dst = Inr (entry_image sample_entry)" "length (entry_image sample_entry) = 24"
  "entry_Type sample_entry = 1"
proof -
  show st: "storable sample_entry" by (simp add: sample_entry_def storable_values_def one_type_def)
  show "entry_Encode sample_entry dst = Inr (entry_image sample_entry)" by (rule entry_codec(1) [OF st])
qed (simp_all add: sample_entry_def key_image_def value_image_def WriteWALEntryType_def)

lemma sample_written_eq:
  "writeToLog stored [] [] sample_entry 7 (NewWAL [] 10) = (Inr 1, sample_written)"
  "sample_written = \<lparr>wal_files = [], wal_segmentID = 1, wal_current = Some \<lparr>os_id = 1, os_base = [], os_off = 0,
     os_writer = \<lparr>sw_bw = (frame 1 (entry_image sample_entry), []), sw_size = 29\<rparr>, os_synced = 0\<rparr>,
     wal_SegmentSize = 10, wal_closing = False, wal_once = False, wal_syncer = Syncing, wal_waiters = [7], wal_notified = []\<rparr>"
  by (simp_all add: sample_written_def log_eval sample_entry_codec stored_def frame_def)

lemma sample_synced_eq:
  "sync_tick sample_written = Inr sample_synced"
  "sample_synced = sample_written\<lparr>wal_current := Some \<lparr>os_id = 1, os_base = [], os_off = 0,
     os_writer = \<lparr>sw_bw = ([], frame 1 (entry_image sample_entry)), sw_size = 29\<rparr>, os_synced = 29\<rparr>,
     wal_waiters := [], wal_notified := [7]\<rparr>"
  by (simp_all add: sample_synced_def sample_written_eq(2) log_eval length_frame sample_entry_codec)

lemma sample_steps:
  "log_step stored (NewWAL [] 10, []) (sample_written, [(7, sample_entry)])"
  "log_step stored (sample_written, [(7, sample_entry)]) (sample_synced, [(7, sample_entry)])"
proof -
  have "log_step stored (NewWAL [] 10, []) (sample_written, if logged (Inr 1) then [] @ [(7, sample_entry)] else [])"
    by (rule log_step.log_write [OF sample_written_eq(1)])
       (simp_all add: sample_entry_codec stored_def sample_written_eq(2))
  then show "log_step stored (NewWAL [] 10, []) (sample_written, [(7, sample_entry)])" by (simp add: logged_def)
  show "log_step stored (sample_written, [(7, sample_entry)]) (sample_synced, [(7, sample_entry)])"
    by (rule log_step.log_tick [OF _ sample_synced_eq(1)]) (simp add: sample_written_eq(2))
qed


text \<open>
  C3. Nobody waits forever. In every infinite run of a log in which the goroutine that syncs, as long as it runs,
  fires its timer again and again, everyone who waits for a sync is told sooner or later.
\<close>

theorem waiters_are_told:
  assumes "directory_ok sn ess files" "snappy_inverse sn" "wal_Open (NewWAL files sz) = Inr (fst (run 0))" "snd (run 0) = []"
    "\<And>i. log_step sn (run i) (run (Suc i))"
    "\<And>i. \<exists>j\<ge>i. wal_syncer (fst (run j)) = Syncing \<longrightarrow> sync_tick (fst (run j)) = Inr (fst (run (Suc j)))"
    "me \<in> set (wal_waiters (fst (run i)))"
  shows "\<exists>j\<ge>i. me \<in> set (wal_notified (fst (run j)))"
proof (rule ccontr)
  assume never: "\<not> ?thesis"
  have "log_ok sn 0 (concat ess) [] (fst (run 0))" using wal_Open_ok [OF assms(1), of sz] assms(3) by auto
  then have ok: "log_ok sn 0 (concat ess) (snd (run j)) (fst (run j))" for j
  proof (induction j)
    case (Suc j)
    then show ?case using log_ok_step [of sn "fst (run j)" "snd (run j)"] assms(2) assms(5) [of j] by simp
  qed (use assms(4) in simp)
  have "me \<in> pending (fst (run (i + d)))" for d
  proof (induction d)
    case (Suc d)
    then show ?case using pending_step [OF _ ok [of "i + d"], of "fst (run (Suc (i + d)))" "snd (run (Suc (i + d)))"] assms(5) [of "i + d"] by auto
  qed (use assms(7) in \<open>simp add: pending_def\<close>)
  note pend = this
  have wait: "me \<in> set (wal_waiters (fst (run j)))" if "i \<le> j" for j
  proof -
    have "me \<in> pending (fst (run j))" using pend [of "j - i"] that by simp
    then show ?thesis using never that by (auto simp: pending_def)
  qed
  obtain j where j: "i \<le> j" "wal_syncer (fst (run j)) = Syncing \<longrightarrow> sync_tick (fst (run j)) = Inr (fst (run (Suc j)))"
    using assms(6) by blast
  have ne: "wal_waiters (fst (run j)) \<noteq> []" using wait [OF j(1)] by auto
  then have "wal_sync (fst (run j)) = Inr (fst (run (Suc j)))"
    using j(2) ok [of j] by (auto simp: sync_tick_def log_ok_def callers_ok_def)
  then have "all_told (fst (run j)) (fst (run (Suc j)))" using log_ok_sync [OF ok ne] by auto
  then have "me \<in> set (wal_notified (fst (run (Suc j))))" using wait [OF j(1)] by (simp add: all_told_def)
  then show False using never j(1) by (meson le_SucI)
qed

definition sample_run :: "nat \<Rightarrow> WAL \<times> (nat \<times> WALEntry) list" where
  "sample_run i =
     (case i of
        0 \<Rightarrow> (NewWAL [] 10, [])
      | Suc 0 \<Rightarrow> (sample_written, [(7, sample_entry)])
      | Suc (Suc 0) \<Rightarrow> (sample_synced, [(7, sample_entry)])
      | Suc (Suc (Suc 0)) \<Rightarrow> (projr (sync_tick sample_synced), [(7, sample_entry)])
      | _ \<Rightarrow> (projr (CloseAllSegments (projr (sync_tick sample_synced))), [(7, sample_entry)]))"

theorem waiters_are_told_witness:
  "wal_waiters (fst (sample_run 1)) = [7] \<and> (\<exists>j\<ge>1. 7 \<in> set (wal_notified (fst (sample_run j))))"
proof -
  have w: "wal_waiters (fst (sample_run 1)) = [7]" by (simp add: sample_run_def sample_written_eq(2))
  have t: "sync_tick sample_synced = Inr (sample_synced\<lparr>wal_syncer := NoSync\<rparr>)" by (simp add: sync_tick_def sample_synced_eq(2))
  obtain z where z: "CloseAllSegments (sample_synced\<lparr>wal_syncer := NoSync\<rparr>) = Inr z" "CloseAllSegments z = Inr z" "wal_syncer z = NoSync"
    by (simp add: CloseAllSegments_def closeCurrentSegmentFile_def wal_sync_def Let_def sample_synced_eq(2) sample_written_eq(2))
  have far: "sample_run (Suc (Suc (Suc (Suc i)))) = (z, [(7, sample_entry)])" for i
    by (simp add: sample_run_def t z)
  have near: "sample_run 0 = (NewWAL [] 10, [])" "sample_run (Suc 0) = (sample_written, [(7, sample_entry)])"
    "sample_run (Suc (Suc 0)) = (sample_synced, [(7, sample_entry)])"
    "sample_run (Suc (Suc (Suc 0))) = (sample_synced\<lparr>wal_syncer := NoSync\<rparr>, [(7, sample_entry)])"
    by (simp_all add: sample_run_def t)
  have "wal_syncer sample_synced = Syncing" by (simp add: sample_synced_eq(2) sample_written_eq(2))
  note steps = sample_steps log_step.log_tick [OF this t] log_step.log_close_all [OF z(1)] log_step.log_close_all [OF z(2)]
  have step: "log_step stored (sample_run i) (sample_run (Suc i))" for i
  proof -
    consider "i = 0" | "i = Suc 0" | "i = Suc (Suc 0)" | "i = Suc (Suc (Suc 0))" | j where "i = Suc (Suc (Suc (Suc j)))"
      by (metis not0_implies_Suc)
    then show ?thesis by cases (simp_all only: near far steps)
  qed
  have fair: "\<exists>j\<ge>i. wal_syncer (fst (sample_run j)) = Syncing \<longrightarrow> sync_tick (fst (sample_run j)) = Inr (fst (sample_run (Suc j)))" for i
    by (rule exI [of _ "Suc (Suc (Suc (Suc i)))"]) (simp add: far z(3))
  have "wal_Open (NewWAL [] 10) = Inr (NewWAL [] 10)" by (simp add: wal_Open_def NewWAL_def segmentFileNames_def)
  then show ?thesis
    using waiters_are_told [OF _ stored_inverse _ _ step fair, of "[]" "[]" 10 7 1] w by (simp add: directory_ok_def near)
qed

end
