(* ===== verification/WalRecovery.thy ===== *)
theory WalRecovery
  imports WalLog
begin

text \<open>
  Recovery: \<open>Engine.reloadCache\<close> of \<open>src/backend/tsdb/engine/tsm1/engine.go\<close>, which loads the segments into the
  cache after the log was opened, and three ways in which recovery and reopening go wrong. After a crash in the
  middle of an entry the loader truncates the last segment, but the log has already placed its writer at
  the old end; what is written from then on stands behind a gap and is not found by the next recovery.
\<close>

unbundle bit_operations_syntax

definition all_files :: "WAL \<Rightarrow> (nat \<times> u8 list) list" where
  "all_files l = wal_files l @ (case wal_current l of None \<Rightarrow> [] | Some c \<Rightarrow> [(os_id c, os_disk c)])"

text \<open>
  The truncated files. Nothing has been written through the current writer when the loader runs, so the file is
  what it was when it was opened; its length changes, the offset of the writer does not.
\<close>

definition put_contents :: "(nat \<times> u8 list) list \<Rightarrow> WAL \<Rightarrow> WAL" where
  "put_contents contents l =
     l\<lparr>wal_files := map (\<lambda>(n, b). (n, case map_of contents n of None \<Rightarrow> b | Some b' \<Rightarrow> b')) (wal_files l),
       wal_current := map_option (\<lambda>c. c\<lparr>os_base := case map_of contents (os_id c) of None \<Rightarrow> os_base c | Some b' \<Rightarrow> b'\<rparr>)
                        (wal_current l)\<rparr>"

definition reloadCache ::
  "snappy \<Rightarrow> (key \<Rightarrow> u64) \<Rightarrow> int \<Rightarrow> WAL \<Rightarrow> Cache \<Rightarrow> (tsm_err option \<times> WAL \<times> Cache) res" where
  "reloadCache sn h now l c =
     (let files = segmentFileNames (all_files l);
          limit = c_maxSize c
      in rbind (cl_Load sn h now (map snd files) (c_SetMaxSize 0 c)) (\<lambda>(err, contents, c).
           Inr (err, put_contents (zip (map fst files) contents) l, c_SetMaxSize limit c)))"

text \<open>The part of \<open>Engine.Open\<close> that concerns the log and the cache.\<close>

definition open_log ::
  "snappy \<Rightarrow> (key \<Rightarrow> u64) \<Rightarrow> int \<Rightarrow> WAL \<Rightarrow> Cache \<Rightarrow> (tsm_err option \<times> WAL \<times> Cache) res" where
  "open_log sn h now l c = rbind (wal_Open l) (\<lambda>l. reloadCache sn h now l c)"

subsection \<open>Intact files\<close>

lemma cl_Load_intact:
  "list_all2 (encodes sn) ess bs \<Longrightarrow> replay h now (concat ess) c = Inr (None, c') \<Longrightarrow> cl_Load sn h now bs c = Inr (None, bs, c')"
proof (induction ess arbitrary: bs c)
  case (Cons es ess)
  obtain b bs' fs where b: "bs = b # bs'" "list_all2 (encodes sn) ess bs'" "list_all2 (frame_of sn) es fs" "b = concat fs"
    using Cons.prems(1) unfolding list_all2_Cons1 encodes_def [of sn es] by blast
  have len: "complete (length (concat fs)) fs = length es" "length fs = length es"
    using b(3) by (simp_all add: complete_all list_all2_lengthD)
  obtain c1 where c1: "replay h now es c = Inr (None, c1)" "replay h now (concat ess) c1 = Inr (None, c')"
    using Cons.prems(2) by (auto simp: replay_append split: if_splits elim!: rbind_InrE)
  have "load_file sn h now b c = Inr (None, b, c1)"
    using load_file_prefix [OF b(3) order_refl, of h now c] by (simp add: len b(4) c1(1))
  then show ?case using Cons.IH [OF b(2) c1(2)] by (simp add: b(1))
qed simp

subsection \<open>Bytes that are not an entry\<close>

text \<open>Entries followed by bytes that do not start an entry: the loader replays the entries and stops.\<close>

lemma load_loop_then:
  "list_all2 (frame_of sn) es fs \<Longrightarrow> sr_rest r = concat fs @ tail \<Longrightarrow>
   \<exists>r'. sr_rest r' = tail \<and> load_loop sn h now r c = rbind (replay h now es c) (\<lambda>(err, c).
     if err = None then load_loop sn h now r' c else Inr (err, None, c))"
proof (induction es arbitrary: fs r c)
  case (Cons e es)
  obtain f fs' where fs: "fs = f # fs'" and e: "frame_of sn e f" and es: "list_all2 (frame_of sn) es fs'"
    using Cons.prems(1) by (auto simp: list_all2_Cons1)
  let ?r = "r\<lparr>sr_rest := concat fs' @ tail, sr_entry := Some e, sr_err := None, sr_n := sr_n r + length f\<rparr>"
  have n: "sr_Next sn r = Inr (True, ?r)"
    using Cons.prems(2) by (intro sr_Next_frame [OF e]) (simp add: fs)
  note step = load_loop.simps [of sn h now r, unfolded n, simplified sr_Read_def, simplified]
  show ?case
  proof (cases "apply_entry h now e c")
    case (Inl x)
    then show ?thesis by (intro exI [of _ "?r\<lparr>sr_rest := tail\<rparr>"]) (simp add: step)
  next
    case (Inr p)
    obtain err c1 where p: "p = (err, c1)" by (cases p)
    obtain r' where "sr_rest r' = tail" "load_loop sn h now ?r c1 = rbind (replay h now es c1) (\<lambda>(err, c).
        if err = None then load_loop sn h now r' c else Inr (err, None, c))" using Cons.IH [OF es, of ?r c1] by auto
    then show ?thesis by (intro exI [of _ r']) (cases err; simp add: step Inr p)
  qed
qed auto

lemma load_loop_zero:
  assumes "sr_rest r = 0 # rest"
  shows "\<exists>n. load_loop sn h now r c = Inr (None, Some n, c)"
proof -
  have bad: "entry_Unmarshal 0 data = Inl (Err ''unknown wal entry type'')" for data
    by (simp add: entry_Unmarshal_def wal_types)
  have "\<exists>r' e. sr_Next sn r = Inr (True, r') \<and> sr_err r' = Some e"
  proof (cases "5 \<le> length (sr_rest r)")
    case True
    let ?lv = "take 5 (sr_rest r)" and ?q = "r\<lparr>sr_rest := drop 5 (sr_rest r)\<rparr>"
    have lv: "?lv ! 0 = 0" using assms True by simp
    have "\<exists>r' e. next_entry sn ?lv ?q = Inr r' \<and> sr_err r' = Some e"
    proof (cases "unat (be_u32 (drop 1 ?lv)) \<le> length (drop 5 (sr_rest r))")
      case fits: True
      then show ?thesis
        by (cases "sn_decode sn (take (unat (be_u32 (drop 1 ?lv))) (drop 5 (sr_rest r)))")
           (simp_all add: next_entry_def Let_def ReadFull_def lv bad)
    qed (simp add: next_entry_def Let_def ReadFull_def)
    then show ?thesis using True by (auto simp: sr_Next_def ReadFull_def)
  qed (simp add: sr_Next_def ReadFull_def assms)
  then show ?thesis by (auto simp: load_loop.simps [of sn h now r] sr_Read_def)
qed

lemma loaded_then_zero:
  assumes "list_all2 (frame_of sn) es fs"
  shows "loaded sn h now [concat fs @ 0 # rest] c = replay h now es c"
proof -
  let ?r = "NewWALSegmentReader (concat fs @ 0 # rest)"
  obtain r' where r': "sr_rest r' = 0 # rest" "load_loop sn h now ?r c = rbind (replay h now es c) (\<lambda>(err, c).
      if err = None then load_loop sn h now r' c else Inr (err, None, c))"
    using load_loop_then [OF assms, of ?r "0 # rest" h now c] by (auto simp: NewWALSegmentReader_def)
  have "\<exists>n. load_loop sn h now r' c' = Inr (None, Some n, c')" for c' by (rule load_loop_zero [OF r'(1)])
  then obtain f where "\<And>c'. load_loop sn h now r' c' = Inr (None, Some (f c'), c')" by metis
  then show ?thesis
    by (cases "replay h now es c") (auto simp: loaded_def load_file_def r'(2))
qed

lemma overlay_gap:
  assumes "length base < off" "out \<noteq> []"
  shows "\<exists>rest. overlay base off out = base @ 0 # rest"
proof -
  obtain d where d: "off = length base + Suc d" using assms(1) less_imp_Suc_add by fastforce
  then show ?thesis using assms(2) by (auto simp: overlay_def)
qed

lemma open_torn:
  assumes "list_all2 (frame_of sn) es fs" "frame_of sn e f" "0 < j" "j < length f" "n < 100000"
    "replay h now es (c_SetMaxSize 0 c) = Inr (None, c')"
  shows "\<exists>l cur. open_log sn h now (NewWAL [(n, concat fs @ take j f)] sz) c = Inr (None, l, c_SetMaxSize (c_maxSize c) c') \<and>
    wal_files l = [] \<and> wal_current l = Some cur \<and> os_id cur = n \<and> os_base cur = concat fs \<and> os_off cur = length (concat fs) + j"
proof -
  let ?b = "concat fs @ take j f" and ?m = "length (concat fs) + j"
  have ne: "?b \<noteq> []" using assms(3,4) by (cases f) auto
  have fn: "idFromFileName (segment_name n) = Inr n" using assms(5) by (intro idFromFileName_segment_name) simp
  have all: "list_all2 (frame_of sn) (es @ [e]) (fs @ [f])" using assms(1,2) by (simp add: list_all2_appendI)
  have c: "complete ?m (fs @ [f]) = length fs" "length fs = length es"
    using assms(1,4) by (simp_all add: complete_offset list_all2_lengthD)
  have "load_file sn h now ?b (c_SetMaxSize 0 c) = Inr (None, concat fs, c')"
    using load_file_prefix [OF all, of ?m h now "c_SetMaxSize 0 c"] assms(4,6) c by simp
  then show ?thesis
    using ne fn assms(4)
    by (simp add: open_log_def reloadCache_def wal_Open_def NewWAL_def segmentFileNames_def all_files_def os_disk_def
        sw_file_def NewWALSegmentWriter_def overlay_def put_contents_def Let_def)
qed

subsection \<open>Properties\<close>

text \<open>
  C5. Entries written after recovering a torn segment are lost. The last segment holds entries and the beginning of
  one more, as a crash leaves it. Opening replays the entries. Whatever is written to the segment from
  then on, synced or not, the recovery after the next crash replays those old entries and nothing else.
\<close>

theorem torn_tail_loses_writes:
  assumes "list_all2 (frame_of sn) es fs" "frame_of sn e f" "0 < j" "j < length f" "n < 100000"
    "replay h now es (c_SetMaxSize 0 c) = Inr (None, c')"
  shows "\<exists>l cur. open_log sn h now (NewWAL [(n, concat fs @ take j f)] sz) c = Inr (None, l, c_SetMaxSize (c_maxSize c) c') \<and>
    wal_current l = Some cur \<and>
    (\<forall>w m h now c2. loaded sn h now (map snd (segmentFileNames
        (crash_files m (l\<lparr>wal_current := Some (cur\<lparr>os_writer := w\<rparr>)\<rparr>)))) c2 = replay h now es c2)"
proof -
  obtain l cur where l: "open_log sn h now (NewWAL [(n, concat fs @ take j f)] sz) c = Inr (None, l, c_SetMaxSize (c_maxSize c) c')"
    "wal_files l = []" "wal_current l = Some cur" "os_base cur = concat fs" "os_off cur = length (concat fs) + j"
    using open_torn [OF assms] by blast
  have "loaded sn h now [overlay (concat fs) (length (concat fs) + j) out] c2 = replay h now es c2" for h now out c2
  proof (cases "out = []")
    case True
    have enc: "list_all2 (encodes sn) [es] [concat fs]" using assms(1) by (auto simp: encodes_def)
    show ?thesis
      using loaded_files [OF enc, of h now "[]" c2] True
      by (cases "replay h now es c2") (auto simp: overlay_def loaded_def)
  next
    case False
    then obtain rest where "overlay (concat fs) (length (concat fs) + j) out = concat fs @ 0 # rest"
      using overlay_gap [of "concat fs" "length (concat fs) + j" out] assms(3) by auto
    then show ?thesis by (simp add: loaded_then_zero [OF assms(1)])
  qed
  then show ?thesis using l by (intro exI [of _ l] exI [of _ cur]) (simp add: crash_files_def segmentFileNames_def)
qed

theorem torn_tail_loses_writes_witness:
  "\<exists>l cur. open_log stored (\<lambda>_. 0) 0 (NewWAL [(1, take 3 (frame 1 (entry_image sample_entry)))] 10) (NewCache 0) =
      Inr (None, l, NewCache 0) \<and> wal_current l = Some cur \<and>
    loaded stored (\<lambda>_. 0) 0 (map snd (segmentFileNames (crash_files 100
      (l\<lparr>wal_current := Some (cur\<lparr>os_writer := sw_sync (sw_Write 1 (entry_image sample_entry) (os_writer cur))\<rparr>)\<rparr>)))) (NewCache 0) =
    Inr (None, NewCache 0)"
proof -
  have f: "frame_of stored sample_entry (frame 1 (entry_image sample_entry))"
    using sample_entry_codec by (auto simp: frame_of_def stored_def)
  have "c_SetMaxSize (c_maxSize (NewCache 0)) (c_SetMaxSize 0 (NewCache 0)) = NewCache 0"
    by (simp add: c_SetMaxSize_def NewCache_def)
  then show ?thesis
    using torn_tail_loses_writes [of stored "[]" "[]", OF _ f, of 3 1 "\<lambda>_. 0" 0 "NewCache 0" "c_SetMaxSize 0 (NewCache 0)" 10]
    by (simp add: length_frame) blast
qed

text \<open>
  C39. Segment numbers have five digits in the names of the files, and the files are taken in the order of their names:
  segment 100000 is replayed before segment 99999. Opening such a directory continues at 99999, and the next
  segment is the existing file 100000, which is overwritten from its start.
\<close>

theorem segment_100000:
  "segmentFileNames [(99999, x # a), (100000, b)] = [(100000, b), (99999, x # a)] \<and>
   (\<exists>l l' cur. wal_Open (NewWAL [(99999, x # a), (100000, b)] sz) = Inr l \<and> wal_segmentID l = 99999 \<and>
      newSegmentFile l = Inr l' \<and> wal_current l' = Some cur \<and> os_id cur = 100000 \<and> os_base cur = b \<and> os_off cur = 0)"
proof -
  have n: "segment_name 99999 = [95, 57, 57, 57, 57, 57, 46, 119, 97, 108]"
    "segment_name 100000 = [95, 49, 48, 48, 48, 48, 48, 46, 119, 97, 108]"
    by (simp_all add: segment_name_def digits.simps)
  have seg: "segmentFileNames [(99999, x # a), (100000, b)] = [(100000, b), (99999, x # a)]"
    by (simp add: segmentFileNames_def n)
  have "idFromFileName (segment_name 99999) = Inr 99999" by (rule idFromFileName_segment_name) simp
  then show ?thesis
    using seg by (simp add: wal_Open_def NewWAL_def Let_def newSegmentFile_def closeCurrentSegmentFile_def wal_sync_def)
qed

text \<open>The log of the witnesses above, closed, opened again, and written to.\<close>

definition sample_closed :: "bool \<Rightarrow> syncer \<Rightarrow> WAL" where
  "sample_closed closing s =
     \<lparr>wal_files = [(1, frame 1 (entry_image sample_entry))], wal_segmentID = 1, wal_current = None, wal_SegmentSize = 10,
      wal_closing = closing, wal_once = True, wal_syncer = s, wal_waiters = [], wal_notified = [7]\<rparr>"

definition sample_reopened :: "syncer \<Rightarrow> WAL" where
  "sample_reopened s =
     \<lparr>wal_files = [], wal_segmentID = 1, wal_current = Some \<lparr>os_id = 1, os_base = frame 1 (entry_image sample_entry), os_off = 29,
      os_writer = NewWALSegmentWriter\<lparr>sw_size := 29\<rparr>, os_synced = 0\<rparr>, wal_SegmentSize = 10,
      wal_closing = False, wal_once = True, wal_syncer = s, wal_waiters = [], wal_notified = [7]\<rparr>"

definition sample_waiting :: WAL where
  "sample_waiting = snd (writeToLog stored [] [] sample_entry 8 (sample_reopened Leaving))"

lemmas reopened_eval = log_eval os_disk_def overlay_def sample_synced_eq(2) sample_written_eq(2) length_frame sample_entry_codec stored_def

lemma sample_waiting_eq:
  "wal_segmentID sample_waiting = 2" "wal_waiters sample_waiting = [8]" "wal_syncer sample_waiting = Leaving"
  by (simp_all add: sample_waiting_def sample_reopened_def reopened_eval)


end
