(* ===== verification/Spec2Isabelle.thy ===== *)
theory Spec2Isabelle
  imports TsmBlock Simple8bStream MetaAuth TsmValueTypes TsmCache WalRecovery
begin

text \<open>
  \<^bold>\<open>A verification of the storage codecs and the metadata store of an InfluxDB 2 backend.\<close>

  The program under \<open>src/backend\<close> is a time series database. A write reaches a shard; the values of a
  series are collected, put into order, compressed into blocks and written to TSM files, and blocks of
  several files are later merged. Which shard a point belongs to, and who may read or write it, is
  recorded in a metadata catalogue that a client keeps in memory and in a key-value store. This
  development models these two parts as functions, and proves that blocks and catalogue give back what
  was put into them, that the in-place and unchecked routines compute what simpler ones do and stay
  inside their buffers, and that the catalogue keeps its invariant whatever is called.

  \<^bold>\<open>Conventions\<close> (\<open>Prelude\<close>). \<open>int64\<close> and \<open>uint64\<close> are 64-bit words; where the sign matters the word is
  read with \<open>sint\<close>. A function that returns an error or panics is a function into \<open>'a res\<close>. A slice is a
  record of its array up to the capacity and its length, so that re-slicing and \<open>append\<close> show and
  overwrite what the array holds. Functions are executable; the witnesses evaluate them.

  \<^bold>\<open>Integer packing\<close> (\<open>src/backend/pkg/encoding/simple8b\<close>).
  \<^item> \<open>GoBinary\<close>: \<open>encoding/binary\<close> of the Go library: big-endian words and varints, with their round trips.
  \<^item> \<open>WordCodec\<close>: packing of numbers into one word, the arithmetic behind the pack routines.
  \<^item> \<open>Simple8b\<close>: the selector table, \<open>Encode\<close>, \<open>EncodeAll\<close>, \<open>Decode\<close>, \<open>DecodeAll\<close>, \<open>DecodeBytesBigEndian\<close>, the
    counting routines. \<open>EncodeAll\<close> writes over the array that it reads; it is shown equal to an encoder
    with a separate output. The unchecked decoders are shown to stay inside a buffer of the counted size.
  \<^item> \<open>Simple8bStream\<close>: the buffered \<open>Encoder\<close> and \<open>Decoder\<close> as records, with an invariant, and the round
    trip of the stream.

  \<^bold>\<open>TSM blocks\<close> (\<open>src/backend/tsdb/engine/tsm1\<close>).
  \<^item> \<open>BatchCommon\<close>: the contract of an array codec (locale \<open>array_codec\<close>: what is encoded reads back into
    any destination) and the delta, run-length and growing idioms that the codecs share.
  \<^item> \<open>BatchInteger\<close>, \<open>BatchTimestamp\<close>, \<open>BatchBoolean\<close>, \<open>BatchString\<close>: the batch codecs with their three
    encodings, errors and reuse of slices; each interprets the contract. When decoding arbitrary bytes
    can panic is characterised exactly. The compressor of the strings is a parameter with the documented
    contract of the snappy library as hypotheses.
  \<^item> \<open>TsmBlock\<close>: \<open>packBlock\<close>, \<open>unpackBlock\<close> and the block encoders and decoders; the round trip of blocks is
    proved once in the locale and instantiated per type.

  \<^bold>\<open>Values and arrays\<close> (\<open>encoding.gen.go\<close>, \<open>src/backend/tsdb/cursors\<close>).
  \<^item> \<open>TsmValues\<close>: slices of timestamped values: \<open>search\<close>, \<open>FindRange\<close>, \<open>Exclude\<close>, \<open>Include\<close>, \<open>Deduplicate\<close>,
    \<open>Merge\<close>. The specification is the map from timestamps to values (\<open>value_at\<close>): a strictly increasing
    slice is determined by it, \<open>Deduplicate\<close> keeps it and \<open>Merge\<close> is the overriding union.
  \<^item> \<open>TsmArrays\<close>: the same operations on pairs of slices, in place and by index, as a refinement of
    \<open>TsmValues\<close>; and the composition with the blocks: decode, merge, encode.
  \<^item> \<open>TsmValueTypes\<close>: the method sets of the five generated value types and array types.

  \<^bold>\<open>Metadata\<close> (\<open>src/backend/v1/services/meta\<close>). Times are integers (nanoseconds), pointers into the data
  are updates of the first matching element, maps are association lists.
  \<^item> \<open>KeyedList\<close>: lists of records with a key: lookup, update and removal of the first match; the locale
    \<open>named_store\<close> is the contract of a store of named records.
  \<^item> \<open>MetaTypes\<close>, \<open>MetaData\<close>, \<open>MetaShards\<close>: the records of \<open>data.go\<close> and every operation on databases,
    retention policies, queries, subscriptions, users, shard groups, and the import of a backup.
  \<^item> \<open>MetaMarshal\<close>: marshalling into messages and back, and the clone methods; the round trip of the data.
  \<^item> \<open>MetaGroups\<close>: shard groups as intervals: creation gives the largest group that covers the timestamp
    and overlaps no live one; truncation.
  \<^item> \<open>MetaCatalogue\<close>, \<open>MetaIds\<close>: the operations as one step relation (\<open>reachable\<close>), and the invariant of
    the catalogue by rule induction: names, users, privileges, durations, disjoint and sorted groups,
    unique identifiers.
  \<^item> \<open>MetaStores\<close>: databases and users as interpretations of \<open>named_store\<close>; what dropping and recreating
    does; and two reachable states with dangling or doubled names.
  \<^item> \<open>MetaClient\<close>: the client: every method, commits that may fail, restart. A call is atomic with respect
    to the specification by catalogue operations, and a restarted client has the data of the old one.
  \<^item> \<open>MetaAuth\<close>: authentication with its cache and the interleavings its three critical sections allow,
    the authorizers, and leases.


  \<^bold>\<open>Cache\<close> (\<open>cache.go\<close>, \<open>ring.go\<close>).
  \<^item> \<open>CacheStore\<close>: entries with their value type, the hash ring of partitions and the empty store. The locale
    \<open>entry_store\<close> is what the cache relies on: a write, an update or a removal changes one key, and the
    accounted bytes by its weight; ring and store interpret it for any hash function.
  \<^item> \<open>TsmCache\<close>: the cache with its snapshot and its counters. Every operation is specified by its effect on
    the visible values per key (\<open>visible\<close>), on the sizes and on the invariant \<open>cache_ok\<close>; over sequences of
    operations reads see the last writes, the sizes cover the store and do not wrap, and types do not mix.

  \<^bold>\<open>Write-ahead log\<close> (\<open>wal.go\<close>, \<open>CacheLoader\<close> in \<open>cache.go\<close>).
  \<^item> \<open>WalEntries\<close>, \<open>WalCodec\<close>: the entries and their binary format; the encoders write what the format says
    into any buffer, the decoders read it back, and neither panic nor read out of range on arbitrary bytes.
  \<^item> \<open>WalSegment\<close>: segment writer and reader, and the loader that replays segments into the cache. What is
    replayed of a file that was cut anywhere is exactly the entries that are complete in it.
  \<^item> \<open>WalLog\<close>: the log as a directory of segments with its waiters and its sync goroutine; one step relation for
    everything that can happen, an invariant that says which entries a crash cannot lose, durability of
    acknowledged entries, and that every waiter is told in fair runs.
  \<^item> \<open>WalRecovery\<close>: opening after a crash, and the cases in which recovery and reopening fail.

  \<^bold>\<open>Bounds.\<close> Recursions follow the loops and have termination proofs; no fuel is used in the model. The
  hypotheses on lengths (below \<open>2 ^ 63\<close>, \<open>2 ^ 59\<close> for the timestamps of a block, \<open>2 ^ 56\<close> for booleans) say that
  byte counts fit an \<open>int\<close>.

  \<^bold>\<open>Not modelled.\<close> The Gorilla compression of floats (batch and streaming); TSM files, their index, the file store,
  compaction planning and the engine, which are file access, memory maps and goroutines around the
  blocks; the series file and the index on disk; the line protocol parser; the query engines, which
  compile syntax trees of external libraries; the HTTP interface and the CRUD services over the
  key-value store. Pooling of encoders, metrics and logging have no effect on results and are left out.
\<close>

end
